(* ===== verification/Prelude.thy ===== *)
theory Prelude
  imports Main "HOL-Library.Word"
begin

text \<open>
  Shared vocabulary of the development: the machine integer types of the C++ code, the
  faults an operation can end with, sequencing of operations that may fail, the run of a
  fallible operation over a list of inputs, and the 24-bit little-endian integers of the
  packet header with their word-level decoding.
\<close>

section \<open>Machine types and faults\<close>

type_synonym u8 = "8 word"
type_synonym u32 = "32 word"
type_synonym u64 = "64 word"

text \<open>
  How an operation can fail: a \<open>std::runtime_error\<close> thrown by the program itself, a
  \<open>std::length_error\<close> thrown by \<open>std::string\<close>, a \<open>boost::system::system_error\<close> thrown by
  a throwing overload of Boost.Asio, or an access that C++ leaves undefined (a member
  access through a dangling \<open>this\<close>, a read past the end of a buffer).
\<close>

datatype cxx_fault =
    Runtime_error string
  | Length_error
  | System_error int
  | Undefined_behaviour

type_synonym 'a result = "cxx_fault + 'a"

named_theorems collect_defs \<open>definitions unfolded to evaluate one byte of packet collection\<close>

section \<open>Sequencing operations that may fail\<close>

definition bind_res :: "'a result \<Rightarrow> ('a \<Rightarrow> 'b result) \<Rightarrow> 'b result" where
  "bind_res r f = (case r of Inl e \<Rightarrow> Inl e | Inr x \<Rightarrow> f x)"

lemma bind_res_Inl [simp]: "bind_res (Inl e) f = Inl e"
  by (simp add: bind_res_def)

lemma bind_res_Inr [simp]: "bind_res (Inr x) f = f x"
  by (simp add: bind_res_def)

lemma bind_res_eq_Inr: "bind_res r f = Inr y \<longleftrightarrow> (\<exists>x. r = Inr x \<and> f x = Inr y)"
  by (cases r) auto

lemma bind_res_eq_Inl:
  "bind_res r f = Inl e \<longleftrightarrow> r = Inl e \<or> (\<exists>x. r = Inr x \<and> f x = Inl e)"
  by (cases r) auto

lemma bind_res_assoc: "bind_res (bind_res r f) g = bind_res r (\<lambda>x. bind_res (f x) g)"
  by (cases r) auto

lemmas bind_res_iffs = bind_res_eq_Inr bind_res_eq_Inl

text \<open>A loop over a list that stops at the first failure, as an exception leaves a loop.\<close>

fun fold_res :: "('b \<Rightarrow> 's \<Rightarrow> 's result) \<Rightarrow> 'b list \<Rightarrow> 's \<Rightarrow> 's result" where
  "fold_res f [] s = Inr s"
| "fold_res f (x # xs) s = bind_res (f x s) (fold_res f xs)"

lemma fold_res_append:
  "fold_res f (xs @ ys) s = bind_res (fold_res f xs s) (fold_res f ys)"
proof (induction xs arbitrary: s)
  case Nil
  show ?case by simp
next
  case (Cons x xs)
  then show ?case by (cases "f x s") simp_all
qed

section \<open>Bytes and 24-bit little-endian integers\<close>

text \<open>
  The promotion the code relies on: \<open>t_received_byte << k\<close> promotes the byte to a 32-bit
  \<open>int\<close>, shifts it there, and \<open>static_cast<std::uint64_t>\<close> extends the (signed) result.
\<close>

definition shift_byte :: "u8 \<Rightarrow> nat \<Rightarrow> u64" where
  "shift_byte b k = scast (push_bit k (ucast b :: u32))"

lemma unat_u8_less [simp]: "unat (b :: u8) < 256"
  using unsigned_less [of b] by simp

lemma unat_u8_le: "unat (b :: u8) \<le> 255"
  using unat_u8_less [of b] by linarith

definition le24 :: "nat \<Rightarrow> u8 list" where
  "le24 n = [word_of_nat n, word_of_nat (n div 256), word_of_nat (n div 65536)]"

lemma length_le24 [simp]: "length (le24 n) = 3"
  by (simp add: le24_def)

definition le24_value :: "u8 \<Rightarrow> u8 \<Rightarrow> u8 \<Rightarrow> nat" where
  "le24_value b0 b1 b2 = unat b0 + unat b1 * 256 + unat b2 * 65536"

lemma le24_value_bound: "le24_value b0 b1 b2 \<le> 16777215"
  unfolding le24_value_def
  using unat_u8_le [of b0] unat_u8_le [of b1] unat_u8_le [of b2] by linarith

lemma le24_digits:
  fixes n :: nat
  assumes "n < 16777216"
  shows "n mod 256 + (n div 256 mod 256) * 256 + (n div 65536 mod 256) * 65536 = n"
proof -
  have q: "n div 65536 = n div 256 div 256"
    by (simp add: div_mult2_eq [symmetric])
  have "n div 65536 < 256"
    using assms by (simp add: less_mult_imp_div_less)
  then have "n div 65536 mod 256 = n div 256 div 256"
    by (simp add: q)
  then show ?thesis
    using div_mult_mod_eq [of n 256] div_mult_mod_eq [of "n div 256" 256] by linarith
qed

lemma le24_value_le24:
  assumes "n \<le> 16777215"
  shows "le24_value (word_of_nat n) (word_of_nat (n div 256)) (word_of_nat (n div 65536)) = n"
proof -
  have digit: "unat (word_of_nat m :: u8) = m mod 256" for m
    by (simp add: unat_of_nat)
  show ?thesis
    unfolding le24_value_def digit by (rule le24_digits) (use assms in linarith)
qed

text \<open>
  The word expression the code accumulates over the three header bytes is the 24-bit value
  they encode: neither the 32-bit promotion nor the 64-bit additions overflow.
\<close>

lemma unat_ucast_u8: "unat (ucast (b :: u8) :: u32) = unat b"
proof -
  have "unat b < 2 ^ 32" by (rule less_trans [OF unat_u8_less]) simp
  then show ?thesis by (simp only: unsigned_ucast_eq) (simp add: take_bit_nat_eq_self)
qed

lemma unat_push_byte:
  assumes "k \<le> 16"
  shows "unat (push_bit k (ucast (b :: u8) :: u32)) = unat b * 2 ^ k"
proof -
  have "(2::nat) ^ k \<le> 2 ^ 16" using assms by (rule power_increasing) simp
  then have le: "unat b * 2 ^ k < 2 ^ 8 * 2 ^ 16"
    by (intro mult_less_le_imp_less) auto
  have "unat (push_bit k (ucast b :: u32)) = take_bit 32 (push_bit k (unat b))"
    by (simp only: unsigned_push_bit_eq unat_ucast_u8) simp
  then show ?thesis using le 
    by (simp add: push_bit_nat_def take_bit_nat_eq_self)
qed

lemma unat_scast_small:
  assumes "unat (w :: u32) < 2 ^ 31"
  shows "unat (scast w :: u64) = unat w"
proof -
  have "int (unat w) < int (2 ^ 31)" using assms by (simp only: of_nat_less_iff)
  then have u: "uint w < 2 ^ 31" by simp
  have l: "- (2 ^ 31) \<le> uint w" by (rule order_trans [OF _ uint_ge_0]) simp
  have "sint w = signed_take_bit 31 (uint w)" by (simp add: sint_uint)
  also have "\<dots> = uint w" by (rule signed_take_bit_int_eq_self [OF l u])
  finally have "sint w = uint w" .
  then have s: "scast w = (word_of_int (uint w) :: u64)" by (metis scast_eq)
  have "uint (word_of_int (uint w) :: u64) = take_bit 64 (uint w)"
    by (simp only: uint_word_of_int_eq) simp
  also have "\<dots> = uint w"
    by (rule take_bit_int_eq_self) (use u in simp_all)
  finally show ?thesis by (simp only: s unat_eq_nat_uint)
qed

lemma unat_shift_byte:
  assumes "k \<le> 16"
  shows "unat (shift_byte b k) = unat b * 2 ^ k"
proof -
  have "(2::nat) ^ k \<le> 2 ^ 16" using assms by (rule power_increasing) simp
  then have "unat b * 2 ^ k < 2 ^ 8 * 2 ^ 16"
    by (intro mult_less_le_imp_less) auto
  then have "unat (push_bit k (ucast b :: u32)) < 2 ^ 31"
    unfolding unat_push_byte [OF assms] by (rule less_trans) simp
  then show ?thesis
   unfolding shift_byte_def by (simp only: unat_scast_small unat_push_byte [OF assms])
qed

lemma unat_header_length:
  "unat ((ucast b0 :: u64) + shift_byte b1 8 + shift_byte b2 16) = le24_value b0 b1 b2"
proof -
  have "unat b0 < 2 ^ 64" by (rule less_trans [OF unat_u8_less]) simp
  then have b0: "unat (ucast b0 :: u64) = unat b0"
    by (simp only: unsigned_ucast_eq) (simp add: take_bit_nat_eq_self)
  then show ?thesis
  using le24_value_bound [of b0 b1 b2]
  by (simp add: unat_word_ariths unat_shift_byte le24_value_def)
qed

end
