(* ===== verification/Command.thy ===== *)
theory Command
  imports Prelude
begin

text \<open>
  The two phases of a MySQL connection and the commands of a client
  (\<open>MySqlConnectionState\<close> and \<open>MySqlCommand\<close> of packet.hpp and packet.cpp). The enumeration
  \<open>Command\<close> has the fixed underlying type \<open>unsigned char\<close>, so every byte is one of its
  values: the values without an enumerator are kept as \<open>Unlisted_command\<close>.
\<close>

datatype MySqlConnectionState = CONNECTION_PHASE | COMMAND_PHASE

datatype Command =
    UNKNOWN
  | COM_QUIT
  | COM_INIT_DB
  | COM_QUERY
  | COM_FIELD_LIST
  | COM_REFRESH
  | COM_STATISTICS
  | COM_PROCESS_INFO
  | COM_PROCESS_KILL
  | COM_DEBUG
  | COM_PING
  | COM_CHANGE_USER
  | COM_RESET_CONNECTION
  | COM_STMT_PREPARE
  | COM_STMT_EXECUTE
  | COM_STMT_CLOSE
  | COM_STMT_RESET
  | COM_STMT_SEND_LONG_DATA
  | Unlisted_command u8

text \<open>The enumerators' values, in the order of the declaration.\<close>

definition command_table :: "(Command \<times> u8) list" where
  "command_table =
    [(UNKNOWN, 0x00), (COM_QUIT, 0x01), (COM_INIT_DB, 0x02), (COM_QUERY, 0x03),
     (COM_FIELD_LIST, 0x04), (COM_REFRESH, 0x07), (COM_STATISTICS, 0x08),
     (COM_PROCESS_INFO, 0x0A), (COM_PROCESS_KILL, 0x0C), (COM_DEBUG, 0x0D),
     (COM_PING, 0x0E), (COM_CHANGE_USER, 0x11), (COM_RESET_CONNECTION, 0x1F),
     (COM_STMT_PREPARE, 0x16), (COM_STMT_EXECUTE, 0x17), (COM_STMT_CLOSE, 0x19),
     (COM_STMT_RESET, 0x1A), (COM_STMT_SEND_LONG_DATA, 0x18)]"

text \<open>\<open>static_cast<Command>\<close> of a byte, and the byte a value of the enumeration holds.\<close>

definition command_of_byte :: "u8 \<Rightarrow> Command" where
  "command_of_byte b =
     (case map_of (map prod.swap command_table) b of
        Some c \<Rightarrow> c
      | None \<Rightarrow> Unlisted_command b)"

definition byte_of_command :: "Command \<Rightarrow> u8" where
  "byte_of_command c =
     (case c of
        Unlisted_command b \<Rightarrow> b
      | _ \<Rightarrow> the (map_of command_table c))"

fun is_valid :: "Command \<Rightarrow> bool" where
  "is_valid COM_QUIT = True"
| "is_valid COM_INIT_DB = True"
| "is_valid COM_QUERY = True"
| "is_valid COM_FIELD_LIST = True"
| "is_valid COM_REFRESH = True"
| "is_valid COM_STATISTICS = True"
| "is_valid COM_PROCESS_INFO = True"
| "is_valid COM_PROCESS_KILL = True"
| "is_valid COM_DEBUG = True"
| "is_valid COM_PING = True"
| "is_valid COM_CHANGE_USER = True"
| "is_valid COM_RESET_CONNECTION = True"
| "is_valid COM_STMT_RESET = True"
| "is_valid COM_STMT_PREPARE = True"
| "is_valid COM_STMT_EXECUTE = True"
| "is_valid COM_STMT_CLOSE = True"
| "is_valid COM_STMT_SEND_LONG_DATA = True"
| "is_valid _ = False"

fun has_sql_field :: "Command \<Rightarrow> bool" where
  "has_sql_field COM_INIT_DB = True"
| "has_sql_field COM_QUERY = True"
| "has_sql_field COM_STMT_PREPARE = True"
| "has_sql_field _ = False"

fun command_name :: "Command \<Rightarrow> u64 \<Rightarrow> string" where
  "command_name COM_QUIT n = ''COM_QUIT''"
| "command_name COM_INIT_DB n = ''COM_INIT_DB''"
| "command_name COM_QUERY n = ''COM_QUERY''"
| "command_name COM_FIELD_LIST n = ''COM_FIELD_LIST''"
| "command_name COM_REFRESH n = ''COM_REFRESH''"
| "command_name COM_STATISTICS n = ''COM_STATISTICS''"
| "command_name COM_PROCESS_INFO n = ''COM_PROCESS_INFO''"
| "command_name COM_PROCESS_KILL n = ''COM_PROCESS_KILL''"
| "command_name COM_DEBUG n = ''COM_DEBUG''"
| "command_name COM_PING n = ''COM_PING''"
| "command_name COM_CHANGE_USER n = ''COM_CHANGE_USER''"
| "command_name COM_RESET_CONNECTION n = ''COM_RESET_CONNECTION''"
| "command_name COM_STMT_RESET n =
     (if n = 3 then ''COM_SET_OPTION'' else if n = 5 then ''COM_STMT_RESET'' else [])"
| "command_name COM_STMT_PREPARE n = ''COM_STMT_PREPARE''"
| "command_name COM_STMT_EXECUTE n = ''COM_STMT_EXECUTE''"
| "command_name COM_STMT_CLOSE n =
     (if n = 9 then ''COM_STMT_FETCH'' else if n = 5 then ''COM_STMT_CLOSE'' else [])"
| "command_name COM_STMT_SEND_LONG_DATA n = ''COM_STMT_SEND_LONG_DATA''"
| "command_name _ n = []"

section \<open>Facts about commands\<close>

lemma has_sql_field_valid: "has_sql_field c \<Longrightarrow> is_valid c"
  by (cases c) auto

lemma has_sql_field_iff: "has_sql_field c \<longleftrightarrow> c \<in> {COM_INIT_DB, COM_QUERY, COM_STMT_PREPARE}"
  by (cases c) auto

lemma command_name_invalid: "\<not> is_valid c \<Longrightarrow> command_name c n = []"
  by (cases c) auto

lemma command_name_sql: "has_sql_field c \<Longrightarrow> command_name c n \<noteq> []"
  by (cases c) auto

lemma is_valid_command_of_byte:
  "is_valid (command_of_byte b) \<longleftrightarrow>
     b \<in> {0x01, 0x02, 0x03, 0x04, 0x07, 0x08, 0x0A, 0x0C, 0x0D, 0x0E, 0x11, 0x1F,
          0x16, 0x17, 0x19, 0x1A, 0x18}"
  by (auto simp: command_of_byte_def command_table_def split: if_splits)

text \<open>
  The cast from a byte to \<open>Command\<close> loses nothing: reading the value back as an
  \<open>unsigned char\<close> gives the byte that was received, for all 256 bytes.
\<close>

theorem byte_of_command_of_byte: "byte_of_command (command_of_byte b) = b"
  by (auto simp: command_of_byte_def byte_of_command_def command_table_def split: if_splits)

text \<open>
  The commands without a name in the log are exactly the values \<open>is_valid\<close> rejects and
  the two overloaded commands with a payload length that fits neither reading
  (\<open>COM_SET_OPTION\<close> or \<open>COM_STMT_RESET\<close>, \<open>COM_STMT_FETCH\<close> or \<open>COM_STMT_CLOSE\<close>); in
  particular every command with an SQL field has a name.
\<close>

theorem command_name_empty_iff:
  "(command_name c n = [] \<longleftrightarrow>
     (if is_valid c
      then (c = COM_STMT_RESET \<and> n \<notin> {3, 5}) \<or> (c = COM_STMT_CLOSE \<and> n \<notin> {5, 9})
      else True)) \<and>
   \<not> (has_sql_field c \<and> command_name c n = [])"
  by (cases c) auto

end
