(* ===== verification/Packet.thy ===== *)
theory Packet
  imports Command
begin

text \<open>
  The packet collector \<open>MySqlPacket\<close> of packet.hpp and packet.cpp. The class is a record; a
  derived class is an extension of the record, and its overridden virtual functions are the
  fields of a \<open>packet_vtable\<close> that \<open>collect\<close> calls. The lemmas here hold for every class:
  running over a concatenation, and the closed form of the four header bytes.
\<close>

section \<open>State\<close>

datatype PacketState =
    PAYLOAD_LENGTH_0
  | PAYLOAD_LENGTH_1
  | PAYLOAD_LENGTH_2
  | SEQUENCE_ID
  | PAYLOAD

record MySqlPacket =
  m_payload_first_part :: bool
  m_payload_not_ended :: bool
  m_payload_is_received :: bool
  m_payload_length :: u64
  m_sequence_id :: u8
  m_received_bytes :: u64
  m_packet_state :: PacketState

definition MAX_PAYLOAD_LENGTH :: u64 where
  "MAX_PAYLOAD_LENGTH = 0xffffff"

text \<open>The default member initialisers.\<close>

definition new_MySqlPacket :: MySqlPacket where
  "new_MySqlPacket =
     \<lparr>m_payload_first_part = True, m_payload_not_ended = False,
      m_payload_is_received = False, m_payload_length = 0, m_sequence_id = 0,
      m_received_bytes = 0, m_packet_state = PAYLOAD_LENGTH_0\<rparr>"

definition is_received :: "'a MySqlPacket_scheme \<Rightarrow> bool" where
  "is_received p = m_payload_is_received p"

text \<open>
  The protected virtual functions. \<open>connection_phase_parse\<close> may change the connection state
  it is given by reference and write to \<open>std::cout\<close>, whose text is the third component;
  the functions that store into a string may throw.
\<close>

record 'p packet_vtable =
  v_connection_phase_parse ::
    "u8 \<Rightarrow> 'p \<times> MySqlConnectionState \<times> string \<Rightarrow> 'p \<times> MySqlConnectionState \<times> string"
  v_command_phase_parse :: "u8 \<Rightarrow> 'p \<Rightarrow> 'p result"
  v_collect_data :: "u8 \<Rightarrow> 'p \<Rightarrow> 'p result"
  v_data_is_received :: "'p \<Rightarrow> 'p"

type_synonym 'a packet_ctx = "'a MySqlPacket_scheme \<times> MySqlConnectionState \<times> string"

section \<open>collect\<close>

text \<open>The part of the last case that analyses the first byte of a packet's payload.\<close>

definition analyse_first_byte ::
  "'a MySqlPacket_scheme packet_vtable \<Rightarrow> u8 \<Rightarrow> 'a packet_ctx \<Rightarrow> 'a packet_ctx result" where
  "analyse_first_byte vt b ctx =
     (case ctx of (p, cs, out) \<Rightarrow>
        if m_received_bytes p = 0 then
          (case cs of
             CONNECTION_PHASE \<Rightarrow> Inr (v_connection_phase_parse vt b (p, cs, out))
           | COMMAND_PHASE \<Rightarrow>
               bind_res (v_command_phase_parse vt b p) (\<lambda>p'. Inr (p', cs, out)))
        else Inr (p, cs, out))"

definition finish_byte ::
  "'a MySqlPacket_scheme packet_vtable \<Rightarrow> 'a MySqlPacket_scheme \<Rightarrow> 'a MySqlPacket_scheme" where
  "finish_byte vt p0 =
     (let p = p0\<lparr>m_received_bytes := m_received_bytes p0 + 1\<rparr> in
      if m_received_bytes p = m_payload_length p then
        let p' = (if \<not> m_payload_not_ended p
                  then v_data_is_received vt (p\<lparr>m_payload_is_received := True\<rparr>)
                  else p)
        in p'\<lparr>m_payload_first_part := \<not> m_payload_not_ended p',
              m_packet_state := PAYLOAD_LENGTH_0\<rparr>
      else p)"

definition collect ::
  "'a MySqlPacket_scheme packet_vtable \<Rightarrow> u8 \<Rightarrow> 'a packet_ctx \<Rightarrow> 'a packet_ctx result" where
  "collect vt b ctx =
     (case ctx of (p, cs, out) \<Rightarrow>
      (case m_packet_state p of
         PAYLOAD_LENGTH_0 \<Rightarrow>
           Inr (p\<lparr>m_payload_is_received := False, m_received_bytes := 0,
                  m_payload_length := ucast b, m_packet_state := PAYLOAD_LENGTH_1\<rparr>, cs, out)
       | PAYLOAD_LENGTH_1 \<Rightarrow>
           Inr (p\<lparr>m_payload_length := m_payload_length p + shift_byte b 8,
                  m_packet_state := PAYLOAD_LENGTH_2\<rparr>, cs, out)
       | PAYLOAD_LENGTH_2 \<Rightarrow>
           Inr (p\<lparr>m_payload_length := m_payload_length p + shift_byte b 16,
                  m_packet_state := SEQUENCE_ID\<rparr>, cs, out)
       | SEQUENCE_ID \<Rightarrow>
           (let p' = p\<lparr>m_sequence_id := b,
                       m_payload_not_ended := (MAX_PAYLOAD_LENGTH = m_payload_length p)\<rparr> in
            if 0 = m_payload_length p'
            then Inr (p'\<lparr>m_payload_is_received := True, m_payload_first_part := True,
                         m_packet_state := PAYLOAD_LENGTH_0\<rparr>, cs, out)
            else Inr (p'\<lparr>m_packet_state := PAYLOAD\<rparr>, cs, out))
       | PAYLOAD \<Rightarrow>
           bind_res (analyse_first_byte vt b (p, cs, out)) (\<lambda>(p1, cs1, out1).
           bind_res (if 0 < m_received_bytes p1 \<or> \<not> m_payload_first_part p1
                     then v_collect_data vt b p1 else Inr p1) (\<lambda>p2.
           Inr (finish_byte vt p2, cs1, out1)))))"

definition collect_all ::
  "'a MySqlPacket_scheme packet_vtable \<Rightarrow> u8 list \<Rightarrow> 'a packet_ctx \<Rightarrow> 'a packet_ctx result" where
  "collect_all vt bs ctx = fold_res (collect vt) bs ctx"

lemma collect_all_Nil [simp]: "collect_all vt [] ctx = Inr ctx"
  by (simp add: collect_all_def)

lemma collect_all_Cons: "collect_all vt (b # bs) ctx = bind_res (collect vt b ctx) (collect_all vt bs)"
  by (simp add: collect_all_def [abs_def])

lemma collect_all_append:
  "collect_all vt (as @ bs) ctx = bind_res (collect_all vt as ctx) (collect_all vt bs)"
  by (simp add: collect_all_def [abs_def] fold_res_append)

declare collect_def [collect_defs] analyse_first_byte_def [collect_defs]
  finish_byte_def [collect_defs]

section \<open>The header, for every class\<close>

text \<open>
  The four header bytes call no virtual function, so their effect has a closed form.
\<close>

definition after_header :: "nat \<Rightarrow> u8 \<Rightarrow> 'a MySqlPacket_scheme \<Rightarrow> 'a MySqlPacket_scheme" where
  "after_header n s p =
     (if n = 0
      then p\<lparr>m_payload_first_part := True, m_payload_not_ended := False,
             m_payload_is_received := True, m_payload_length := 0, m_sequence_id := s,
             m_received_bytes := 0\<rparr>
      else p\<lparr>m_payload_not_ended := (n = 16777215), m_payload_is_received := False,
             m_payload_length := word_of_nat n, m_sequence_id := s, m_received_bytes := 0,
             m_packet_state := PAYLOAD\<rparr>)"

lemma unat_word_of_nat_u64:
  assumes "n \<le> 16777215"
  shows "unat (word_of_nat n :: u64) = n"
proof -
  have "n < 2 ^ 64" using assms by (rule le_less_trans) simp
  then show ?thesis by (simp add: unat_of_nat)
qed

lemma header_word:
  assumes "n \<le> 16777215"
  shows "(ucast (word_of_nat n :: u8) :: u64) + shift_byte (word_of_nat (n div 256)) 8 +
           shift_byte (word_of_nat (n div 65536)) 16 = word_of_nat n"
  using unat_header_length [of "word_of_nat n" "word_of_nat (n div 256)" "word_of_nat (n div 65536)"]
    le24_value_le24 [OF assms] unat_word_of_nat_u64 [OF assms]
  by (metis unsigned_word_eqI)

lemma collect_header:
  assumes "m_packet_state p = PAYLOAD_LENGTH_0" and "n \<le> 16777215"
  shows "collect_all vt (le24 n @ [s]) (p, cs, out) = Inr (after_header n s p, cs, out)"
proof -
  have zero: "(word_of_nat n :: u64) = 0 \<longleftrightarrow> n = 0"
    using unat_word_of_nat_u64 [OF assms(2)] by (metis unat_0 unsigned_word_eqI of_nat_0)
  have full: "MAX_PAYLOAD_LENGTH = word_of_nat n \<longleftrightarrow> n = 16777215"
    using unat_word_of_nat_u64 [OF assms(2)] unat_word_of_nat_u64 [of 16777215]
    by (auto simp: MAX_PAYLOAD_LENGTH_def)
  show ?thesis
    using assms(1) zero full header_word [OF assms(2)]
    by (simp add: le24_def collect_all_Cons collect_def after_header_def Let_def)
qed

end
