(* ===== verification/Wire.thy ===== *)
theory Wire
  imports Prelude
begin

text \<open>
  What packet.hpp says of the wire: a packet is a three-byte little-endian payload length,
  a sequence id and the payload; a payload of 2^24-1 bytes or more is sent as packets of
  length 2^24-1 and a last packet that is shorter. \<open>encode_packet\<close> and \<open>encode_message\<close> are
  the sender's side; \<open>rx_step\<close> is an abstract receiver on natural numbers that the
  collector of the program is shown to refine.
\<close>

section \<open>The sender's side\<close>

abbreviation full_length :: nat where
  "full_length \<equiv> 16777215"

definition encode_packet :: "u8 \<Rightarrow> u8 list \<Rightarrow> u8 list" where
  "encode_packet s pl = le24 (length pl) @ [s] @ pl"

lemma length_encode_packet [simp]: "length (encode_packet s pl) = length pl + 4"
  by (simp add: encode_packet_def)

lemma encode_packet_nonempty [simp]: "encode_packet s pl \<noteq> []"
  by (simp add: encode_packet_def)

text \<open>A whole message, numbered from \<open>s\<close>; the sequence id wraps around.\<close>

function encode_message :: "u8 \<Rightarrow> u8 list \<Rightarrow> u8 list" where
  "encode_message s pl =
     (if length pl < full_length then encode_packet s pl
      else encode_packet s (take full_length pl) @
           encode_message (s + 1) (drop full_length pl))"
  by pat_completeness auto
termination
  by (relation "measure (\<lambda>(s, pl). length pl)") auto

declare encode_message.simps [simp del]

lemma encode_message_short:
  "length pl < full_length \<Longrightarrow> encode_message s pl = encode_packet s pl"
  by (simp add: encode_message.simps)

lemma encode_message_long:
  "full_length \<le> length pl \<Longrightarrow>
     encode_message s pl =
       encode_packet s (take full_length pl) @ encode_message (s + 1) (drop full_length pl)"
  by (subst encode_message.simps) simp

lemma encode_message_nonempty [simp]: "encode_message s pl \<noteq> []"
  by (subst encode_message.simps) simp

text \<open>The payload length of the last packet of a message.\<close>

definition last_length :: "u8 list \<Rightarrow> nat" where
  "last_length pl = length pl mod full_length"

lemma last_length_short: "length pl < full_length \<Longrightarrow> last_length pl = length pl"
  by (simp add: last_length_def)

lemma last_length_drop:
  "full_length \<le> length pl \<Longrightarrow> last_length (drop full_length pl) = last_length pl"
  by (simp add: last_length_def le_mod_geq)

text \<open>A long message is a full first packet followed by the message of the rest.\<close>

lemma encode_message_split:
  assumes "\<not> length pl < full_length"
  obtains b qs where "length (b # qs) = full_length"
    and "pl = (b # qs) @ drop full_length pl"
    and "encode_message s pl =
           encode_packet s (b # qs) @ encode_message (s + 1) (drop full_length pl)"
    and "last_length (drop full_length pl) = last_length pl"
proof -
  have long: "full_length \<le> length pl" using assms by linarith
  then have len: "length (take full_length pl) = full_length" by simp
  then obtain b qs where take: "take full_length pl = b # qs"
    by (metis list.exhaust list.size(3) zero_neq_numeral)
  show thesis
  proof (rule that)
    show "length (b # qs) = full_length" using len unfolding take .
    show "pl = (b # qs) @ drop full_length pl" using take by (metis append_take_drop_id)
    show "encode_message s pl =
        encode_packet s (b # qs) @ encode_message (s + 1) (drop full_length pl)"
      using encode_message_long [OF long, of s] unfolding take .
    show "last_length (drop full_length pl) = last_length pl"
      using long by (rule last_length_drop)
  qed
qed

section \<open>An abstract receiver\<close>

datatype rx_phase =
    Rx_len0
  | Rx_len1 nat
  | Rx_len2 nat
  | Rx_seq nat
  | Rx_body nat nat

record rx =
  rx_phase :: rx_phase
  rx_first :: bool
  rx_done :: bool
  rx_seq :: u8

definition rx_step :: "u8 \<Rightarrow> rx \<Rightarrow> rx" where
  "rx_step b r =
     (case rx_phase r of
        Rx_len0 \<Rightarrow> r\<lparr>rx_phase := Rx_len1 (unat b), rx_done := False\<rparr>
      | Rx_len1 n \<Rightarrow> r\<lparr>rx_phase := Rx_len2 (n + unat b * 256)\<rparr>
      | Rx_len2 n \<Rightarrow> r\<lparr>rx_phase := Rx_seq (n + unat b * 65536)\<rparr>
      | Rx_seq n \<Rightarrow>
          (if n = 0 then r\<lparr>rx_phase := Rx_len0, rx_first := True, rx_done := True, rx_seq := b\<rparr>
           else r\<lparr>rx_phase := Rx_body n 0, rx_seq := b\<rparr>)
      | Rx_body n k \<Rightarrow>
          (if Suc k = n
           then r\<lparr>rx_phase := Rx_len0, rx_first := (n \<noteq> full_length),
                  rx_done := (n \<noteq> full_length)\<rparr>
           else r\<lparr>rx_phase := Rx_body n (Suc k)\<rparr>))"

definition rx_run :: "u8 list \<Rightarrow> rx \<Rightarrow> rx" where
  "rx_run bs r = fold rx_step bs r"

lemma rx_run_Nil [simp]: "rx_run [] r = r"
  by (simp add: rx_run_def)

lemma rx_run_Cons [simp]: "rx_run (b # bs) r = rx_run bs (rx_step b r)"
  by (simp add: rx_run_def)

lemma rx_run_append: "rx_run (as @ bs) r = rx_run bs (rx_run as r)"
  by (simp add: rx_run_def)

lemma rx_header:
  assumes "rx_phase r = Rx_len0" and "n \<le> full_length"
  shows "rx_run (le24 n @ [s]) r =
           (if n = 0 then r\<lparr>rx_first := True, rx_done := True, rx_seq := s\<rparr>
            else r\<lparr>rx_phase := Rx_body n 0, rx_done := False, rx_seq := s\<rparr>)"
  using assms le24_value_le24 [OF assms(2)]
  by (simp add: le24_def rx_step_def le24_value_def)

text \<open>Inside the body nothing is announced before the last byte.\<close>

lemma rx_body_part:
  assumes "rx_phase r = Rx_body n k" and "k + length bs < n"
  shows "rx_run bs r = r\<lparr>rx_phase := Rx_body n (k + length bs)\<rparr>"
  using assms
proof (induction bs arbitrary: r k)
  case Nil
  then show ?case by simp
next
  case (Cons b bs)
  have "rx_step b r = r\<lparr>rx_phase := Rx_body n (Suc k)\<rparr>"
    using Cons.prems by (simp add: rx_step_def)
  then show ?case using Cons.IH [of "rx_step b r" "Suc k"] Cons.prems by simp
qed

lemma rx_body_all:
  assumes "rx_phase r = Rx_body n k" and "k + length bs = n" and "bs \<noteq> []"
  shows "rx_run bs r =
           r\<lparr>rx_phase := Rx_len0, rx_first := (n \<noteq> full_length), rx_done := (n \<noteq> full_length)\<rparr>"
proof -
  obtain cs b where bs: "bs = cs @ [b]" using assms(3) by (metis rev_exhaust)
  then have n: "n = Suc (k + length cs)" using assms(2) by simp
  then have "rx_run cs r = r\<lparr>rx_phase := Rx_body n (k + length cs)\<rparr>"
    using assms(1) by (intro rx_body_part) simp_all
  then show ?thesis using n by (simp add: bs rx_run_append rx_step_def)
qed

lemma rx_packet:
  assumes "rx_phase r = Rx_len0" and "length pl \<le> full_length"
  shows "rx_run (encode_packet s pl) r =
           r\<lparr>rx_first := (length pl < full_length), rx_done := (length pl < full_length),
             rx_seq := s\<rparr>"
proof -
  have "rx_run (encode_packet s pl) r = rx_run pl (rx_run (le24 (length pl) @ [s]) r)"
    unfolding encode_packet_def append_assoc [symmetric] by (rule rx_run_append)
  then show ?thesis
    using assms rx_body_all [of "r\<lparr>rx_phase := Rx_body (length pl) 0, rx_done := False, rx_seq := s\<rparr>"
        "length pl" 0 pl]
    by (auto simp: rx_header le_less)
qed

section \<open>When a message is announced\<close>

text \<open>A proper, non-empty prefix of a packet announces nothing.\<close>

lemma rx_packet_prefix:
  assumes "rx_phase r = Rx_len0" and "length pl \<le> full_length"
    and "0 < k" and "k < length pl + 4"
  shows "\<not> rx_done (rx_run (take k (encode_packet s pl)) r)"
proof (cases "k < 4")
  case True
  then have "k = 1 \<or> k = 2 \<or> k = 3" using assms(3) by linarith
  then show ?thesis
    using assms(1) by (auto simp: encode_packet_def le24_def rx_step_def)
next
  case False
  define m where "m = k - 4"
  have m: "m < length pl" and k: "k = m + 4" using False assms(4) by (auto simp: m_def)
  have "take k (encode_packet s pl) = (le24 (length pl) @ [s]) @ take m pl"
    by (simp add: encode_packet_def k)
  moreover have "rx_run (le24 (length pl) @ [s]) r =
      r\<lparr>rx_phase := Rx_body (length pl) 0, rx_done := False, rx_seq := s\<rparr>"
    using rx_header [OF assms(1,2)] m by auto
  ultimately show ?thesis
    using m rx_body_part [of "r\<lparr>rx_phase := Rx_body (length pl) 0, rx_done := False, rx_seq := s\<rparr>"
        "length pl" 0 "take m pl"]
    by (simp only: rx_run_append) simp
qed

lemma rx_message:
  assumes "rx_phase r = Rx_len0"
  shows "rx_run (encode_message s pl) r =
           r\<lparr>rx_first := True, rx_done := True,
             rx_seq := s + word_of_nat (length pl div full_length)\<rparr>"
  using assms
proof (induction s pl arbitrary: r rule: encode_message.induct)
  case (1 s pl)
  show ?case
  proof (cases "length pl < full_length")
    case True
    then show ?thesis using 1 by (simp add: encode_message_short rx_packet)
  next
    case False
    then have "length pl div full_length = Suc ((length pl - full_length) div full_length)"
      by (simp add: le_div_geq)
    then show ?thesis
      using False 1 by (simp add: encode_message_long rx_run_append rx_packet add.assoc)
  qed
qed

lemma rx_message_prefix:
  assumes "rx_phase r = Rx_len0" and "0 < k" and "k < length (encode_message s pl)"
  shows "\<not> rx_done (rx_run (take k (encode_message s pl)) r)"
  using assms
proof (induction s pl arbitrary: r k rule: encode_message.induct)
  case (1 s pl)
  show ?case
  proof (cases "length pl < full_length")
    case True
    then show ?thesis
      using 1 rx_packet_prefix [of r pl k s] by (simp add: encode_message_short)
  next
    case False
    define P where "P = encode_packet s (take full_length pl)"
    have P: "rx_run P r = r\<lparr>rx_first := False, rx_done := False, rx_seq := s\<rparr>"
      unfolding P_def using rx_packet [of r "take full_length pl" s] 1 False by simp
    have enc: "encode_message s pl = P @ encode_message (s + 1) (drop full_length pl)"
      using False by (simp add: P_def encode_message_long)
    show ?thesis
    proof (cases "k \<le> length P")
      case True
      show ?thesis
      proof (cases "k = length P")
        case True
        then show ?thesis by (simp add: enc P)
      next
        case False
        then have "k < length (take full_length pl) + 4" using True by (simp add: P_def)
        then show ?thesis
          using rx_packet_prefix [OF 1(2) _ 1(3), of "take full_length pl" s] True
          by (simp add: enc P_def)
      qed
    next
      case False
      then have "\<not> rx_done (rx_run (take (k - length P) (encode_message (s + 1) (drop full_length pl)))
                   (rx_run P r))"
        using 1 \<open>\<not> length pl < full_length\<close> by (intro "1.IH") (simp_all add: P enc)
      then show ?thesis using False by (simp add: enc rx_run_append)
    qed
  qed
qed

lemma rx_done_iff:
  assumes "rx_phase r = Rx_len0" and "0 < k" and "k \<le> length (encode_message s pl)"
  shows "rx_done (rx_run (take k (encode_message s pl)) r) \<longleftrightarrow> k = length (encode_message s pl)"
proof (cases "k = length (encode_message s pl)")
  case True
  then show ?thesis using assms by (simp add: rx_message)
next
  case False
  then show ?thesis using assms rx_message_prefix [OF assms(1,2)] by simp
qed

section \<open>A receiver that keeps the payload\<close>

text \<open>
  The abstract receiver together with the payload of the message so far: emptied when the
  header of a first packet is complete, extended by every byte of a body.
\<close>

definition rx_store :: "u8 \<Rightarrow> rx \<Rightarrow> u8 list \<Rightarrow> u8 list" where
  "rx_store b r xs =
     (case rx_phase r of
        Rx_seq n \<Rightarrow> if rx_first r then [] else xs
      | Rx_body n k \<Rightarrow> xs @ [b]
      | _ \<Rightarrow> xs)"

fun rx_stored :: "u8 list \<Rightarrow> rx \<Rightarrow> u8 list \<Rightarrow> u8 list" where
  "rx_stored [] r xs = xs"
| "rx_stored (b # bs) r xs = rx_stored bs (rx_step b r) (rx_store b r xs)"

lemma rx_stored_append:
  "rx_stored (as @ bs) r xs = rx_stored bs (rx_run as r) (rx_stored as r xs)"
  by (induction as arbitrary: r xs) simp_all

lemma rx_stored_body:
  assumes "rx_phase r = Rx_body n k" and "k + length bs \<le> n"
  shows "rx_stored bs r xs = xs @ bs"
  using assms
proof (induction bs arbitrary: r k xs)
  case Nil
  then show ?case by simp
next
  case (Cons b bs)
  show ?case
  proof (cases "Suc k = n")
    case True
    then have "bs = []" using Cons.prems(2) by (cases bs) auto
    then show ?thesis using Cons.prems(1) by (simp add: rx_store_def)
  next
    case False
    then have "rx_phase (rx_step b r) = Rx_body n (Suc k)"
      using Cons.prems(1) by (simp add: rx_step_def)
    then show ?thesis
      using Cons.IH [of "rx_step b r" "Suc k" "xs @ [b]"] Cons.prems by (simp add: rx_store_def)
  qed
qed

lemma rx_stored_packet:
  assumes "rx_phase r = Rx_len0" and "length pl \<le> full_length"
  shows "rx_stored (encode_packet s pl) r xs = (if rx_first r then [] else xs) @ pl"
proof -
  have "rx_stored (le24 (length pl) @ [s]) r xs = (if rx_first r then [] else xs)"
    using assms(1) by (simp add: le24_def rx_step_def rx_store_def)
  then have "rx_stored (encode_packet s pl) r xs =
      rx_stored pl (rx_run (le24 (length pl) @ [s]) r) (if rx_first r then [] else xs)"
    unfolding encode_packet_def append_assoc [symmetric] by (simp only: rx_stored_append)
  then show ?thesis
    using assms rx_stored_body [of _ "length pl" 0 pl] by (auto simp: rx_header)
qed

lemma rx_stored_message:
  assumes "rx_phase r = Rx_len0"
  shows "rx_stored (encode_message s pl) r xs = (if rx_first r then [] else xs) @ pl"
  using assms
proof (induction s pl arbitrary: r xs rule: encode_message.induct)
  case (1 s pl)
  show ?case
  proof (cases "length pl < full_length")
    case True
    then show ?thesis using 1 by (simp add: encode_message_short rx_stored_packet)
  next
    case False
    then show ?thesis
      using 1 by (simp add: encode_message_long rx_stored_append rx_stored_packet rx_packet)
  qed
qed

end
