(* ===== verification/Framing.thy ===== *)
theory Framing
  imports Packet Wire
begin

text \<open>
  The contract between the collector and its derived classes, and what it gives: under the
  locale \<open>packet_class\<close> (the overridden virtual functions leave the fields of the base class
  alone) the collector, with its 64-bit counters and its flags, refines the abstract
  receiver \<open>rx_step\<close>, whatever the class does with the bytes. So a message of any length is
  announced by \<open>is_received\<close> after exactly its last byte, for the packets of both
  directions.
\<close>

section \<open>Abstraction and invariant of the framing fields\<close>

abbreviation frame :: "'a MySqlPacket_scheme \<Rightarrow> MySqlPacket" where
  "frame \<equiv> MySqlPacket.truncate"

definition abs_frame :: "'a MySqlPacket_scheme \<Rightarrow> rx" where
  "abs_frame p =
     \<lparr>rx_phase =
        (case m_packet_state p of
           PAYLOAD_LENGTH_0 \<Rightarrow> Rx_len0
         | PAYLOAD_LENGTH_1 \<Rightarrow> Rx_len1 (unat (m_payload_length p))
         | PAYLOAD_LENGTH_2 \<Rightarrow> Rx_len2 (unat (m_payload_length p))
         | SEQUENCE_ID \<Rightarrow> Rx_seq (unat (m_payload_length p))
         | PAYLOAD \<Rightarrow> Rx_body (unat (m_payload_length p)) (unat (m_received_bytes p))),
      rx_first = m_payload_first_part p,
      rx_done = m_payload_is_received p,
      rx_seq = m_sequence_id p\<rparr>"

definition frame_inv :: "'a MySqlPacket_scheme \<Rightarrow> bool" where
  "frame_inv p =
     (case m_packet_state p of
        PAYLOAD_LENGTH_0 \<Rightarrow> True
      | PAYLOAD_LENGTH_1 \<Rightarrow>
          unat (m_payload_length p) < 256 \<and> m_received_bytes p = 0 \<and> \<not> m_payload_is_received p
      | PAYLOAD_LENGTH_2 \<Rightarrow>
          unat (m_payload_length p) < 65536 \<and> m_received_bytes p = 0 \<and> \<not> m_payload_is_received p
      | SEQUENCE_ID \<Rightarrow>
          unat (m_payload_length p) \<le> full_length \<and> m_received_bytes p = 0 \<and>
          \<not> m_payload_is_received p
      | PAYLOAD \<Rightarrow>
          unat (m_received_bytes p) < unat (m_payload_length p) \<and>
          unat (m_payload_length p) \<le> full_length \<and> \<not> m_payload_is_received p \<and>
          m_payload_not_ended p = (unat (m_payload_length p) = full_length))"

lemma frame_eq_iff:
  "frame p = frame q \<longleftrightarrow>
     m_payload_first_part p = m_payload_first_part q \<and>
     m_payload_not_ended p = m_payload_not_ended q \<and>
     m_payload_is_received p = m_payload_is_received q \<and>
     m_payload_length p = m_payload_length q \<and> m_sequence_id p = m_sequence_id q \<and>
     m_received_bytes p = m_received_bytes q \<and> m_packet_state p = m_packet_state q"
  by (auto simp: MySqlPacket.truncate_def)

lemma abs_frame_cong: "frame p = frame q \<Longrightarrow> abs_frame p = abs_frame q"
  by (auto simp: frame_eq_iff abs_frame_def split: PacketState.splits)

lemma frame_inv_cong: "frame p = frame q \<Longrightarrow> frame_inv p = frame_inv q"
  by (auto simp: frame_eq_iff frame_inv_def split: PacketState.splits)

lemma frame_inv_new: "frame_inv new_MySqlPacket"
  by (simp add: frame_inv_def new_MySqlPacket_def)

text \<open>
  The counters in every state, the idle one between packets included: the announced length
  fits into three bytes and no more bytes are counted than announced.
\<close>

definition frame_bounded :: "'a MySqlPacket_scheme \<Rightarrow> bool" where
  "frame_bounded p \<longleftrightarrow>
     frame_inv p \<and> unat (m_received_bytes p) \<le> unat (m_payload_length p) \<and>
     unat (m_payload_length p) \<le> full_length"

lemma frame_bounded_cong: "frame p = frame q \<Longrightarrow> frame_bounded p = frame_bounded q"
  using frame_inv_cong [of p q] by (auto simp: frame_bounded_def frame_eq_iff)

lemma frame_bounded_new: "frame_bounded new_MySqlPacket"
  by (simp add: frame_bounded_def frame_inv_new) (simp add: new_MySqlPacket_def)

lemma frame_bounded_busy:
  "frame_inv p \<Longrightarrow> m_packet_state p \<noteq> PAYLOAD_LENGTH_0 \<Longrightarrow> frame_bounded p"
  by (auto simp: frame_bounded_def frame_inv_def split: PacketState.splits)

text \<open>The three accumulating header steps, in natural numbers.\<close>

lemma unat_add_shift_byte:
  assumes "unat n < 2 ^ k" and "k \<le> 16"
  shows "unat ((n :: u64) + shift_byte b k) = unat n + unat b * 2 ^ k"
proof -
  have pow: "(2::nat) ^ k \<le> 2 ^ 16" using assms(2) by (rule power_increasing) simp
  then have "unat b * 2 ^ k \<le> 255 * 2 ^ 16" by (intro mult_le_mono unat_u8_le)
  with pow have "unat n + unat b * 2 ^ k < 2 ^ 64" using assms(1) by simp
  then show ?thesis by (simp add: unat_word_ariths unat_shift_byte [OF assms(2)])
qed

lemma unat_ucast_u8_u64: "unat (ucast (b :: u8) :: u64) = unat b"
proof -
  have "unat b < 2 ^ 64" by (rule less_trans [OF unat_u8_less]) simp
  then show ?thesis by (simp only: unsigned_ucast_eq) (simp add: take_bit_nat_eq_self)
qed

lemma unat_Suc_u64:
  assumes "unat (n :: u64) < full_length"
  shows "unat (n + 1) = Suc (unat n)"
  using assms by (simp add: unat_word_ariths)

section \<open>The contract of a derived class\<close>

locale packet_class =
  fixes vt :: "'a MySqlPacket_scheme packet_vtable"
  assumes frame_connection:
      "v_connection_phase_parse vt b (p, cs, out) = (p', cs', out') \<Longrightarrow> frame p' = frame p"
    and frame_command: "v_command_phase_parse vt b p = Inr p' \<Longrightarrow> frame p' = frame p"
    and frame_data: "v_collect_data vt b p = Inr p' \<Longrightarrow> frame p' = frame p"
    and frame_done: "frame (v_data_is_received vt p) = frame p"
    and output_appended:
      "v_connection_phase_parse vt b (p, cs, out) =
         (case v_connection_phase_parse vt b (p, cs, []) of (p', cs', t) \<Rightarrow> (p', cs', out @ t))"
begin

text \<open>What the collector does is independent of the text already printed.\<close>

lemma analyse_out:
  "analyse_first_byte vt b (p, cs, out) =
     bind_res (analyse_first_byte vt b (p, cs, [])) (\<lambda>(p', cs', t). Inr (p', cs', out @ t))"
  using output_appended [of b p cs out]
  by (cases cs; cases "v_command_phase_parse vt b p") (simp_all add: analyse_first_byte_def split: prod.splits)

lemma collect_out:
  "collect vt b (p, cs, out) =
     bind_res (collect vt b (p, cs, [])) (\<lambda>(p', cs', t). Inr (p', cs', out @ t))"
proof (cases "m_packet_state p = PAYLOAD")
  case False
  then show ?thesis by (cases "m_packet_state p") (simp_all add: collect_def Let_def)
next
  case True
  then have collect: "collect vt b (p, cs, u) =
      bind_res (analyse_first_byte vt b (p, cs, u)) (\<lambda>(p1, cs1, out1).
      bind_res (if 0 < m_received_bytes p1 \<or> \<not> m_payload_first_part p1
                then v_collect_data vt b p1 else Inr p1) (\<lambda>p2.
      Inr (finish_byte vt p2, cs1, out1)))" for u
    by (simp add: collect_def)
  show ?thesis
    unfolding collect analyse_out [of b p cs out] by (auto simp: bind_res_def split: sum.splits)
qed

lemma collect_all_out:
  "collect_all vt bs (p, cs, out) =
     bind_res (collect_all vt bs (p, cs, [])) (\<lambda>(p', cs', t). Inr (p', cs', out @ t))"
proof (induction bs arbitrary: p cs out)
  case Nil
  show ?case by simp
next
  case (Cons b bs)
  show ?case
  proof (cases "collect vt b (p, cs, [])")
    case (Inl e)
    then show ?thesis using collect_out [of b p cs out] by (simp add: collect_all_Cons)
  next
    case (Inr x)
    obtain p1 cs1 t where x: "x = (p1, cs1, t)" by (cases x)
    show ?thesis
      using collect_out [of b p cs out] Inr x Cons.IH [of p1 cs1 "out @ t"] Cons.IH [of p1 cs1 t]
      by (cases "collect_all vt bs (p1, cs1, [])") (auto simp: collect_all_Cons)
  qed
qed

lemma frame_analyse:
  assumes "analyse_first_byte vt b (p, cs, out) = Inr (p', cs', out')"
  shows "frame p' = frame p"
  using assms
  by (auto simp: analyse_first_byte_def bind_res_iffs split: if_splits MySqlConnectionState.splits
      dest: frame_connection frame_command)

lemma finish_byte_refines:
  assumes "frame q = frame p" and "m_packet_state p = PAYLOAD" and "frame_inv p"
  shows "frame_inv (finish_byte vt q)"
    and "abs_frame (finish_byte vt q) = rx_step b (abs_frame p)"
proof -
  let ?q = "q\<lparr>m_received_bytes := m_received_bytes q + 1\<rparr>"
  let ?d = "v_data_is_received vt (?q\<lparr>m_payload_is_received := True\<rparr>)"
  have d: "m_payload_not_ended ?d = m_payload_not_ended q" "m_payload_is_received ?d"
    "m_sequence_id ?d = m_sequence_id q"
    using frame_done [of "?q\<lparr>m_payload_is_received := True\<rparr>"] by (simp_all add: frame_eq_iff)
  have q: "m_payload_not_ended q = (unat (m_payload_length p) = full_length)"
    "\<not> m_payload_is_received q" "m_payload_length q = m_payload_length p"
    "m_sequence_id q = m_sequence_id p" "m_payload_first_part q = m_payload_first_part p"
    "m_received_bytes q = m_received_bytes p" "m_packet_state q = PAYLOAD"
    and bound: "unat (m_received_bytes p) < unat (m_payload_length p)"
    "unat (m_payload_length p) \<le> full_length"
    using assms by (auto simp: frame_eq_iff frame_inv_def)
  have suc: "unat (m_received_bytes p + 1) = Suc (unat (m_received_bytes p))"
    by (rule unat_Suc_u64) (use bound in linarith)
  have last: "m_received_bytes p + 1 = m_payload_length p \<longleftrightarrow>
      Suc (unat (m_received_bytes p)) = unat (m_payload_length p)"
    by (metis suc unsigned_word_eqI)
  have abs_p: "abs_frame p =
      \<lparr>rx_phase = Rx_body (unat (m_payload_length p)) (unat (m_received_bytes p)),
       rx_first = m_payload_first_part p, rx_done = False, rx_seq = m_sequence_id p\<rparr>"
    using assms by (auto simp: abs_frame_def frame_inv_def)
  show "frame_inv (finish_byte vt q)"
    using q d bound suc last by (auto simp: finish_byte_def Let_def frame_inv_def)
  show "abs_frame (finish_byte vt q) = rx_step b (abs_frame p)"
    unfolding abs_p
    using q d bound suc last by (auto simp: finish_byte_def Let_def abs_frame_def rx_step_def)
qed

text \<open>The bytes of a packet's header, one by one.\<close>

lemma collect_length_byte:
  assumes "collect vt b (p, cs, out) = Inr (p', cs', out')" and "frame_inv p"
    and "m_packet_state p \<in> {PAYLOAD_LENGTH_1, PAYLOAD_LENGTH_2}"
  shows "frame_inv p' \<and> abs_frame p' = rx_step b (abs_frame p)"
proof (cases "m_packet_state p = PAYLOAD_LENGTH_1")
  case True
  then have n: "unat (m_payload_length p) < 2 ^ 8" using assms(2) by (simp add: frame_inv_def)
  then have "unat (m_payload_length p) + unat b * 256 < 65536" using unat_u8_le [of b] by simp
  then show ?thesis
    using assms(1,2) True unat_add_shift_byte [OF n, of b]
    by (auto simp: collect_def abs_frame_def rx_step_def frame_inv_def)
next
  case False
  then have l2: "m_packet_state p = PAYLOAD_LENGTH_2" using assms(3) by simp
  then have n: "unat (m_payload_length p) < 2 ^ 16" using assms(2) by (simp add: frame_inv_def)
  then have "unat (m_payload_length p) + unat b * 65536 < 16777216" using unat_u8_le [of b] by simp
  then show ?thesis
    using assms(1,2) l2 unat_add_shift_byte [OF n, of b]
    by (auto simp: collect_def abs_frame_def rx_step_def frame_inv_def)
qed

lemma full_length_iff: "MAX_PAYLOAD_LENGTH = n \<longleftrightarrow> unat n = full_length"
  by (auto simp: MAX_PAYLOAD_LENGTH_def unsigned_word_eqI)

lemma collect_sequence_id:
  assumes "collect vt b (p, cs, out) = Inr (p', cs', out')" and "frame_inv p"
    and "m_packet_state p = SEQUENCE_ID"
  shows "frame_inv p' \<and> abs_frame p' = rx_step b (abs_frame p)"
  using assms full_length_iff [of "m_payload_length p"] unsigned_eq_0_iff [of "m_payload_length p"]
  by (auto simp: collect_def abs_frame_def rx_step_def frame_inv_def Let_def unat_gt_0
      split: if_splits)

text \<open>One byte: the collector keeps its invariant and does what the abstract receiver does.\<close>

lemma collect_refines:
  assumes "collect vt b (p, cs, out) = Inr (p', cs', out')" and "frame_inv p"
  shows "frame_inv p' \<and> abs_frame p' = rx_step b (abs_frame p)"
proof (cases "m_packet_state p")
  case PAYLOAD_LENGTH_0
  then show ?thesis
    using assms by (auto simp: collect_def abs_frame_def rx_step_def frame_inv_def unat_ucast_u8_u64)
next
  case PAYLOAD_LENGTH_1
  then show ?thesis using collect_length_byte [OF assms] by simp
next
  case PAYLOAD_LENGTH_2
  then show ?thesis using collect_length_byte [OF assms] by simp
next
  case SEQUENCE_ID
  then show ?thesis by (rule collect_sequence_id [OF assms])
next
  case PAYLOAD
  obtain p1 p2 where an: "analyse_first_byte vt b (p, cs, out) = Inr (p1, cs', out')"
    and data: "(if 0 < m_received_bytes p1 \<or> \<not> m_payload_first_part p1
                then v_collect_data vt b p1 else Inr p1) = Inr p2"
    and p': "p' = finish_byte vt p2"
    using assms(1) PAYLOAD by (auto simp: collect_def bind_res_iffs)
  have "frame p2 = frame p1" using data by (auto split: if_splits dest: frame_data)
  also have "\<dots> = frame p" using an by (rule frame_analyse)
  finally have "frame p2 = frame p" .
  then show ?thesis
    using PAYLOAD assms(2) by (auto simp: p' finish_byte_refines)
qed

lemma collect_all_refines:
  assumes "collect_all vt bs (p, cs, out) = Inr (p', cs', out')" and "frame_inv p"
  shows "frame_inv p' \<and> abs_frame p' = rx_run bs (abs_frame p)"
  using assms
proof (induction bs arbitrary: p cs out)
  case Nil
  then show ?case by simp
next
  case (Cons b bs)
  from Cons.prems(1) obtain p1 cs1 out1
    where one: "collect vt b (p, cs, out) = Inr (p1, cs1, out1)"
      and rest: "collect_all vt bs (p1, cs1, out1) = Inr (p', cs', out')"
    by (auto simp: collect_all_Cons bind_res_eq_Inr)
  have "frame_inv p1 \<and> abs_frame p1 = rx_step b (abs_frame p)"
    using one Cons.prems(2) by (rule collect_refines)
  then show ?case using Cons.IH [OF rest] by simp
qed

text \<open>The bounds of the counters, over any bytes.\<close>

lemma collect_idle_bounded:
  assumes "collect vt b (p, cs, out) = Inr (p', cs', out')" and "frame_bounded p"
    and "m_packet_state p' = PAYLOAD_LENGTH_0" and "frame_inv p'"
  shows "frame_bounded p'"
proof (cases "m_packet_state p")
  case PAYLOAD
  obtain p1 p2 where an: "analyse_first_byte vt b (p, cs, out) = Inr (p1, cs', out')"
    and data: "(if 0 < m_received_bytes p1 \<or> \<not> m_payload_first_part p1
                then v_collect_data vt b p1 else Inr p1) = Inr p2"
    and p': "p' = finish_byte vt p2"
    using assms(1) PAYLOAD by (auto simp: collect_def bind_res_iffs)
  have "frame p2 = frame p1" using data by (auto split: if_splits dest: frame_data)
  also have "\<dots> = frame p" using an by (rule frame_analyse)
  finally have p2: "m_received_bytes p2 = m_received_bytes p" "m_payload_length p2 = m_payload_length p"
    "m_packet_state p2 = PAYLOAD" "m_payload_not_ended p2 = m_payload_not_ended p"
    using PAYLOAD by (simp_all add: frame_eq_iff)
  let ?q = "p2\<lparr>m_received_bytes := m_received_bytes p2 + 1\<rparr>"
  have d: "m_received_bytes (v_data_is_received vt (?q\<lparr>m_payload_is_received := True\<rparr>)) =
      m_received_bytes p2 + 1"
    "m_payload_length (v_data_is_received vt (?q\<lparr>m_payload_is_received := True\<rparr>)) =
      m_payload_length p2"
    using frame_done [of "?q\<lparr>m_payload_is_received := True\<rparr>"] by (simp_all add: frame_eq_iff)
  have "m_received_bytes p' = m_payload_length p'" "m_payload_length p' = m_payload_length p"
    using assms(3) p2 d by (auto simp: p' finish_byte_def Let_def split: if_splits)
  then show ?thesis using assms(2,4) by (simp add: frame_bounded_def)
qed (use assms in \<open>auto simp: collect_def frame_bounded_def Let_def split: if_splits\<close>)

lemma collect_bounded:
  assumes "collect vt b (p, cs, out) = Inr (p', cs', out')" and "frame_bounded p"
  shows "frame_bounded p'"
proof -
  have "frame_inv p'" using collect_refines [OF assms(1)] assms(2) by (simp add: frame_bounded_def)
  then show ?thesis using collect_idle_bounded [OF assms] frame_bounded_busy by blast
qed

lemma collect_all_bounded:
  assumes "collect_all vt bs (p, cs, out) = Inr (p', cs', out')" and "frame_bounded p"
  shows "frame_bounded p'"
  using assms
proof (induction bs arbitrary: p cs out)
  case Nil
  then show ?case by simp
next
  case (Cons b bs)
  from Cons.prems(1) obtain p1 cs1 out1 where one: "collect vt b (p, cs, out) = Inr (p1, cs1, out1)"
    and rest: "collect_all vt bs (p1, cs1, out1) = Inr (p', cs', out')"
    by (auto simp: collect_all_Cons bind_res_eq_Inr)
  show ?case by (rule Cons.IH [OF rest collect_bounded [OF one Cons.prems(2)]])
qed

text \<open>A message is announced after exactly its last byte.\<close>

lemma received_iff_complete:
  assumes "m_packet_state p = PAYLOAD_LENGTH_0"
    and "0 < k" and "k \<le> length (encode_message s pl)"
    and "collect_all vt (take k (encode_message s pl)) (p, cs, out) = Inr (p', cs', out')"
  shows "is_received p' \<longleftrightarrow> k = length (encode_message s pl)"
proof -
  have "frame_inv p" using assms(1) by (simp add: frame_inv_def)
  then have "abs_frame p' = rx_run (take k (encode_message s pl)) (abs_frame p)"
    using collect_all_refines [OF assms(4)] by simp
  moreover have "rx_phase (abs_frame p) = Rx_len0" using assms(1) by (simp add: abs_frame_def)
  ultimately have "rx_done (abs_frame p') \<longleftrightarrow> k = length (encode_message s pl)"
    using rx_done_iff assms(2,3) by simp
  then show ?thesis by (simp add: abs_frame_def is_received_def)
qed

lemma message_ends_idle:
  assumes "m_packet_state p = PAYLOAD_LENGTH_0"
    and "collect_all vt (encode_message s pl) (p, cs, out) = Inr (p', cs', out')"
  shows "m_packet_state p' = PAYLOAD_LENGTH_0 \<and> m_payload_first_part p' \<and> is_received p'"
proof -
  have "frame_inv p" and idle: "rx_phase (abs_frame p) = Rx_len0"
    using assms(1) by (simp_all add: frame_inv_def abs_frame_def)
  then have "abs_frame p' = rx_run (encode_message s pl) (abs_frame p)"
    using collect_all_refines [OF assms(2)] by simp
  then have "rx_phase (abs_frame p') = Rx_len0" "rx_first (abs_frame p')" "rx_done (abs_frame p')"
    using idle by (simp_all add: rx_message)
  then show ?thesis
    by (auto simp: abs_frame_def is_received_def split: PacketState.splits)
qed

end

section \<open>The body of a packet\<close>

text \<open>
  The state at the end of a packet's payload: what the last call of \<open>finish_byte\<close> makes of
  the packet once the whole payload has been handed to \<open>collect_data\<close>.
\<close>

definition end_part ::
  "'a MySqlPacket_scheme packet_vtable \<Rightarrow> 'a MySqlPacket_scheme \<Rightarrow> 'a MySqlPacket_scheme" where
  "end_part vt q =
     (let q1 = q\<lparr>m_received_bytes := m_payload_length q\<rparr>;
          q2 = (if m_payload_not_ended q1 then q1
                else v_data_is_received vt (q1\<lparr>m_payload_is_received := True\<rparr>))
      in q2\<lparr>m_payload_first_part := \<not> m_payload_not_ended q2,
            m_packet_state := PAYLOAD_LENGTH_0\<rparr>)"

lemma end_part_received_bytes [simp]:
  "end_part vt (q\<lparr>m_received_bytes := n\<rparr>) = end_part vt q"
  by (simp add: end_part_def Let_def)

text \<open>
  A class whose \<open>collect_data\<close> does not look at the byte counter: then a whole payload has a
  closed form, the first-byte analysis followed by one \<open>collect_data\<close> per stored byte.
\<close>

locale packet_body = packet_class vt
  for vt :: "'a MySqlPacket_scheme packet_vtable" +
  assumes data_received_bytes:
    "v_collect_data vt b (p\<lparr>m_received_bytes := n\<rparr>) =
       bind_res (v_collect_data vt b p) (\<lambda>q. Inr (q\<lparr>m_received_bytes := n\<rparr>))"
begin

lemma fold_data_received_bytes:
  "fold_res (v_collect_data vt) bs (p\<lparr>m_received_bytes := n\<rparr>) =
     bind_res (fold_res (v_collect_data vt) bs p) (\<lambda>q. Inr (q\<lparr>m_received_bytes := n\<rparr>))"
proof (induction bs arbitrary: p)
  case Nil
  show ?case by simp
next
  case (Cons b bs)
  then show ?case by (cases "v_collect_data vt b p") (simp_all add: data_received_bytes)
qed

lemma finish_byte_last:
  assumes "m_received_bytes q + 1 = m_payload_length q"
  shows "finish_byte vt q = end_part vt q"
  using assms by (simp add: finish_byte_def end_part_def Let_def)

lemma finish_byte_inner:
  assumes "m_received_bytes q + 1 \<noteq> m_payload_length q"
  shows "finish_byte vt q = q\<lparr>m_received_bytes := m_received_bytes q + 1\<rparr>"
  using assms by (simp add: finish_byte_def Let_def)

lemma collect_inner_byte:
  assumes "m_packet_state p = PAYLOAD" and "0 < m_received_bytes p"
    and "v_collect_data vt b p = Inr p1"
  shows "collect vt b (p, cs, out) = Inr (finish_byte vt p1, cs, out)"
proof -
  have "m_received_bytes p \<noteq> 0" using assms(2) by auto
  then show ?thesis using assms by (simp add: collect_def analyse_first_byte_def)
qed

lemma collect_tail:
  assumes "m_packet_state p = PAYLOAD" and "0 < m_received_bytes p" and "bs \<noteq> []"
    and "unat (m_received_bytes p) + length bs = unat (m_payload_length p)"
    and "unat (m_payload_length p) \<le> full_length"
    and "fold_res (v_collect_data vt) bs p = Inr q"
  shows "collect_all vt bs (p, cs, out) = Inr (end_part vt q, cs, out)"
  using assms
proof (induction bs arbitrary: p q)
  case Nil
  then show ?case by simp
next
  case (Cons b bs)
  from Cons.prems(6) obtain p1 where p1: "v_collect_data vt b p = Inr p1"
    and q: "fold_res (v_collect_data vt) bs p1 = Inr q"
    by (auto simp: bind_res_eq_Inr)
  have fields: "m_received_bytes p1 = m_received_bytes p" "m_payload_length p1 = m_payload_length p"
    "m_packet_state p1 = PAYLOAD"
    using frame_data [OF p1] Cons.prems(1) by (simp_all add: frame_eq_iff)
  have suc: "unat (m_received_bytes p + 1) = Suc (unat (m_received_bytes p))"
    by (rule unat_Suc_u64) (use Cons.prems(4,5) in simp)
  note step = collect_inner_byte [OF Cons.prems(1,2) p1]
  show ?case
  proof (cases "bs = []")
    case True
    then have "m_received_bytes p1 + 1 = m_payload_length p1"
      using fields suc Cons.prems(4) by (simp add: unsigned_word_eqI)
    then show ?thesis using True q step by (simp add: collect_all_Cons finish_byte_last)
  next
    case False
    let ?p2 = "p1\<lparr>m_received_bytes := m_received_bytes p1 + 1\<rparr>"
    have ne: "m_received_bytes p1 + 1 \<noteq> m_payload_length p1"
    proof
      assume "m_received_bytes p1 + 1 = m_payload_length p1"
      then have "Suc (unat (m_received_bytes p)) = unat (m_payload_length p)"
        using fields suc by simp
      then have "length bs = 0" using Cons.prems(4) by (simp only: list.size)
      then show False using False by simp
    qed
    have "collect_all vt bs (?p2, cs, out) = Inr (end_part vt (q\<lparr>m_received_bytes := m_received_bytes p1 + 1\<rparr>), cs, out)"
    proof (rule Cons.IH)
      show "0 < m_received_bytes ?p2" using fields suc by (simp add: word_less_nat_alt)
      show "fold_res (v_collect_data vt) bs ?p2 = Inr (q\<lparr>m_received_bytes := m_received_bytes p1 + 1\<rparr>)"
        by (simp add: fold_data_received_bytes q)
    qed (use fields suc Cons.prems False in simp_all)
    then show ?thesis
      using step ne by (simp add: collect_all_Cons finish_byte_inner)
  qed
qed

lemma collect_body:
  assumes "m_packet_state p = PAYLOAD" and "m_received_bytes p = 0"
    and "Suc (length bs) = unat (m_payload_length p)"
    and "unat (m_payload_length p) \<le> full_length"
    and "analyse_first_byte vt b (p, cs, out) = Inr (p1, cs1, out1)"
    and "fold_res (v_collect_data vt) (if m_payload_first_part p then bs else b # bs) p1 = Inr q"
  shows "collect_all vt (b # bs) (p, cs, out) = Inr (end_part vt q, cs1, out1)"
proof -
  have f1: "frame p1 = frame p" using assms(5) by (rule frame_analyse)
  obtain p2 where p2: "(if m_payload_first_part p then Inr p1 else v_collect_data vt b p1) = Inr p2"
    and q: "fold_res (v_collect_data vt) bs p2 = Inr q"
    using assms(6) by (auto simp: bind_res_eq_Inr split: if_splits)
  have "frame p2 = frame p" using p2 f1 frame_data by (auto split: if_splits)
  then have fields: "m_received_bytes p2 = 0" "m_payload_length p2 = m_payload_length p"
    "m_packet_state p2 = PAYLOAD"
    using assms(1,2) by (simp_all add: frame_eq_iff)
  have first: "collect vt b (p, cs, out) = Inr (finish_byte vt p2, cs1, out1)"
    using assms(1,2,5) p2 f1 by (simp add: collect_def frame_eq_iff split: if_splits)
  show ?thesis
  proof (cases "bs = []")
    case True
    then have "unat (1 :: u64) = unat (m_payload_length p)" using assms(3) by simp
    then have "1 = m_payload_length p" by (rule unsigned_word_eqI)
    then have "m_received_bytes p2 + 1 = m_payload_length p2" using fields by simp
    then show ?thesis using True first q by (simp add: collect_all_Cons finish_byte_last)
  next
    case False
    let ?p3 = "p2\<lparr>m_received_bytes := m_received_bytes p2 + 1\<rparr>"
    have "m_payload_length p \<noteq> 1" using False assms(3) by auto
    then have "finish_byte vt p2 = ?p3"
      using fields by (intro finish_byte_inner) simp
    moreover have "collect_all vt bs (?p3, cs1, out1) =
        Inr (end_part vt (q\<lparr>m_received_bytes := m_received_bytes p2 + 1\<rparr>), cs1, out1)"
      by (rule collect_tail) (use fields assms False q in \<open>simp_all add: fold_data_received_bytes\<close>)
    ultimately show ?thesis using first by (simp add: collect_all_Cons)
  qed
qed

text \<open>
  A whole packet from the idle state: the header, then the body. An empty payload calls
  none of the virtual functions.
\<close>

lemma collect_packet:
  assumes "m_packet_state p = PAYLOAD_LENGTH_0" and "length (b # bs) \<le> full_length"
    and "analyse_first_byte vt b (after_header (length (b # bs)) s p, cs, out) = Inr (p1, cs1, out1)"
    and "fold_res (v_collect_data vt) (if m_payload_first_part p then bs else b # bs) p1 = Inr q"
  shows "collect_all vt (encode_packet s (b # bs)) (p, cs, out) = Inr (end_part vt q, cs1, out1)"
proof -
  let ?h = "after_header (length (b # bs)) s p"
  have "collect_all vt (le24 (length (b # bs)) @ [s]) (p, cs, out) = Inr (?h, cs, out)"
    using assms(1,2) by (intro collect_header) simp_all
  moreover have "collect_all vt (b # bs) (?h, cs, out) = Inr (end_part vt q, cs1, out1)"
    by (rule collect_body [OF _ _ _ _ assms(3)])
      (use assms(2,4) unat_word_of_nat_u64 [of "length (b # bs)"] in
        \<open>simp_all add: after_header_def del: of_nat_Suc\<close>)
  ultimately show ?thesis
    unfolding encode_packet_def append_assoc [symmetric] collect_all_append by simp
qed

lemma collect_empty_packet:
  assumes "m_packet_state p = PAYLOAD_LENGTH_0"
  shows "collect_all vt (encode_packet s []) (p, cs, out) = Inr (after_header 0 s p, cs, out)"
  using collect_header [OF assms, of 0 vt s cs out] by (simp add: encode_packet_def)

end

end
