(* ===== verification/Cxx_String.thy ===== *)
theory Cxx_String
  imports Prelude
begin

text \<open>
  The part of \<open>std::string\<close> the program uses: the characters and the capacity, with
  \<open>clear\<close>, \<open>shrink_to_fit\<close>, \<open>reserve\<close> and \<open>push_back\<close>. The program computes reservations from
  \<open>capacity()\<close>, and the standard leaves the capacities to the implementation, so the
  strings are those of libstdc++, the standard library of the platform the README names
  (Ubuntu 18.04, hence GCC 7): a local buffer of 15 characters, an allocation of at least
  twice the old capacity when a string grows, and \<open>std::length_error\<close> for a request above
  \<open>max_size()\<close>. Sizes are 64-bit. Exhaustion of the machine's memory (\<open>std::bad_alloc\<close>) is
  outside the model.
\<close>

record std_string =
  str_chars :: string
  str_capacity :: nat

definition str_max_size :: nat where
  "str_max_size = 9223372036854775807"

definition str_local_capacity :: nat where
  "str_local_capacity = 15"

definition str_empty :: std_string where
  "str_empty = \<lparr>str_chars = [], str_capacity = str_local_capacity\<rparr>"

text \<open>\<open>_M_create\<close>: the capacity that is allocated for a request, given the old capacity.\<close>

definition str_create :: "nat \<Rightarrow> nat \<Rightarrow> nat result" where
  "str_create n old =
     (if str_max_size < n then Inl Length_error
      else Inr (if old < n \<and> n < 2 * old then min (2 * old) str_max_size else n))"

definition str_clear :: "std_string \<Rightarrow> std_string" where
  "str_clear s = s\<lparr>str_chars := []\<rparr>"

text \<open>
  The argument of \<open>reserve\<close> is a 64-bit unsigned value, wrapped if its computation wrapped. A
  request below the capacity shrinks the string, back into the local buffer if it fits.
\<close>

definition str_reserve :: "u64 \<Rightarrow> std_string \<Rightarrow> std_string result" where
  "str_reserve res s =
     (let n = max (unat res) (length (str_chars s)); cap = str_capacity s in
      if n = cap then Inr s
      else if cap < n \<or> str_local_capacity < n
      then bind_res (str_create n cap) (\<lambda>new_cap. Inr (s\<lparr>str_capacity := new_cap\<rparr>))
      else Inr (s\<lparr>str_capacity := str_local_capacity\<rparr>))"

text \<open>\<open>shrink_to_fit\<close> is \<open>reserve(0)\<close> with its exceptions ignored.\<close>

definition str_shrink_to_fit :: "std_string \<Rightarrow> std_string" where
  "str_shrink_to_fit s =
     (if length (str_chars s) < str_capacity s
      then case str_reserve 0 s of Inl e \<Rightarrow> s | Inr t \<Rightarrow> t
      else s)"

definition str_push_back :: "char \<Rightarrow> std_string \<Rightarrow> std_string result" where
  "str_push_back c s =
     (let n = length (str_chars s) + 1; cap = str_capacity s in
      bind_res (if cap < n then str_create n cap else Inr cap)
        (\<lambda>new_cap. Inr (s\<lparr>str_chars := str_chars s @ [c], str_capacity := new_cap\<rparr>)))"

text \<open>\<open>static_cast<char>\<close> of a received byte keeps its eight bits.\<close>

definition char_of_byte :: "u8 \<Rightarrow> char" where
  "char_of_byte b = char_of (unat b)"

definition byte_of_char :: "char \<Rightarrow> u8" where
  "byte_of_char c = word_of_nat (of_char c)"

lemma byte_of_char_of_byte [simp]: "byte_of_char (char_of_byte b) = b"
proof -
  have "unat b mod 256 = unat b" by simp
  then show ?thesis by (simp add: byte_of_char_def char_of_byte_def)
qed

lemma byte_of_char_comp [simp]: "byte_of_char \<circ> char_of_byte = id"
  by (simp add: fun_eq_iff)

lemmas str_defs = str_clear_def str_shrink_to_fit_def str_reserve_def str_push_back_def str_create_def

section \<open>How strings grow\<close>

text \<open>A string never holds more than its capacity, and never more than \<open>max_size()\<close>.\<close>

definition str_ok :: "std_string \<Rightarrow> bool" where
  "str_ok s \<longleftrightarrow> length (str_chars s) \<le> str_capacity s \<and> str_capacity s \<le> str_max_size"

lemma str_ok_empty [simp]: "str_ok str_empty"
  by (simp add: str_ok_def str_empty_def str_max_size_def str_local_capacity_def)

lemma str_create_Inr:
  assumes "str_create n old = Inr m"
  shows "n \<le> m \<and> m \<le> str_max_size \<and> m \<le> max n (2 * old)"
  using assms by (auto simp: str_create_def split: if_splits)

lemma str_chars_cleared [simp]: "str_chars (str_shrink_to_fit (str_clear s)) = []"
  by (auto simp: str_defs Let_def bind_res_iffs split: sum.split)

lemma str_capacity_cleared: "str_capacity (str_shrink_to_fit (str_clear s)) \<le> str_local_capacity"
  by (auto simp: str_defs Let_def)

lemma str_ok_cleared [simp]: "str_ok (str_shrink_to_fit (str_clear s))"
  using str_capacity_cleared [of s] by (simp add: str_ok_def str_max_size_def str_local_capacity_def)

lemma str_reserve_Inr:
  assumes "str_reserve n s = Inr t" and "str_ok s"
  shows "str_chars t = str_chars s" and "str_ok t"
    and "str_capacity t \<le> max str_local_capacity (max (2 * str_capacity s) (unat n))"
  using assms by (auto simp: str_reserve_def str_ok_def str_local_capacity_def Let_def bind_res_iffs
      str_max_size_def dest!: str_create_Inr [unfolded str_max_size_def] split: if_splits)

lemma str_reserve_Inl:
  assumes "str_reserve n s = Inl e" and "str_ok s"
  shows "e = Length_error \<and> str_max_size < unat n"
  using assms by (auto simp: str_reserve_def str_create_def str_ok_def Let_def bind_res_iffs
      split: if_splits)

lemma str_push_back_Inr:
  assumes "str_push_back c s = Inr t" and "str_ok s"
  shows "str_chars t = str_chars s @ [c]" and "str_ok t"
    and "str_capacity t \<le> max (str_capacity s) (2 * length (str_chars t))"
  using assms by (auto simp: str_push_back_def str_ok_def Let_def bind_res_iffs
      dest!: str_create_Inr split: if_splits)

lemma str_push_back_Inl:
  assumes "str_push_back c s = Inl e" and "str_ok s"
  shows "e = Length_error \<and> length (str_chars s) = str_max_size"
  using assms by (auto simp: str_push_back_def str_create_def str_ok_def Let_def bind_res_iffs
      split: if_splits)

text \<open>Appending a whole list of bytes, as the collection loop does one byte at a time.\<close>

definition str_append :: "u8 list \<Rightarrow> std_string \<Rightarrow> std_string result" where
  "str_append bs s = fold_res (\<lambda>b. str_push_back (char_of_byte b)) bs s"

lemma str_append_Nil [simp]: "str_append [] s = Inr s"
  by (simp add: str_append_def)

lemma str_append_Cons [simp]:
  "str_append (b # bs) s = bind_res (str_push_back (char_of_byte b) s) (str_append bs)"
  by (simp add: str_append_def [abs_def])

lemma str_append_total:
  assumes "length (str_chars s) + length bs \<le> str_max_size" and "str_ok s"
  shows "\<exists>t. str_append bs s = Inr t \<and> str_chars t = str_chars s @ map char_of_byte bs \<and> str_ok t"
  using assms
proof (induction bs arbitrary: s)
  case Nil
  then show ?case by simp
next
  case (Cons b bs)
  then obtain u where u: "str_push_back (char_of_byte b) s = Inr u"
    using str_push_back_Inl [of "char_of_byte b" s] by (cases "str_push_back (char_of_byte b) s") auto
  note str_push_back_Inr [OF u Cons.prems(2)]
  moreover from this Cons.prems have "length (str_chars u) + length bs \<le> str_max_size"
    by simp
  ultimately show ?case
    using Cons.IH [of u] u by fastforce
qed

lemma str_append_snoc:
  "str_append (bs @ [b]) s = bind_res (str_append bs s) (str_push_back (char_of_byte b))"
  by (cases "str_append bs s") (simp_all add: str_append_def fold_res_append bind_res_def split: sum.split)

text \<open>As long as there is room the capacity stays; one character more doubles it.\<close>

lemma str_append_room:
  assumes "length (str_chars s) + length bs \<le> str_capacity s" and "str_append bs s = Inr t"
  shows "str_capacity t = str_capacity s"
  using assms
proof (induction bs arbitrary: s)
  case Nil
  then show ?case by simp
next
  case (Cons b bs)
  then obtain u where u: "str_push_back (char_of_byte b) s = Inr u" "str_append bs u = Inr t"
    by (auto simp: bind_res_iffs)
  then have "str_capacity u = str_capacity s" "str_chars u = str_chars s @ [char_of_byte b]"
    using Cons.prems(1) by (auto simp: str_push_back_def Let_def bind_res_iffs)
  then show ?case using Cons.IH [of u] u(2) Cons.prems(1) by simp
qed

lemma str_append_doubles:
  assumes "length (str_chars s) + length bs = str_capacity s + 1" and "str_ok s"
    and "str_append bs s = Inr t" and "bs \<noteq> []" and "1 < str_capacity s"
  shows "str_capacity t = min (2 * str_capacity s) str_max_size"
proof -
  obtain cs b where bs: "bs = cs @ [b]" using assms(4) by (metis rev_exhaust)
  obtain u where u: "str_append cs s = Inr u" "str_push_back (char_of_byte b) u = Inr t"
    using assms(3) by (auto simp: bs str_append_snoc bind_res_iffs)
  have cap: "str_capacity u = str_capacity s"
    using str_append_room [OF _ u(1)] assms(1) by (simp add: bs)
  have "length (str_chars s) + length cs \<le> str_max_size"
    using assms(1,2) by (simp add: bs str_ok_def)
  then have len: "length (str_chars u) = str_capacity s"
    using str_append_total [of s cs] u(1) assms(1,2) by (auto simp: bs)
  show ?thesis
    using u(2) cap len assms(5) by (auto simp: str_push_back_def str_create_def Let_def bind_res_iffs split: if_splits)
qed

end
