(* ===== verification/Client_Packet.thy ===== *)
theory Client_Packet
  imports Framing Cxx_String
begin

text \<open>
  \<open>FromClientPacket\<close> of packet.hpp and packet.cpp: the packets from the client, from which the
  command and, for three commands, the SQL text are taken. Shown: the class keeps the
  contract of the collector; a message of any length (one packet or many) yields exactly
  the command byte and the SQL bytes that were sent; the flag \<open>m_sql_data_receiving\<close> that an
  empty last packet leaves behind; the reservations, which double with every packet of a
  statement, and the length at which they fail; and, for every byte stream, which exceptions
  there are.
\<close>

section \<open>State and operations\<close>

record FromClientPacket = MySqlPacket +
  m_command :: Command
  m_sql_data_receiving :: bool
  m_sql_string :: std_string

definition new_FromClientPacket :: FromClientPacket where
  "new_FromClientPacket =
     MySqlPacket.extend new_MySqlPacket
       (FromClientPacket.fields UNKNOWN False str_empty)"

definition get_command_string :: "FromClientPacket \<Rightarrow> string" where
  "get_command_string p = command_name (m_command p) (m_payload_length p)"

definition get_sql_string :: "FromClientPacket \<Rightarrow> string" where
  "get_sql_string p = str_chars (m_sql_string p)"

definition has_sql_string :: "FromClientPacket \<Rightarrow> bool" where
  "has_sql_string p = (str_chars (m_sql_string p) \<noteq> [])"

definition client_connection_phase_parse ::
  "u8 \<Rightarrow> FromClientPacket \<times> MySqlConnectionState \<times> string \<Rightarrow>
     FromClientPacket \<times> MySqlConnectionState \<times> string" where
  "client_connection_phase_parse t_payload_0 ctx = ctx"

definition bad_packet :: cxx_fault where
  "bad_packet = Runtime_error ''BAD packet''"

definition client_begin_command :: "u8 \<Rightarrow> FromClientPacket \<Rightarrow> FromClientPacket result" where
  "client_begin_command t_payload_0 p =
     (let p1 = p\<lparr>m_command := command_of_byte t_payload_0\<rparr> in
      if is_valid (m_command p1) \<and> 0 \<noteq> m_sequence_id p1 then Inl bad_packet
      else Inr (p1\<lparr>m_sql_string := str_shrink_to_fit (str_clear (m_sql_string p1))\<rparr>))"

definition client_command_phase_parse :: "u8 \<Rightarrow> FromClientPacket \<Rightarrow> FromClientPacket result" where
  "client_command_phase_parse t_payload_0 p0 =
     bind_res (if m_payload_first_part p0 then client_begin_command t_payload_0 p0 else Inr p0)
       (\<lambda>p. if has_sql_field (m_command p) then
              if m_payload_first_part p then
                bind_res (str_reserve (m_payload_length p - 1) (m_sql_string p))
                  (\<lambda>s. Inr (p\<lparr>m_sql_string := s, m_sql_data_receiving := True\<rparr>))
              else
                bind_res (str_reserve (word_of_nat (str_capacity (m_sql_string p)) +
                                         m_payload_length p - 1) (m_sql_string p))
                  (\<lambda>s. Inr (p\<lparr>m_sql_string := s\<rparr>))
            else Inr p)"

definition client_collect_data :: "u8 \<Rightarrow> FromClientPacket \<Rightarrow> FromClientPacket result" where
  "client_collect_data t_received_byte p =
     (if m_sql_data_receiving p then
        bind_res (str_push_back (char_of_byte t_received_byte) (m_sql_string p))
          (\<lambda>s. Inr (p\<lparr>m_sql_string := s\<rparr>))
      else Inr p)"

definition client_data_is_received :: "FromClientPacket \<Rightarrow> FromClientPacket" where
  "client_data_is_received p = p\<lparr>m_sql_data_receiving := False\<rparr>"

definition client_vtable :: "FromClientPacket packet_vtable" where
  "client_vtable =
     \<lparr>v_connection_phase_parse = client_connection_phase_parse,
      v_command_phase_parse = client_command_phase_parse,
      v_collect_data = client_collect_data,
      v_data_is_received = client_data_is_received\<rparr>"

lemma client_vtable_simps [simp]:
  "v_connection_phase_parse client_vtable = client_connection_phase_parse"
  "v_command_phase_parse client_vtable = client_command_phase_parse"
  "v_collect_data client_vtable = client_collect_data"
  "v_data_is_received client_vtable = client_data_is_received"
  by (simp_all add: client_vtable_def)

lemmas client_defs = client_connection_phase_parse_def client_begin_command_def
  client_command_phase_parse_def client_collect_data_def client_data_is_received_def

lemma new_FromClientPacket_fields [simp]:
  "m_payload_first_part new_FromClientPacket" "\<not> m_payload_not_ended new_FromClientPacket"
  "\<not> m_payload_is_received new_FromClientPacket" "m_payload_length new_FromClientPacket = 0"
  "m_sequence_id new_FromClientPacket = 0" "m_received_bytes new_FromClientPacket = 0"
  "m_packet_state new_FromClientPacket = PAYLOAD_LENGTH_0"
  "m_command new_FromClientPacket = UNKNOWN" "\<not> m_sql_data_receiving new_FromClientPacket"
  "m_sql_string new_FromClientPacket = str_empty"
  by (simp_all add: new_FromClientPacket_def new_MySqlPacket_def MySqlPacket.defs
      FromClientPacket.defs)

section \<open>The contract of the collector\<close>

interpretation client: packet_body client_vtable
proof unfold_locales
  fix b p cs out p' cs' out'
  assume "v_connection_phase_parse client_vtable b (p, cs, out) = (p', cs', out')"
  then show "frame p' = frame p" by (simp add: client_defs)
next
  fix b p p'
  assume "v_command_phase_parse client_vtable b p = Inr p'"
  then show "frame p' = frame p"
    by (auto simp: client_defs frame_eq_iff bind_res_iffs Let_def split: if_splits)
next
  fix b p p'
  assume "v_collect_data client_vtable b p = Inr p'"
  then show "frame p' = frame p"
    by (auto simp: client_defs frame_eq_iff bind_res_iffs split: if_splits)
next
  fix p
  show "frame (v_data_is_received client_vtable p) = frame p"
    by (simp add: client_defs frame_eq_iff)
next
  fix b p cs out
  show "v_connection_phase_parse client_vtable b (p, cs, out) =
      (case v_connection_phase_parse client_vtable b (p, cs, []) of
         (p', cs', t) \<Rightarrow> (p', cs', out @ t))"
    by (simp add: client_defs)
next
  fix b p n
  show "v_collect_data client_vtable b (p\<lparr>m_received_bytes := n\<rparr>) =
      bind_res (v_collect_data client_vtable b p) (\<lambda>q. Inr (q\<lparr>m_received_bytes := n\<rparr>))"
    by (cases "str_push_back (char_of_byte b) (m_sql_string p)") (simp_all add: client_defs)
qed

section \<open>One packet of a message\<close>

text \<open>
  \<open>collect_data\<close> over a list of bytes: one append to the string while the SQL text is being
  received, nothing otherwise.
\<close>

lemma client_collect_data_all:
  assumes "m_sql_data_receiving p \<Longrightarrow> str_append bs (m_sql_string p) = Inr t"
  shows "fold_res (v_collect_data client_vtable) bs p =
           Inr (if m_sql_data_receiving p then p\<lparr>m_sql_string := t\<rparr> else p)"
  using assms
proof (induction bs arbitrary: p)
  case Nil
  then show ?case by auto
next
  case (Cons b bs)
  show ?case
  proof (cases "m_sql_data_receiving p")
    case True
    with Cons.prems obtain u where u: "str_push_back (char_of_byte b) (m_sql_string p) = Inr u"
      and t: "str_append bs u = Inr t"
      by (auto simp: bind_res_eq_Inr)
    then show ?thesis using True Cons.IH [of "p\<lparr>m_sql_string := u\<rparr>"] by (simp add: client_collect_data_def)
  next
    case False
    then show ?thesis using Cons.IH [of p] by (simp add: client_collect_data_def)
  qed
qed

text \<open>
  The longest message of a command that is collected. Its text is limited only by the size of
  a string, unless the command has an SQL field: for the reservation of every further packet
  is computed from the capacity, which has doubled by the reservation before, and that of the
  41st packet is too much.
\<close>

definition statement_bound :: nat where
  "statement_bound = 671088601"

definition message_bound :: "Command \<Rightarrow> nat" where
  "message_bound c = (if has_sql_field c then statement_bound else str_max_size)"

text \<open>
  The capacity after \<open>k + 1\<close> full packets of a statement. The second packet makes it four
  times as large: the reservation doubles it and is one character short.
\<close>

definition reserved :: "nat \<Rightarrow> nat" where
  "reserved k = min (2 ^ (if k = 0 then 0 else k + 1) * 16777214) str_max_size"

lemma reserved_0: "reserved 0 = 16777214"
  by (simp add: reserved_def str_max_size_def)

lemma reserved_1: "reserved (Suc 0) = 4 * reserved 0"
  by (simp add: reserved_def str_max_size_def)

lemma reserved_Suc: "0 < k \<Longrightarrow> reserved (Suc k) = min (2 * reserved k) str_max_size"
  by (simp add: reserved_def min_def str_max_size_def)

lemma reserved_bounds: "16777214 \<le> reserved k" "reserved k \<le> str_max_size"
  by (simp_all add: reserved_def str_max_size_def)

lemma reserved_upto:
  assumes "k \<le> 38"
  shows "reserved k \<le> 9223370937343148032"
proof -
  have "(2::nat) ^ (k + 1) \<le> 2 ^ 39" using assms by (intro power_increasing) simp_all
  then have "(2::nat) ^ (if k = 0 then 0 else k + 1) * 16777214 \<le> 2 ^ 39 * 16777214"
    by (intro mult_le_mono1) (cases "k = 0"; simp)
  then show ?thesis unfolding reserved_def by simp
qed

lemma reserved_full:
  assumes "39 \<le> k"
  shows "reserved k = str_max_size"
proof -
  have "(2::nat) ^ 40 \<le> 2 ^ (k + 1)" using assms by (intro power_increasing) simp_all
  then have "2 ^ 40 * 16777214 \<le> (2::nat) ^ (k + 1) * 16777214" by (rule mult_le_mono1)
  then show ?thesis using assms by (simp add: reserved_def str_max_size_def)
qed

text \<open>There is room for a third and any further packet.\<close>

lemma reserved_room:
  assumes "0 < k" and "k \<le> 39"
  shows "(k + 1) * full_length - 1 \<le> reserved k"
proof -
  have "k + 2 \<le> 2 ^ (k + 1)"
  proof -
    have "k + 1 \<le> 2 ^ k" by (induction k) auto
    then show ?thesis by simp
  qed
  then have "(k + 2) * 16777214 \<le> 2 ^ (k + 1) * 16777214" by (rule mult_le_mono1)
  moreover have "(k + 1) * full_length - 1 \<le> (k + 2) * 16777214" using assms by simp
  moreover have "(k + 1) * full_length - 1 \<le> str_max_size" using assms(2) by (simp add: str_max_size_def)
  ultimately show ?thesis using assms(1) by (simp add: reserved_def)
qed

text \<open>The reservation for a continuation: no wrap, and exactly when it fails.\<close>

lemma continuation_request:
  assumes "cap \<le> str_max_size" and "0 < l" and "l \<le> full_length"
  shows "unat (word_of_nat cap + word_of_nat l - 1 :: u64) = cap + l - 1"
proof -
  have bnd: "cap \<le> 9223372036854775807" using assms(1) by (simp add: str_max_size_def)
  have "unat (word_of_nat cap :: u64) = cap" "unat (word_of_nat l :: u64) = l"
    using bnd assms(3) by (simp_all add: unat_of_nat)
  then have sum: "unat (word_of_nat cap + word_of_nat l :: u64) = cap + l"
    using bnd assms(3) by (simp add: unat_word_ariths)
  moreover have "(word_of_nat cap + word_of_nat l :: u64) \<noteq> 0"
    using sum assms(2) by (metis add_is_0 less_irrefl unat_0)
  ultimately show ?thesis by (simp add: unat_minus_one)
qed

lemma reserve_next:
  assumes "str_ok s" and "full_length - 1 \<le> str_capacity s" and "0 < l" and "l \<le> full_length"
  shows "str_reserve (word_of_nat (str_capacity s) + word_of_nat l - 1) s =
     (if str_max_size < str_capacity s + l - 1 then Inl Length_error
      else if l = 1 then Inr s
      else Inr (s\<lparr>str_capacity := min (2 * str_capacity s) str_max_size\<rparr>))"
proof -
  have size: "unat (word_of_nat (str_capacity s) + word_of_nat l - 1 :: u64) = str_capacity s + l - 1"
    using assms by (intro continuation_request) (simp_all add: str_ok_def)
  have "max (str_capacity s + l - 1) (length (str_chars s)) = str_capacity s + l - 1"
    using assms(1,3) by (auto simp: str_ok_def max_def)
  then show ?thesis
    using assms unfolding str_reserve_def size Let_def
    by (auto simp: str_create_def str_ok_def bind_res_def)
qed

text \<open>
  The client packet between two packets of the stream: whether the message goes on, the
  command, the length of the last packet, the text so far and whether text is expected.
\<close>

definition packet_end :: "bool \<Rightarrow> Command \<Rightarrow> nat \<Rightarrow> string \<Rightarrow> bool \<Rightarrow> FromClientPacket \<Rightarrow> bool" where
  "packet_end goes_on c l sql receiving p \<longleftrightarrow>
     m_packet_state p = PAYLOAD_LENGTH_0 \<and> m_payload_first_part p = (\<not> goes_on) \<and>
     m_payload_is_received p = (\<not> goes_on) \<and> m_command p = c \<and> m_payload_length p = word_of_nat l \<and>
     get_sql_string p = sql \<and> m_sql_data_receiving p = receiving"

text \<open>What the string is like after \<open>k + 1\<close> full packets of a message.\<close>

definition sql_room :: "nat \<Rightarrow> FromClientPacket \<Rightarrow> bool" where
  "sql_room k p \<longleftrightarrow>
     str_ok (m_sql_string p) \<and> length (get_sql_string p) < (k + 1) * full_length \<and>
     (has_sql_field (m_command p) \<longrightarrow>
        m_sql_data_receiving p \<and> length (get_sql_string p) + 1 = (k + 1) * full_length \<and>
        str_capacity (m_sql_string p) = reserved k)"

text \<open>
  One packet, once the analysis of its first byte is known: it stores its bytes (all but
  the first of a first packet) behind what the string holds.
\<close>

lemma client_store_packet:
  assumes "m_packet_state p = PAYLOAD_LENGTH_0" and "length (b # bs) \<le> full_length"
    and "analyse_first_byte client_vtable b (after_header (length (b # bs)) s p, COMMAND_PHASE, out) =
           Inr ((after_header (length (b # bs)) s p)
                  \<lparr>m_command := c, m_sql_string := st, m_sql_data_receiving := r\<rparr>, COMMAND_PHASE, out)"
    and "length (str_chars st) + length (b # bs) \<le> str_max_size" and "str_ok st"
  defines "full \<equiv> length (b # bs) = full_length"
  defines "stored \<equiv> if m_payload_first_part p then bs else b # bs"
  shows "\<exists>p' t. collect_all client_vtable (encode_packet s (b # bs)) (p, COMMAND_PHASE, out) =
                Inr (p', COMMAND_PHASE, out) \<and>
           packet_end full c (length (b # bs))
             (str_chars st @ (if r then map char_of_byte stored else [])) (r \<and> full) p' \<and>
           m_sql_string p' = (if r then t else st) \<and> str_append stored st = Inr t \<and> str_ok t"
proof -
  let ?h = "after_header (length (b # bs)) s p"
  define p1 where "p1 = ?h\<lparr>m_command := c, m_sql_string := st, m_sql_data_receiving := r\<rparr>"
  have h: "m_payload_not_ended ?h = full" "\<not> m_payload_is_received ?h"
    "m_payload_length ?h = word_of_nat (length (b # bs))"
    by (simp_all add: after_header_def full_def del: of_nat_Suc)
  have "length (str_chars st) + length stored \<le> str_max_size"
    using assms(4) by (auto simp: stored_def)
  then obtain t where t: "str_append stored st = Inr t"
    "str_chars t = str_chars st @ map char_of_byte stored" "str_ok t"
    using str_append_total [of st stored] assms(5) by blast
  define q where "q = (if r then p1\<lparr>m_sql_string := t\<rparr> else p1)"
  have "fold_res (v_collect_data client_vtable) stored p1 = Inr q"
    using client_collect_data_all [of p1 stored t] t(1) by (simp add: q_def p1_def)
  then have "collect_all client_vtable (encode_packet s (b # bs)) (p, COMMAND_PHASE, out) =
      Inr (end_part client_vtable q, COMMAND_PHASE, out)"
    by (intro client.collect_packet [OF assms(1,2) assms(3) [folded p1_def]]) (simp add: stored_def)
  moreover have "m_payload_not_ended q = full" "\<not> m_payload_is_received q" "m_command q = c"
    "m_payload_length q = word_of_nat (length (b # bs))" "m_sql_data_receiving q = r"
    "m_sql_string q = (if r then t else st)"
    using h by (simp_all add: q_def p1_def)
  ultimately show ?thesis
    using t by (intro exI [of _ "end_part client_vtable q"] exI [of _ t])
      (simp add: end_part_def Let_def client_data_is_received_def get_sql_string_def packet_end_def)
qed

text \<open>The first packet of a message in the command phase.\<close>

lemma reserve_first:
  assumes "0 < l" and "l \<le> full_length" and "str_chars e = []" and "str_capacity e \<le> str_local_capacity"
  obtains st where "str_reserve (word_of_nat l - 1) e = Inr st" and "str_chars st = []" and "str_ok st"
    and "l = full_length \<longrightarrow> str_capacity st = reserved 0"
proof -
  have "unat (word_of_nat l :: u64) = l" using assms(2) by (rule unat_word_of_nat_u64)
  then have pred: "unat (word_of_nat l - 1 :: u64) = l - 1"
    using assms(1) by (metis less_numeral_extra(3) unat_0 unat_minus_one)
  have e: "str_ok e" using assms(3,4) by (simp add: str_ok_def str_max_size_def str_local_capacity_def)
  have "\<not> str_max_size < l - 1" using assms(2) by (simp add: str_max_size_def)
  then obtain st where st: "str_reserve (word_of_nat l - 1) e = Inr st"
    using str_reserve_Inl [OF _ e, of "word_of_nat l - 1"] pred
    by (cases "str_reserve (word_of_nat l - 1) e") auto
  moreover have "str_capacity st = reserved 0" if "l = full_length"
    using st that assms(3,4)
    by (auto simp: str_reserve_def pred Let_def str_create_def bind_res_iffs reserved_0 str_max_size_def
        str_local_capacity_def split: if_splits)
  ultimately show thesis using that str_reserve_Inr [OF st e] assms(3) by simp
qed

lemma client_first_packet:
  assumes "m_packet_state p = PAYLOAD_LENGTH_0" and "m_payload_first_part p"
    and "length (b # bs) \<le> full_length"
    and "\<not> (is_valid (command_of_byte b) \<and> s \<noteq> 0)"
  defines "c \<equiv> command_of_byte b"
  defines "r \<equiv> m_sql_data_receiving p \<or> has_sql_field c"
  defines "full \<equiv> length (b # bs) = full_length"
  shows "\<exists>p'. collect_all client_vtable (encode_packet s (b # bs)) (p, COMMAND_PHASE, out) =
                Inr (p', COMMAND_PHASE, out) \<and>
           packet_end full c (length (b # bs)) (if r then map char_of_byte bs else []) (r \<and> full) p' \<and>
           (full \<longrightarrow> sql_room 0 p')"
proof -
  define n where "n = length (b # bs)"
  have n: "0 < n" "n \<le> full_length" "n = Suc (length bs)" using assms(3) by (simp_all add: n_def)
  define h where "h = after_header n s p"
  define e where "e = str_shrink_to_fit (str_clear (m_sql_string p))"
  obtain t where t: "str_reserve (word_of_nat n - 1) e = Inr t" "str_chars t = []" "str_ok t"
    "n = full_length \<longrightarrow> str_capacity t = reserved 0"
    using reserve_first [OF n(1,2), of e] str_capacity_cleared [of "m_sql_string p"] by (auto simp: e_def)
  define st where "st = (if has_sql_field c then t else e)"
  have st: "str_chars st = []" "str_ok st" using t by (simp_all add: st_def e_def)
  have h: "m_payload_first_part h" "m_sequence_id h = s" "m_payload_length h = word_of_nat n"
    "m_received_bytes h = 0" "m_sql_data_receiving h = m_sql_data_receiving p"
    "m_sql_string h = m_sql_string p"
    using n(1) assms(2) by (simp_all add: h_def after_header_def)
  have "client_begin_command b h = Inr (h\<lparr>m_command := c, m_sql_string := e\<rparr>)"
    using assms(4) h by (auto simp: client_begin_command_def Let_def c_def e_def)
  then have an: "analyse_first_byte client_vtable b (h, COMMAND_PHASE, out) =
      Inr (h\<lparr>m_command := c, m_sql_string := st, m_sql_data_receiving := r\<rparr>, COMMAND_PHASE, out)"
    using h t(1) by (cases "has_sql_field c")
      (simp_all add: analyse_first_byte_def client_command_phase_parse_def st_def r_def)
  have size: "length (str_chars st) + length (b # bs) \<le> str_max_size"
    unfolding n_def [symmetric] using st n(2) by (simp add: str_max_size_def)
  obtain p' u where p': "collect_all client_vtable (encode_packet s (b # bs)) (p, COMMAND_PHASE, out) =
      Inr (p', COMMAND_PHASE, out)"
    "packet_end full c n (if r then map char_of_byte bs else []) (r \<and> full) p'"
    "m_sql_string p' = (if r then u else st)" "str_append bs st = Inr u" "str_ok u"
    using client_store_packet [OF assms(1,3) an [unfolded h_def n_def] size st(2)]
    unfolding full_def n_def [symmetric] if_P [OF assms(2)] st(1) append_Nil by blast
  have "sql_room 0 p'" if full
  proof -
    have full: "n = full_length" using that by (simp add: full_def n_def)
    have "str_capacity u = reserved 0" if "has_sql_field c"
      using str_append_room [OF _ p'(4)] st(1) t(4) full n(3) that by (simp add: st_def reserved_0)
    then show ?thesis
      using p' full n(3) st(2) \<open>full\<close> by (auto simp: sql_room_def packet_end_def r_def)
  qed
  then show ?thesis using p'(1,2) unfolding n_def [symmetric] by blast
qed

text \<open>A packet that continues a message, in the command phase.\<close>

lemma continuation_room:
  assumes "sql_room k p" and "has_sql_field (m_command p)"
    and "0 < l" and "l \<le> full_length" and "(k + 1) * full_length + l \<le> statement_bound"
  obtains st where "str_reserve (word_of_nat (str_capacity (m_sql_string p)) + word_of_nat l - 1)
      (m_sql_string p) = Inr st"
    and "str_chars st = get_sql_string p" and "str_ok st"
    and "l = full_length \<longrightarrow> str_capacity st = min (2 * reserved k) str_max_size \<and> k \<le> 38"
proof -
  have cap: "str_capacity (m_sql_string p) = reserved k" "str_ok (m_sql_string p)"
    using assms(1,2) by (simp_all add: sql_room_def)
  have "reserved k + l - 1 \<le> str_max_size"
  proof (cases "k \<le> 38")
    case True
    then show ?thesis using reserved_upto [OF True] assms(4) by (simp add: str_max_size_def)
  next
    case False
    then have "l = 1" using assms(3,5) by (simp add: statement_bound_def)
    then show ?thesis using reserved_bounds(2) [of k] by simp
  qed
  moreover have "l = full_length \<Longrightarrow> k \<le> 38" using assms(5) by (simp add: statement_bound_def)
  moreover note reserve_next [OF cap(2) _ assms(3,4)]
  ultimately show thesis
    using that reserved_bounds(1) [of k] cap
    by (cases "l = 1") (auto simp: get_sql_string_def str_ok_def)
qed

lemma sql_room_next:
  assumes "sql_room k p" and "has_sql_field (m_command p)" and "k \<le> 38"
    and "str_chars st = get_sql_string p" and "str_ok st"
    and "str_capacity st = min (2 * reserved k) str_max_size"
    and "str_append bs st = Inr u" and "length bs = full_length"
  shows "str_capacity u = reserved (Suc k)"
proof -
  have len: "length (str_chars st) + length bs = (k + 2) * full_length - 1"
    using assms(1,2,4,8) by (simp add: sql_room_def)
  show ?thesis
  proof (cases "k = 0")
    case True
    have "length (str_chars st) + length bs = str_capacity st + 1" "bs \<noteq> []" "1 < str_capacity st"
      using len assms(6,8) True by (auto simp: reserved_0 str_max_size_def)
    then show ?thesis
      using str_append_doubles [OF _ assms(5,7)] assms(6) True
      by (simp add: reserved_1 reserved_0 str_max_size_def)
  next
    case False
    then have cap: "str_capacity st = reserved (Suc k)" using assms(6) by (simp add: reserved_Suc)
    have "length (str_chars st) + length bs \<le> reserved (Suc k)"
      using reserved_room [of "Suc k"] assms(3) unfolding len by simp
    then show ?thesis using str_append_room [OF _ assms(7)] cap by simp
  qed
qed

lemma client_next_packet:
  assumes "m_packet_state p = PAYLOAD_LENGTH_0" and "\<not> m_payload_first_part p"
    and "length (b # bs) \<le> full_length"
    and "sql_room k p" and "(k + 1) * full_length + length (b # bs) \<le> message_bound (m_command p)"
  defines "r \<equiv> m_sql_data_receiving p"
  defines "full \<equiv> length (b # bs) = full_length"
  shows "\<exists>p'. collect_all client_vtable (encode_packet s (b # bs)) (p, COMMAND_PHASE, out) =
                Inr (p', COMMAND_PHASE, out) \<and>
           packet_end full (m_command p) (length (b # bs))
             (get_sql_string p @ (if r then map char_of_byte (b # bs) else [])) (r \<and> full) p' \<and>
           (full \<longrightarrow> sql_room (Suc k) p')"
proof -
  define l where "l = length (b # bs)"
  have l: "0 < l" "l \<le> full_length" using assms(3) by (simp_all add: l_def)
  have room: "str_ok (m_sql_string p)" "length (get_sql_string p) < (k + 1) * full_length"
    using assms(4) by (simp_all add: sql_room_def)
  have bound: "(k + 1) * full_length + l \<le> message_bound (m_command p)"
    using assms(5) unfolding l_def .
  define h where "h = after_header l s p"
  have h: "\<not> m_payload_first_part h" "m_payload_length h = word_of_nat l" "m_received_bytes h = 0"
    "m_sql_data_receiving h = r" "m_sql_string h = m_sql_string p" "m_command h = m_command p"
    using l(1) assms(2) by (simp_all add: h_def after_header_def r_def)
  obtain st where st: "str_chars st = get_sql_string p" "str_ok st"
    "if has_sql_field (m_command p)
     then str_reserve (word_of_nat (str_capacity (m_sql_string p)) + word_of_nat l - 1)
            (m_sql_string p) = Inr st
     else st = m_sql_string p"
    "has_sql_field (m_command p) \<and> l = full_length \<longrightarrow>
       str_capacity st = min (2 * reserved k) str_max_size \<and> k \<le> 38"
  proof (cases "has_sql_field (m_command p)")
    case True
    then have "(k + 1) * full_length + l \<le> statement_bound" using bound by (simp add: message_bound_def)
    from continuation_room [OF assms(4) True l this] show thesis using that True by metis
  next
    case False
    then show thesis using that [of "m_sql_string p"] room(1) by (simp add: get_sql_string_def)
  qed
  have same: "h\<lparr>m_command := m_command p, m_sql_string := st, m_sql_data_receiving := r\<rparr> =
      h\<lparr>m_sql_string := st\<rparr>" "h\<lparr>m_sql_string := m_sql_string p\<rparr> = h"
    using h by simp_all
  then have an: "analyse_first_byte client_vtable b (h, COMMAND_PHASE, out) =
      Inr (h\<lparr>m_command := m_command p, m_sql_string := st, m_sql_data_receiving := r\<rparr>,
           COMMAND_PHASE, out)"
    using h st(3) by (simp add: analyse_first_byte_def client_command_phase_parse_def split: if_splits)
  have size: "length (str_chars st) + length (b # bs) \<le> str_max_size"
    using bound room(2) st(1) unfolding l_def [symmetric]
    by (auto simp: message_bound_def statement_bound_def str_max_size_def split: if_splits)
  obtain p' u where p': "collect_all client_vtable (encode_packet s (b # bs)) (p, COMMAND_PHASE, out) =
      Inr (p', COMMAND_PHASE, out)"
    "packet_end full (m_command p) l (get_sql_string p @ (if r then map char_of_byte (b # bs) else []))
       (r \<and> full) p'"
    "m_sql_string p' = (if r then u else st)" "str_append (b # bs) st = Inr u" "str_ok u"
    using client_store_packet [OF assms(1,3) an [unfolded h_def l_def] size st(2)]
    unfolding full_def l_def if_not_P [OF assms(2)] st(1) by blast
  have "sql_room (Suc k) p'" if full
  proof -
    have full: "l = full_length" using that by (simp add: full_def l_def)
    have "str_capacity u = reserved (Suc k)" if "has_sql_field (m_command p)"
      using sql_room_next [OF assms(4) that _ st(1,2) _ p'(4)] st(4) full that unfolding l_def by blast
    moreover have "has_sql_field (m_command p) \<longrightarrow> r \<and>
        length (get_sql_string p) + 1 = (k + 1) * full_length"
      using assms(4) by (simp add: sql_room_def r_def)
    ultimately show ?thesis
      using p' full room(2) st(2) \<open>full\<close> unfolding l_def
      by (auto simp: sql_room_def packet_end_def)
  qed
  then show ?thesis using p'(1,2) unfolding l_def [symmetric] by blast
qed

section \<open>A message of any length\<close>

text \<open>The packets after the first, down to the short last one (which may be empty).\<close>

lemma client_rest:
  assumes "m_packet_state p = PAYLOAD_LENGTH_0" and "\<not> m_payload_first_part p"
    and "sql_room k p" and "(k + 1) * full_length + length pl \<le> message_bound (m_command p)"
  shows "\<exists>p'. collect_all client_vtable (encode_message s pl) (p, COMMAND_PHASE, out) =
                Inr (p', COMMAND_PHASE, out) \<and>
           packet_end False (m_command p) (last_length pl)
             (get_sql_string p @ (if m_sql_data_receiving p then map char_of_byte pl else []))
             (m_sql_data_receiving p \<and> last_length pl = 0) p'"
  using assms
proof (induction s pl arbitrary: p k rule: encode_message.induct)
  case (1 s pl)
  consider "pl = []" | b bs where "pl = b # bs" "length pl < full_length"
    | "\<not> length pl < full_length"
    by (cases pl) auto
  then show ?case
  proof cases
    case 1
    then show ?thesis
      using "1.prems"(1) by (simp add: encode_message_short last_length_def after_header_def
          client.collect_empty_packet get_sql_string_def packet_end_def)
  next
    case 2
    from client_next_packet [OF "1.prems"(1,2) _ "1.prems"(3), of b bs s out] 2 "1.prems"(4)
    show ?thesis by (auto simp: encode_message_short last_length_short packet_end_def)
  next
    case 3
    then obtain b qs where len: "length (b # qs) = full_length"
      and pl: "pl = (b # qs) @ drop full_length pl"
      and enc: "encode_message s pl =
        encode_packet s (b # qs) @ encode_message (s + 1) (drop full_length pl)"
      and last: "last_length (drop full_length pl) = last_length pl"
      by (rule encode_message_split)
    have map: "map char_of_byte pl =
        map char_of_byte (b # qs) @ map char_of_byte (drop full_length pl)"
      using pl by (metis map_append)
    have "(k + 1) * full_length + length (b # qs) \<le> message_bound (m_command p)"
      using "1.prems"(4) 3 len by linarith
    from client_next_packet [OF "1.prems"(1,2) _ "1.prems"(3) this, of s out] len
    obtain p1 where p1: "collect_all client_vtable (encode_packet s (b # qs)) (p, COMMAND_PHASE, out) =
        Inr (p1, COMMAND_PHASE, out)" "m_packet_state p1 = PAYLOAD_LENGTH_0"
      "\<not> m_payload_first_part p1" "m_command p1 = m_command p"
      "get_sql_string p1 =
         get_sql_string p @ (if m_sql_data_receiving p then map char_of_byte (b # qs) else [])"
      "m_sql_data_receiving p1 = m_sql_data_receiving p" "sql_room (Suc k) p1"
      by (auto simp: packet_end_def simp del: list.map length_Cons)
    have "(Suc k + 1) * full_length + length (drop full_length pl) \<le> message_bound (m_command p1)"
      using "1.prems"(4) 3 p1(4) by simp
    from "1.IH" [OF 3 p1(2,3,7) this] show ?thesis
      unfolding enc map collect_all_append using p1 last by auto
  qed
qed

text \<open>
  The general statement: whatever \<open>m_sql_data_receiving\<close> was when the message started.
\<close>

lemma client_message_general:
  assumes "m_packet_state p = PAYLOAD_LENGTH_0" and "m_payload_first_part p"
    and "length (b # bs) \<le> message_bound (command_of_byte b)"
    and "\<not> (is_valid (command_of_byte b) \<and> s \<noteq> 0)"
  defines "c \<equiv> command_of_byte b"
  defines "r \<equiv> m_sql_data_receiving p \<or> has_sql_field c"
  shows "\<exists>p'. collect_all client_vtable (encode_message s (b # bs)) (p, COMMAND_PHASE, out) =
                Inr (p', COMMAND_PHASE, out) \<and>
           m_packet_state p' = PAYLOAD_LENGTH_0 \<and> m_payload_first_part p' \<and>
           m_payload_is_received p' \<and> m_command p' = c \<and>
           m_payload_length p' = word_of_nat (last_length (b # bs)) \<and>
           get_sql_string p' = (if r then map char_of_byte bs else []) \<and>
           m_sql_data_receiving p' = (r \<and> last_length (b # bs) = 0)"
proof (cases "length (b # bs) < full_length")
  case True
  then show ?thesis
    using client_first_packet [OF assms(1,2) _ assms(4), of bs out] unfolding c_def r_def
    by (auto simp: encode_message_short last_length_short packet_end_def)
next
  case False
  define rest where "rest = drop full_length (b # bs)"
  obtain b' qs where len: "length (b' # qs) = full_length"
    and pl: "b # bs = (b' # qs) @ rest"
    and enc: "encode_message s (b # bs) = encode_packet s (b' # qs) @ encode_message (s + 1) rest"
    and last: "last_length rest = last_length (b # bs)"
    unfolding rest_def by (rule encode_message_split [OF False])
  have b': "b' = b" and map: "map char_of_byte bs = map char_of_byte qs @ map char_of_byte rest"
    using pl by simp_all
  from client_first_packet [OF assms(1,2) _ assms(4), of qs out] len [unfolded b']
  obtain p1 where p1: "collect_all client_vtable (encode_packet s (b # qs)) (p, COMMAND_PHASE, out) =
      Inr (p1, COMMAND_PHASE, out)" "m_packet_state p1 = PAYLOAD_LENGTH_0"
    "\<not> m_payload_first_part p1" "m_command p1 = c"
    "get_sql_string p1 = (if r then map char_of_byte qs else [])"
    "m_sql_data_receiving p1 = r" "sql_room 0 p1"
    unfolding c_def r_def by (auto simp: packet_end_def simp del: length_Cons)
  have "(0 + 1) * full_length + length rest \<le> message_bound (m_command p1)"
    using assms(3) False p1(4) by (simp add: rest_def c_def)
  from client_rest [OF p1(2,3,7) this, of "s + 1" out] show ?thesis
    unfolding enc b' last [symmetric] map collect_all_append using p1 by (auto simp: packet_end_def)
qed

text \<open>
  A longer message of a command with an SQL field: the reservation for its 41st packet exceeds
  the maximal size.
\<close>

lemma client_continuation_fails:
  assumes "m_packet_state p = PAYLOAD_LENGTH_0" and "\<not> m_payload_first_part p"
    and "length (b # bs) \<le> full_length" and "bs \<noteq> []"
    and "sql_room 39 p" and "has_sql_field (m_command p)"
  shows "collect_all client_vtable (encode_packet s (b # bs) @ rest) (p, COMMAND_PHASE, out) =
    Inl Length_error"
proof -
  define l where "l = length (b # bs)"
  have l: "1 < l" "l \<le> full_length" using assms(3,4) by (simp_all add: l_def)
  define h where "h = after_header l s p"
  have cap: "str_capacity (m_sql_string p) = str_max_size" "str_ok (m_sql_string p)"
    using assms(5,6) reserved_full [of 39] by (simp_all add: sql_room_def)
  have h: "\<not> m_payload_first_part h" "m_payload_length h = word_of_nat l" "m_received_bytes h = 0"
    "m_sql_string h = m_sql_string p" "m_command h = m_command p" "m_packet_state h = PAYLOAD"
    using l(1) assms(2) by (simp_all add: h_def after_header_def)
  have "str_reserve (word_of_nat (str_capacity (m_sql_string p)) + word_of_nat l - 1) (m_sql_string p) =
      Inl Length_error"
    using reserve_next [OF cap(2) _ _ l(2)] l cap(1) by (simp add: str_max_size_def)
  then have "collect client_vtable b (h, COMMAND_PHASE, out) = Inl Length_error"
    using h assms(6) by (simp add: collect_def analyse_first_byte_def client_command_phase_parse_def)
  moreover have "collect_all client_vtable (le24 l @ [s]) (p, COMMAND_PHASE, out) =
      Inr (h, COMMAND_PHASE, out)"
    unfolding h_def using assms(1) l(2) by (rule collect_header)
  moreover have "encode_packet s (b # bs) @ rest = (le24 l @ [s]) @ b # (bs @ rest)"
    by (simp only: encode_packet_def l_def append_assoc append_Cons)
  ultimately show ?thesis by (simp only: collect_all_append bind_res_Inr collect_all_Cons bind_res_Inl)
qed

lemma client_rest_fails:
  assumes "m_packet_state p = PAYLOAD_LENGTH_0" and "\<not> m_payload_first_part p"
    and "sql_room k p" and "has_sql_field (m_command p)" and "k \<le> 39"
    and "statement_bound < (k + 1) * full_length + length pl"
  shows "collect_all client_vtable (encode_message s pl) (p, COMMAND_PHASE, out) = Inl Length_error"
  using assms
proof (induction s pl arbitrary: p k rule: encode_message.induct)
  case (1 s pl)
  show ?case
  proof (cases "k = 39")
    case True
    then have long: "2 \<le> length pl" using "1.prems"(6) by (simp add: statement_bound_def)
    show ?thesis
    proof (cases "length pl < full_length")
      case short: True
      obtain b bs where "pl = b # bs" "bs \<noteq> []" using long by (cases pl; cases "tl pl") auto
      then show ?thesis
        using client_continuation_fails [OF "1.prems"(1,2), of b bs s "[]" out] short True "1.prems"(3,4)
        by (simp add: encode_message_short)
    next
      case False
      then obtain b qs where len: "length (b # qs) = full_length"
        and enc: "encode_message s pl =
          encode_packet s (b # qs) @ encode_message (s + 1) (drop full_length pl)"
        by (rule encode_message_split)
      have "qs \<noteq> []" using len by auto
      then show ?thesis
        using client_continuation_fails [OF "1.prems"(1,2) _ _ _ "1.prems"(4)] len True "1.prems"(3)
        unfolding enc by simp
    qed
  next
    case False
    then have k: "k \<le> 38" using "1.prems"(5) by simp
    then have full: "\<not> length pl < full_length" using "1.prems"(6) by (simp add: statement_bound_def)
    then obtain b qs where len: "length (b # qs) = full_length"
      and enc: "encode_message s pl =
        encode_packet s (b # qs) @ encode_message (s + 1) (drop full_length pl)"
      by (rule encode_message_split)
    have "(k + 1) * full_length + length (b # qs) \<le> message_bound (m_command p)"
      unfolding len using k "1.prems"(4) by (simp add: message_bound_def statement_bound_def)
    from client_next_packet [OF "1.prems"(1,2) _ "1.prems"(3) this, of s out] len
    obtain p1 where p1: "collect_all client_vtable (encode_packet s (b # qs)) (p, COMMAND_PHASE, out) =
        Inr (p1, COMMAND_PHASE, out)" "m_packet_state p1 = PAYLOAD_LENGTH_0"
      "\<not> m_payload_first_part p1" "m_command p1 = m_command p" "sql_room (Suc k) p1"
      by (auto simp: packet_end_def simp del: list.map length_Cons)
    have "statement_bound < (Suc k + 1) * full_length + length (drop full_length pl)"
      using "1.prems"(6) full by simp
    from "1.IH" [OF full p1(2,3,5) _ _ this] show ?thesis
      unfolding enc collect_all_append using p1(1,4) "1.prems"(4) k by simp
  qed
qed

lemma client_message_fails:
  assumes "m_packet_state p = PAYLOAD_LENGTH_0" and "m_payload_first_part p"
    and "has_sql_field (command_of_byte b)" and "statement_bound < length (b # bs)"
    and "\<not> (is_valid (command_of_byte b) \<and> s \<noteq> 0)"
  shows "collect_all client_vtable (encode_message s (b # bs)) (p, COMMAND_PHASE, out) = Inl Length_error"
proof -
  have full: "\<not> length (b # bs) < full_length" using assms(4) by (simp add: statement_bound_def)
  define rest where "rest = drop full_length (b # bs)"
  obtain b' qs where len: "length (b' # qs) = full_length"
    and pl: "b # bs = (b' # qs) @ rest"
    and enc: "encode_message s (b # bs) = encode_packet s (b' # qs) @ encode_message (s + 1) rest"
    unfolding rest_def by (rule encode_message_split [OF full])
  have b': "b' = b" using pl by simp
  from client_first_packet [OF assms(1,2) _ assms(5), of qs out] len [unfolded b']
  obtain p1 where p1: "collect_all client_vtable (encode_packet s (b # qs)) (p, COMMAND_PHASE, out) =
      Inr (p1, COMMAND_PHASE, out)" "m_packet_state p1 = PAYLOAD_LENGTH_0"
    "\<not> m_payload_first_part p1" "m_command p1 = command_of_byte b" "sql_room 0 p1"
    by (auto simp: packet_end_def simp del: length_Cons)
  have "statement_bound < (0 + 1) * full_length + length rest"
    using assms(4) full by (simp add: rest_def)
  from client_rest_fails [OF p1(2,3,5) _ _ this] show ?thesis
    unfolding enc b' collect_all_append using p1(1,4) assms(3) by simp
qed




section \<open>Every byte stream\<close>

text \<open>
  Whether a message has begun: its first payload byte, which decides on the command, was seen.
\<close>

definition in_message :: "FromClientPacket \<Rightarrow> bool" where
  "in_message p \<longleftrightarrow>
     \<not> m_payload_first_part p \<or> m_packet_state p = PAYLOAD \<and> m_received_bytes p \<noteq> 0"

text \<open>
  The collection of a statement after \<open>k\<close> full packets and the bytes of the current one: all
  of it but the command byte is stored, and the capacity has at most doubled with each
  packet.
\<close>

definition statement_at :: "nat \<Rightarrow> FromClientPacket \<Rightarrow> bool" where
  "statement_at k p \<longleftrightarrow>
     m_sql_data_receiving p \<and> (m_payload_first_part p \<longrightarrow> k = 0) \<and>
     length (get_sql_string p) + 1 =
       k * full_length + (if m_packet_state p = PAYLOAD then unat (m_received_bytes p) else 0) \<and>
     str_capacity (m_sql_string p) \<le>
       2 ^ (if m_packet_state p = PAYLOAD \<and> m_received_bytes p \<noteq> 0 then k + 1 else k) * full_length"


text \<open>
  What holds of the client packet of a connection in the given phase, after any bytes: the
  framing invariant, a consistent string, no command before the command phase, and, while a
  statement is being collected, the bounds of its text.
\<close>

definition client_ok :: "MySqlConnectionState \<Rightarrow> FromClientPacket \<Rightarrow> bool" where
  "client_ok cs p \<longleftrightarrow>
     frame_inv p \<and> str_ok (m_sql_string p) \<and>
     (cs = CONNECTION_PHASE \<longrightarrow> m_command p = UNKNOWN \<and> \<not> m_sql_data_receiving p \<and> get_sql_string p = []) \<and>
     (has_sql_field (m_command p) \<and> in_message p \<longrightarrow> (\<exists>k. statement_at k p))"

lemma client_ok_new: "client_ok CONNECTION_PHASE new_FromClientPacket"
  by (simp add: client_ok_def frame_inv_def in_message_def get_sql_string_def str_empty_def
      str_ok_def str_max_size_def str_local_capacity_def)

text \<open>The server may end the connection phase between any two bytes of the client.\<close>

lemma client_ok_phase: "client_ok cs p \<Longrightarrow> cs = CONNECTION_PHASE \<or> cs' = cs \<Longrightarrow> client_ok cs' p"
  by (auto simp: client_ok_def)

lemma client_ok_command_phase: "client_ok cs p \<Longrightarrow> client_ok COMMAND_PHASE p"
  by (simp add: client_ok_def)

text \<open>The number of full packets of a statement when a reservation or an append fails.\<close>

definition too_long :: "FromClientPacket \<Rightarrow> bool" where
  "too_long p \<longleftrightarrow> statement_bound \<le> length (get_sql_string p) + 2"

lemma statement_room: "k + 1 \<le> 2 ^ (k :: nat)"
  by (induction k) auto

text \<open>
  Within a packet: \<open>d\<close> bytes of it belong to what was stored (the command byte counts as stored).
\<close>

definition collecting :: "nat \<Rightarrow> FromClientPacket \<Rightarrow> bool" where
  "collecting d p \<longleftrightarrow>
     (has_sql_field (m_command p) \<longrightarrow>
        m_sql_data_receiving p \<and>
        (\<exists>k. (m_payload_first_part p \<longrightarrow> k = 0) \<and> length (get_sql_string p) + 1 = k * full_length + d \<and>
           str_capacity (m_sql_string p) \<le> 2 ^ (k + 1) * full_length))"

text \<open>The analysis of the first byte of a packet in the command phase.\<close>

lemma client_parse_first:
  assumes "client_ok cs p" and "m_packet_state p = PAYLOAD" and "m_payload_first_part p"
  shows "case client_command_phase_parse b p of
           Inl e \<Rightarrow> e = bad_packet \<and> m_sequence_id p \<noteq> 0 \<and> is_valid (command_of_byte b)
         | Inr p1 \<Rightarrow> str_ok (m_sql_string p1) \<and> get_sql_string p1 = [] \<and> collecting 1 p1"
proof (cases "is_valid (command_of_byte b) \<and> 0 \<noteq> m_sequence_id p")
  case True
  then show ?thesis
    using assms(3) by (simp add: client_command_phase_parse_def client_begin_command_def Let_def)
next
  case False
  define e where "e = str_shrink_to_fit (str_clear (m_sql_string p))"
  have e: "str_chars e = []" "str_ok e" "str_capacity e \<le> 15"
    using str_capacity_cleared [of "m_sql_string p"] by (simp_all add: e_def str_local_capacity_def)
  have l: "0 < unat (m_payload_length p)" "unat (m_payload_length p) \<le> full_length"
    using assms(1,2) by (auto simp: client_ok_def frame_inv_def)
  have "m_payload_length p \<noteq> 0" using l(1) by auto
  then have pred: "unat (m_payload_length p - 1) = unat (m_payload_length p) - 1"
    by (simp add: unat_minus_one)
  then have "\<not> str_max_size < unat (m_payload_length p - 1)" using l(2) by (simp add: str_max_size_def)
  then obtain t where t: "str_reserve (m_payload_length p - 1) e = Inr t"
    using str_reserve_Inl [OF _ e(2), of "m_payload_length p - 1"]
    by (cases "str_reserve (m_payload_length p - 1) e") auto
  note str_reserve_Inr [OF t e(2)]
  then have "str_chars t = []" "str_ok t" "str_capacity t \<le> 2 * full_length"
    using e l(2) pred by (auto simp: str_local_capacity_def max_def split: if_splits)
  then show ?thesis
    using False assms(3) t e by (auto simp: client_command_phase_parse_def client_begin_command_def
        Let_def e_def [symmetric] collecting_def get_sql_string_def)
qed

lemma client_parse_next:
  assumes "client_ok cs p" and "m_packet_state p = PAYLOAD" and "m_received_bytes p = 0"
    and "\<not> m_payload_first_part p"
  shows "case client_command_phase_parse b p of
           Inl e \<Rightarrow> e = Length_error \<and> too_long p
         | Inr p1 \<Rightarrow> str_ok (m_sql_string p1) \<and> get_sql_string p1 = get_sql_string p \<and> collecting 0 p1"
proof (cases "has_sql_field (m_command p)")
  case False
  then show ?thesis
    using assms by (simp add: client_command_phase_parse_def client_ok_def collecting_def)
next
  case True
  define cap where "cap = str_capacity (m_sql_string p)"
  define l where "l = unat (m_payload_length p)"
  have l: "0 < l" "l \<le> full_length" using assms(1,2) by (auto simp: client_ok_def frame_inv_def l_def)
  have ok: "str_ok (m_sql_string p)" "cap \<le> str_max_size"
    using assms(1) by (simp_all add: client_ok_def str_ok_def cap_def)
  obtain k where k: "length (get_sql_string p) + 1 = k * full_length" "cap \<le> 2 ^ k * full_length"
    and receiving: "m_sql_data_receiving p"
    using assms True by (auto simp: client_ok_def in_message_def statement_at_def cap_def)
  have "k \<noteq> 0" using k(1) by auto
  have size: "unat (word_of_nat cap + m_payload_length p - 1) = cap + l - 1"
    using continuation_request [OF ok(2) l] by (simp add: l_def)
  show ?thesis
  proof (cases "str_reserve (word_of_nat cap + m_payload_length p - 1) (m_sql_string p)")
    case (Inl e)
    have "e = Length_error" "str_max_size < cap + l - 1"
      using str_reserve_Inl [OF Inl ok(1)] unfolding size by simp_all
    moreover have "too_long p" if "str_max_size < cap + l - 1"
    proof (rule ccontr)
      assume "\<not> too_long p"
      then have "k \<le> 39" using k(1) by (simp add: too_long_def statement_bound_def)
      then have "(2::nat) ^ k \<le> 2 ^ 39" by (intro power_increasing) simp_all
      then have "2 ^ k * full_length \<le> 2 ^ 39 * full_length" by (rule mult_le_mono1)
      then show False using that k(2) l(2) by (simp add: str_max_size_def)
    qed
    ultimately show ?thesis
      using Inl True assms(4) by (simp add: client_command_phase_parse_def cap_def)
  next
    case (Inr t)
    let ?room = "2 ^ (k + 1) * full_length"
    note res = str_reserve_Inr [OF Inr ok(1), unfolded size]
    define m :: nat where "m = 2 ^ k"
    have m: "1 \<le> m" "?room = 2 * m * full_length" "cap \<le> m * full_length"
      using k(2) by (simp_all add: m_def)
    have "cap + l - 1 \<le> ?room" "2 * cap \<le> ?room" "str_local_capacity \<le> ?room"
      using m l(2) by (simp_all add: str_local_capacity_def)
    then have "str_capacity t \<le> ?room"
      using res(3) unfolding cap_def [symmetric] by (meson le_trans max.boundedI)
    then have "str_chars t = str_chars (m_sql_string p)" "str_ok t" "str_capacity t \<le> ?room"
      using res by simp_all
    then show ?thesis
      using Inr True assms(4) k(1) receiving
      by (auto simp: client_command_phase_parse_def cap_def collecting_def get_sql_string_def)
  qed
qed

text \<open>The first-byte analysis, in any phase and for any byte of a packet.\<close>

abbreviation stores :: "FromClientPacket \<Rightarrow> bool" where
  "stores p \<equiv> 0 < m_received_bytes p \<or> \<not> m_payload_first_part p"

definition quiet :: "MySqlConnectionState \<Rightarrow> FromClientPacket \<Rightarrow> bool" where
  "quiet cs p \<longleftrightarrow>
     (cs = CONNECTION_PHASE \<longrightarrow> m_command p = UNKNOWN \<and> \<not> m_sql_data_receiving p \<and> get_sql_string p = [])"

lemma client_analyse_ok:
  assumes ok: "client_ok cs p" and payload: "m_packet_state p = PAYLOAD"
  shows "case analyse_first_byte client_vtable b (p, cs, out) of
           Inl e \<Rightarrow> e = bad_packet \<and> m_received_bytes p = 0 \<and> m_payload_first_part p \<and>
                      cs = COMMAND_PHASE \<and> m_sequence_id p \<noteq> 0 \<and> is_valid (command_of_byte b) \<or>
                    e = Length_error \<and> too_long p
         | Inr (p1, cs1, out1) \<Rightarrow>
             cs1 = cs \<and> out1 = out \<and> frame p1 = frame p \<and> str_ok (m_sql_string p1) \<and> quiet cs p1 \<and>
             length (get_sql_string p1) \<le> length (get_sql_string p) \<and>
             collecting (if stores p then unat (m_received_bytes p) else 1) p1"
proof (cases "m_received_bytes p = 0 \<and> cs = COMMAND_PHASE")
  case False
  have "collecting (if stores p then unat (m_received_bytes p) else 1) p"
  proof (cases "cs = CONNECTION_PHASE")
    case True
    then show ?thesis using ok by (simp add: client_ok_def collecting_def)
  next
    case other: False
    then have r: "m_received_bytes p \<noteq> 0" using False by (cases cs) simp_all
    then have "stores p" by (simp add: word_neq_0_conv)
    moreover have "collecting (unat (m_received_bytes p)) p"
      using ok payload r by (auto simp: client_ok_def in_message_def collecting_def statement_at_def)
    ultimately show ?thesis by simp
  qed
  then show ?thesis
    using False ok by (cases cs)
      (auto simp: analyse_first_byte_def client_connection_phase_parse_def client_ok_def quiet_def)
next
  case True
  have frame: "client_command_phase_parse b p = Inr p1 \<Longrightarrow> frame p1 = frame p" for p1
    using client.frame_command [of b p p1] by simp
  show ?thesis
  proof (cases "m_payload_first_part p")
    case first: True
    show ?thesis
      using client_parse_first [OF ok payload first, of b] True first frame
      by (cases "client_command_phase_parse b p") (auto simp: analyse_first_byte_def quiet_def)
  next
    case next_part: False
    show ?thesis
      using client_parse_next [OF ok payload _ next_part, of b] True next_part frame
      by (cases "client_command_phase_parse b p") (auto simp: analyse_first_byte_def quiet_def)
  qed
qed

text \<open>The stored byte, if the byte is stored at all.\<close>

lemma client_push_ok:
  assumes "str_ok (m_sql_string p)"
  shows "case client_collect_data b p of
           Inl e \<Rightarrow> e = Length_error \<and> too_long p
         | Inr q \<Rightarrow> frame q = frame p \<and> m_command q = m_command p \<and>
             m_sql_data_receiving q = m_sql_data_receiving p \<and> str_ok (m_sql_string q) \<and>
             length (get_sql_string q) =
               length (get_sql_string p) + (if m_sql_data_receiving p then 1 else 0) \<and>
             str_capacity (m_sql_string q) \<le>
               max (str_capacity (m_sql_string p)) (2 * length (get_sql_string q))"
proof (cases "m_sql_data_receiving p")
  case False
  then show ?thesis using assms by (simp add: client_collect_data_def)
next
  case True
  show ?thesis
  proof (cases "str_push_back (char_of_byte b) (m_sql_string p)")
    case (Inl e)
    then show ?thesis
      using str_push_back_Inl [OF Inl assms] True
      by (simp add: client_collect_data_def too_long_def get_sql_string_def statement_bound_def str_max_size_def)
  next
    case (Inr t)
    then show ?thesis
      using str_push_back_Inr [OF Inr assms] True
      by (simp add: client_collect_data_def get_sql_string_def frame_eq_iff)
  qed
qed

lemma client_store_ok:
  assumes "str_ok (m_sql_string p)" and "quiet cs p" and "r < full_length"
    and "collecting (if stored then r else 1) p" and "stored \<or> r = 0"
  shows "case (if stored then client_collect_data b p else Inr p) of
           Inl e \<Rightarrow> e = Length_error \<and> too_long p
         | Inr q \<Rightarrow> frame q = frame p \<and> str_ok (m_sql_string q) \<and> quiet cs q \<and>
             length (get_sql_string q) \<le> length (get_sql_string p) + 1 \<and> collecting (Suc r) q"
proof (cases stored)
  case False
  then show ?thesis using assms by simp
next
  case True
  show ?thesis
  proof (cases "client_collect_data b p")
    case (Inl e)
    then show ?thesis using client_push_ok [OF assms(1), of b] True by simp
  next
    case (Inr q)
    note q = client_push_ok [OF assms(1), of b, unfolded Inr sum.case]
    have first: "m_payload_first_part q = m_payload_first_part p" using q by (simp add: frame_eq_iff)
    have "collecting (Suc r) q"
      unfolding collecting_def
    proof
      assume "has_sql_field (m_command q)"
      then obtain k where k: "m_payload_first_part p \<longrightarrow> k = 0"
        "length (get_sql_string p) + 1 = k * full_length + r"
        "str_capacity (m_sql_string p) \<le> 2 ^ (k + 1) * full_length" and "m_sql_data_receiving p"
        using assms(4) True q by (auto simp: collecting_def)
      then have len: "length (get_sql_string q) = k * full_length + r" using q by simp
      have "k * full_length + r \<le> (k + 1) * full_length" using assms(3) by simp
      also have "\<dots> \<le> 2 ^ k * full_length" by (intro mult_le_mono1 statement_room)
      finally have "2 * length (get_sql_string q) \<le> 2 ^ (k + 1) * full_length"
        unfolding len by (simp add: power_add)
      then have "str_capacity (m_sql_string q) \<le> 2 ^ (k + 1) * full_length"
        using q k(3) by (meson le_trans max.boundedI)
      then show "m_sql_data_receiving q \<and> (\<exists>k. (m_payload_first_part q \<longrightarrow> k = 0) \<and>
          length (get_sql_string q) + 1 = k * full_length + Suc r \<and>
          str_capacity (m_sql_string q) \<le> 2 ^ (k + 1) * full_length)"
        using q k(1) len first \<open>m_sql_data_receiving p\<close> by (intro conjI exI [of _ k]) simp_all
    qed
    then show ?thesis
      using q assms(2) Inr True by (auto simp: quiet_def)
  qed
qed

text \<open>The end of a payload byte.\<close>

lemma client_finish_ok:
  assumes "frame_inv (finish_byte client_vtable p)" and "m_packet_state p = PAYLOAD"
    and "m_payload_not_ended p = (unat (m_payload_length p) = full_length)"
    and "unat (m_received_bytes p) < unat (m_payload_length p)"
    and "unat (m_payload_length p) \<le> full_length" and "str_ok (m_sql_string p)" and "quiet cs p"
    and "collecting (Suc (unat (m_received_bytes p))) p"
  shows "client_ok cs (finish_byte client_vtable p)"
proof -
  have suc: "unat (m_received_bytes p + 1) = Suc (unat (m_received_bytes p))"
    by (rule unat_Suc_u64) (use assms(4,5) in simp)
  then have nz: "m_received_bytes p + 1 \<noteq> 0" by (metis nat.distinct(1) unat_0)
  show ?thesis
  proof (cases "m_received_bytes p + 1 = m_payload_length p")
    case False
    have "\<exists>k. statement_at k (p\<lparr>m_received_bytes := m_received_bytes p + 1\<rparr>)"
      if "has_sql_field (m_command p)"
      using assms(2,8) that suc nz by (auto simp: collecting_def statement_at_def get_sql_string_def)
    then show ?thesis
      using False assms(1,6,7)
      by (simp add: client.finish_byte_inner client_ok_def quiet_def get_sql_string_def)
  next
    case True
    then have last: "Suc (unat (m_received_bytes p)) = unat (m_payload_length p)" using suc by simp
    have "\<exists>k. statement_at k (end_part client_vtable p)"
      if sql: "has_sql_field (m_command p)" "m_payload_not_ended p"
    proof -
      have "Suc (unat (m_received_bytes p)) = full_length" using assms(3) sql(2) last by simp
      moreover obtain k where "length (get_sql_string p) + 1 = k * full_length + Suc (unat (m_received_bytes p))"
        "str_capacity (m_sql_string p) \<le> 2 ^ (k + 1) * full_length" "m_sql_data_receiving p"
        using assms(8) sql(1) unfolding collecting_def by blast
      ultimately show ?thesis
        using sql(2) by (intro exI [of _ "Suc k"])
          (simp add: statement_at_def end_part_def Let_def get_sql_string_def)
    qed
    then show ?thesis
      using True assms(1,6,7) by (auto simp: client.finish_byte_last client_ok_def quiet_def
          get_sql_string_def end_part_def Let_def client_data_is_received_def in_message_def)
  qed
qed

text \<open>One byte of any stream.\<close>

lemma client_collect_ok:
  assumes ok: "client_ok cs p"
  shows "case collect client_vtable b (p, cs, out) of
           Inl e \<Rightarrow> e = bad_packet \<and> m_packet_state p = PAYLOAD \<and> m_received_bytes p = 0 \<and>
                      m_payload_first_part p \<and> cs = COMMAND_PHASE \<and> m_sequence_id p \<noteq> 0 \<and>
                      is_valid (command_of_byte b) \<or>
                    e = Length_error \<and> too_long p
         | Inr (p', cs', out') \<Rightarrow> client_ok cs p' \<and> cs' = cs \<and> out' = out \<and>
             length (get_sql_string p') \<le> length (get_sql_string p) + 1"
proof (cases "m_packet_state p = PAYLOAD")
  case False
  then obtain p' where p': "collect client_vtable b (p, cs, out) = Inr (p', cs, out)"
    "m_sql_string p' = m_sql_string p" "m_command p' = m_command p"
    "m_sql_data_receiving p' = m_sql_data_receiving p"
    "m_packet_state p' = PAYLOAD \<longrightarrow> m_received_bytes p' = 0"
    "\<not> m_payload_first_part p' \<longrightarrow> \<not> m_payload_first_part p"
    using ok by (cases "m_packet_state p"; cases "m_payload_length p = 0")
      (auto simp: collect_def Let_def client_ok_def frame_inv_def)
  moreover have "frame_inv p'"
    using client.collect_refines [OF p'(1)] ok by (simp add: client_ok_def)
  ultimately show ?thesis
    using ok False by (auto simp: client_ok_def in_message_def statement_at_def get_sql_string_def)
next
  case True
  have r: "unat (m_received_bytes p) < unat (m_payload_length p)"
    "unat (m_payload_length p) \<le> full_length"
    using ok True by (simp_all add: client_ok_def frame_inv_def)
  note an = client_analyse_ok [OF ok True, of b out]
  show ?thesis
  proof (cases "analyse_first_byte client_vtable b (p, cs, out)")
    case (Inl e)
    then show ?thesis using an True by (auto simp: collect_def)
  next
    case (Inr ctx)
    obtain p1 cs1 out1 where ctx: "ctx = (p1, cs1, out1)" by (cases ctx)
    note p1 = an [unfolded Inr ctx sum.case prod.case]
    have same: "stores p1 = stores p" using p1 by (simp add: frame_eq_iff)
    have rest: "case (if stores p1 then client_collect_data b p1 else Inr p1) of
        Inl e \<Rightarrow> e = Length_error \<and> too_long p1
      | Inr q \<Rightarrow> frame q = frame p1 \<and> str_ok (m_sql_string q) \<and> quiet cs q \<and>
          length (get_sql_string q) \<le> length (get_sql_string p1) + 1 \<and>
          collecting (Suc (unat (m_received_bytes p))) q"
      using p1 r unfolding same by (intro client_store_ok) (auto simp: word_neq_0_conv [symmetric])
    show ?thesis
    proof (cases "if stores p1 then client_collect_data b p1 else Inr p1")
      case fail: (Inl e)
      have "too_long p" using rest p1 unfolding fail by (simp add: too_long_def)
      then show ?thesis using rest fail Inr ctx True by (auto simp: collect_def split: if_splits)
    next
      case store: (Inr q)
      note q = rest [unfolded store sum.case]
      have step: "collect client_vtable b (p, cs, out) = Inr (finish_byte client_vtable q, cs, out)"
        using True Inr ctx p1 store by (auto simp: collect_def split: if_splits)
      have frame: "frame q = frame p" using p1 q by simp
      have "client_ok cs (finish_byte client_vtable q)"
        using client.collect_refines [OF step] ok q r frame True
        by (intro client_finish_ok) (auto simp: client_ok_def frame_eq_iff frame_inv_def)
      moreover have "get_sql_string (finish_byte client_vtable q) = get_sql_string q"
        by (simp add: finish_byte_def Let_def get_sql_string_def client_data_is_received_def)
      ultimately show ?thesis using step q p1 by simp
    qed
  qed
qed

lemma client_collect_all_ok:
  assumes "client_ok cs p"
  shows "case collect_all client_vtable bs (p, cs, out) of
           Inl e \<Rightarrow> e = bad_packet \<or>
             e = Length_error \<and> statement_bound \<le> length (get_sql_string p) + length bs + 2
         | Inr (p', cs', out') \<Rightarrow> client_ok cs p' \<and> cs' = cs \<and> out' = out \<and>
             length (get_sql_string p') \<le> length (get_sql_string p) + length bs"
  using assms
proof (induction bs arbitrary: p)
  case Nil
  then show ?case by simp
next
  case (Cons b bs)
  note one = client_collect_ok [OF Cons.prems, of b out]
  show ?case
  proof (cases "collect client_vtable b (p, cs, out)")
    case (Inl e)
    then show ?thesis using one by (auto simp: collect_all_Cons too_long_def)
  next
    case (Inr x)
    then obtain p1 where x: "x = (p1, cs, out)" "client_ok cs p1"
      "length (get_sql_string p1) \<le> length (get_sql_string p) + 1"
      using one by (cases x) auto
    show ?thesis
      using Cons.IH [OF x(2)] Inr x(1,3) by (auto simp: collect_all_Cons split: sum.splits)
  qed
qed

lemma client_collect_all_fault:
  assumes "client_ok cs p" and "collect_all client_vtable bs (p, cs, out) = Inl e"
  shows "e = bad_packet \<or>
    e = Length_error \<and>
      (\<exists>bs1 bs2 q. bs = bs1 @ bs2 \<and> collect_all client_vtable bs1 (p, cs, out) = Inr (q, cs, out) \<and>
         too_long q)"
  using assms
proof (induction bs arbitrary: p)
  case Nil
  then show ?case by simp
next
  case (Cons b bs)
  note one = client_collect_ok [OF Cons.prems(1), of b out]
  show ?case
  proof (cases "collect client_vtable b (p, cs, out)")
    case (Inl e')
    then have "e = bad_packet \<or> e = Length_error \<and> too_long p"
      using one Cons.prems(2) by (auto simp: collect_all_Cons)
    then show ?thesis
      by (elim disjE) (simp, intro disjI2 conjI exI [of _ "[]"] exI [of _ "b # bs"] exI [of _ p], simp_all)
  next
    case (Inr x)
    then obtain p1 where x: "x = (p1, cs, out)" "client_ok cs p1" using one by (cases x) auto
    then have "collect_all client_vtable bs (p1, cs, out) = Inl e"
      using Inr Cons.prems(2) by (simp add: collect_all_Cons)
    from Cons.IH [OF x(2) this] show ?thesis
    proof (elim disjE conjE exE)
      fix bs1 bs2 q
      assume "e = Length_error" "bs = bs1 @ bs2" "too_long q"
        and "collect_all client_vtable bs1 (p1, cs, out) = Inr (q, cs, out)"
      then show ?thesis
        using Inr x(1) by (intro disjI2 conjI exI [of _ "b # bs1"] exI [of _ bs2] exI [of _ q])
          (simp_all add: collect_all_Cons)
    qed simp
  qed
qed

lemma client_collect_context:
  assumes "collect_all client_vtable bs (p, cs, out) = Inr (p', cs', out')"
  shows "cs' = cs \<and> out' = out"
  using assms
proof (induction bs arbitrary: p cs out)
  case Nil
  then show ?case by simp
next
  case (Cons b bs)
  then obtain p1 cs1 out1 where one: "collect client_vtable b (p, cs, out) = Inr (p1, cs1, out1)"
    and rest: "collect_all client_vtable bs (p1, cs1, out1) = Inr (p', cs', out')"
    by (auto simp: collect_all_Cons bind_res_eq_Inr)
  have "cs1 = cs \<and> out1 = out"
    using one by (cases "m_packet_state p")
      (auto simp: collect_def analyse_first_byte_def bind_res_iffs client_connection_phase_parse_def
        Let_def split: if_splits MySqlConnectionState.splits)
  then show ?case using Cons.IH [OF rest] by simp
qed

lemma client_collect_all_out:
  assumes "collect_all client_vtable bs (p, cs, out) = Inr (p', cs, out)"
  shows "collect_all client_vtable bs (p, cs, out2) = Inr (p', cs, out2)"
  using assms client.collect_all_out [of bs p cs out] client.collect_all_out [of bs p cs out2]
  by (auto simp: bind_res_eq_Inr)

lemma frame_bounded_client_new [simp]: "frame_bounded new_FromClientPacket"
  by (simp add: frame_bounded_def frame_inv_def)

section \<open>The connection phase\<close>

text \<open>
  Before the command phase the client packet collects nothing: the command stays
  \<open>UNKNOWN\<close> and the SQL text stays empty, whatever bytes arrive.
\<close>

definition client_silent :: "FromClientPacket \<Rightarrow> bool" where
  "client_silent p \<longleftrightarrow>
     m_command p = UNKNOWN \<and> \<not> m_sql_data_receiving p \<and> m_sql_string p = str_empty"

lemma client_silent_new: "client_silent new_FromClientPacket"
  by (simp add: client_silent_def)

lemma client_silent_collect:
  assumes "client_silent p"
  shows "\<exists>p'. collect client_vtable b (p, CONNECTION_PHASE, out) = Inr (p', CONNECTION_PHASE, out) \<and>
              client_silent p'"
  using assms
  by (cases "m_packet_state p")
    (auto simp: collect_defs Let_def client_defs client_silent_def)

lemma client_silent_collect_all:
  assumes "client_silent p"
  shows "\<exists>p'. collect_all client_vtable bs (p, CONNECTION_PHASE, out) =
                Inr (p', CONNECTION_PHASE, out) \<and> client_silent p'"
  using assms
proof (induction bs arbitrary: p)
  case Nil
  then show ?case by simp
next
  case (Cons b bs)
  then show ?case using client_silent_collect [of p b out] by (auto simp: collect_all_Cons)
qed

text \<open>The other side of the deliberate exception: a valid command with a sequence id.\<close>

lemma client_bad_message:
  assumes "m_packet_state p = PAYLOAD_LENGTH_0" and "m_payload_first_part p"
    and "is_valid (command_of_byte b)" and "s \<noteq> 0"
  shows "collect_all client_vtable (encode_message s (b # bs)) (p, COMMAND_PHASE, out) = Inl bad_packet"
proof -
  define n where "n = (if length (b # bs) < full_length then length (b # bs) else full_length)"
  have n: "0 < n" "n \<le> full_length" by (simp_all add: n_def)
  obtain rest where enc: "encode_message s (b # bs) = (le24 n @ [s]) @ b # rest"
  proof (cases "length (b # bs) < full_length")
    case True
    then show thesis
      using that [of bs] by (simp add: encode_message_short encode_packet_def n_def)
  next
    case False
    then obtain b' qs where len: "length (b' # qs) = full_length"
      and pl: "b # bs = (b' # qs) @ drop full_length (b # bs)"
      and enc: "encode_message s (b # bs) =
        encode_packet s (b' # qs) @ encode_message (s + 1) (drop full_length (b # bs))"
      and last: "last_length (drop full_length (b # bs)) = last_length (b # bs)"
      by (rule encode_message_split)
    have "b' = b" using pl by simp
    moreover have "encode_packet s (b' # qs) = (le24 n @ [s]) @ b' # qs"
      using False by (simp only: encode_packet_def len n_def if_False append_assoc)
    ultimately show thesis
      using that [of "qs @ encode_message (s + 1) (drop full_length (b # bs))"]
      unfolding enc by simp
  qed
  have "collect_all client_vtable (le24 n @ [s]) (p, COMMAND_PHASE, out) =
      Inr (after_header n s p, COMMAND_PHASE, out)"
    using assms(1) n(2) by (rule collect_header)
  moreover have "collect client_vtable b (after_header n s p, COMMAND_PHASE, out) = Inl bad_packet"
    using n(1) assms by (simp add: collect_def analyse_first_byte_def after_header_def
        client_command_phase_parse_def client_begin_command_def Let_def)
  ultimately show ?thesis
    unfolding enc collect_all_append by (simp add: collect_all_Cons)
qed

section \<open>Properties\<close>

text \<open>
  C6. Round trip of the packet layer. A client message in the command phase of any length up
  to the bound of its command (for a statement 40 full packets and a byte, for the other
  commands the maximal size of a string), cut into packets as the protocol prescribes and numbered from 0, is decoded
  without a fault to exactly what was sent: the command byte, the SQL text (for the commands
  that have one; nothing for the others), announced as received, with the collector idle
  again, the phase untouched and nothing printed.
\<close>

theorem client_message_decoded:
  assumes "m_packet_state p = PAYLOAD_LENGTH_0" and "m_payload_first_part p"
    and "\<not> m_sql_data_receiving p"
    and "length (b # bs) \<le> message_bound (command_of_byte b)"
  shows "\<exists>p'. collect_all client_vtable (encode_message 0 (b # bs)) (p, COMMAND_PHASE, out) =
                Inr (p', COMMAND_PHASE, out) \<and>
           is_received p' \<and> m_packet_state p' = PAYLOAD_LENGTH_0 \<and> m_payload_first_part p' \<and>
           byte_of_command (m_command p') = b \<and>
           map byte_of_char (get_sql_string p') =
             (if has_sql_field (command_of_byte b) then bs else [])"
proof -
  have roundtrip: "byte_of_command (command_of_byte b) = b"
    by (auto simp: command_of_byte_def byte_of_command_def command_table_def split: if_splits)
  have "\<not> (is_valid (command_of_byte b) \<and> (0 :: u8) \<noteq> 0)" by simp
  from client_message_general [OF assms(1,2,4) this, of out] show ?thesis
    using assms(3) roundtrip by (auto simp: is_received_def)
qed

theorem client_message_decoded_witness:
  "\<exists>p'. collect_all client_vtable (encode_message 0 [3, 83, 69])
          (new_FromClientPacket, COMMAND_PHASE, []) = Inr (p', COMMAND_PHASE, []) \<and>
        byte_of_command (m_command p') = 3 \<and> map byte_of_char (get_sql_string p') = [83, 69]"
proof -
  have sql: "has_sql_field (command_of_byte 3)"
    by (simp add: command_of_byte_def command_table_def)
  have "length [3 :: u8, 83, 69] \<le> message_bound (command_of_byte 3)"
    by (simp add: message_bound_def statement_bound_def str_max_size_def)
  from client_message_decoded [of new_FromClientPacket, OF _ _ _ this, of "[]"] show ?thesis
    using sql by auto
qed

text \<open>
  C25. Exactly which client messages kill the proxy: in the command phase, from the idle
  collector, a message (of at most the maximal size of a string) makes the collector throw in
  two cases only. If its first byte is a valid command and its sequence id is not 0, it is
  answered with \<open>BAD packet\<close>; otherwise, if it is a statement of more than 40 full packets and
  a byte, with the \<open>length_error\<close> of a reservation.
\<close>

theorem client_bad_packet_iff:
  assumes "m_packet_state p = PAYLOAD_LENGTH_0" and "m_payload_first_part p"
    and "length (b # bs) \<le> str_max_size"
  shows "collect_all client_vtable (encode_message s (b # bs)) (p, COMMAND_PHASE, out) = Inl e \<longleftrightarrow>
           (if is_valid (command_of_byte b) \<and> s \<noteq> 0 then e = Runtime_error ''BAD packet''
            else has_sql_field (command_of_byte b) \<and> 671088601 < length (b # bs) \<and> e = Length_error)"
proof (cases "is_valid (command_of_byte b) \<and> s \<noteq> 0")
  case True
  then show ?thesis
    using client_bad_message [OF assms(1,2), of b s bs out] by (auto simp: bad_packet_def)
next
  case valid: False
  show ?thesis
  proof (cases "length (b # bs) \<le> message_bound (command_of_byte b)")
    case True
    then show ?thesis
      using client_message_general [OF assms(1,2) True valid, of out] valid
      by (auto simp: message_bound_def statement_bound_def split: if_splits)
  next
    case False
    then have long: "has_sql_field (command_of_byte b)" "statement_bound < length (b # bs)"
      using assms(3) by (auto simp: message_bound_def split: if_splits)
    from client_message_fails [OF assms(1,2) this valid, of out] show ?thesis
      using valid long by (auto simp: statement_bound_def)
  qed
qed

theorem client_bad_packet_iff_witness:
  "collect_all client_vtable (encode_message 1 [10]) (new_FromClientPacket, COMMAND_PHASE, []) =
     Inl (Runtime_error ''BAD packet'') \<and>
   collect_all client_vtable (encode_message 0 (3 # replicate 671088601 65))
     (new_FromClientPacket, COMMAND_PHASE, []) = Inl Length_error"
proof -
  have "is_valid (command_of_byte 10)" "has_sql_field (command_of_byte 3)"
    by (simp_all add: command_of_byte_def command_table_def)
  moreover have "length [10 :: u8] \<le> str_max_size"
    "length (3 # replicate 671088601 (65 :: u8)) \<le> str_max_size"
    "671088601 < length (3 # replicate 671088601 (65 :: u8))"
    by (simp_all only: length_Cons length_replicate list.size str_max_size_def)
  ultimately show ?thesis
    using client_bad_packet_iff [of new_FromClientPacket 10 "[]" 1 "[]" "Runtime_error ''BAD packet''"]
      client_bad_packet_iff [of new_FromClientPacket 3 "replicate 671088601 65" 0 "[]" Length_error]
    by (simp del: length_Cons length_replicate)
qed

text \<open>
  C12. Robustness of the collector against arbitrary input: whatever bytes the client sends in
  the connection phase and then in the command phase, well formed or not, the collector
  throws nothing but the deliberate \<open>BAD packet\<close>, or, after a text of 40 full packets has been
  collected, \<open>length_error\<close>. In particular the request \<open>m_payload_length - 1\<close> never wraps around.
\<close>

theorem client_stream_faults:
  assumes "collect_all client_vtable as (new_FromClientPacket, CONNECTION_PHASE, []) =
             Inr (p, CONNECTION_PHASE, [])"
    and "collect_all client_vtable bs (p, COMMAND_PHASE, []) = Inl e"
  shows "e = Runtime_error ''BAD packet'' \<or>
         e = Length_error \<and>
           (\<exists>bs1 bs2 q. bs = bs1 @ bs2 \<and>
              collect_all client_vtable bs1 (p, COMMAND_PHASE, []) = Inr (q, COMMAND_PHASE, []) \<and>
              671088599 \<le> length (get_sql_string q))"
proof -
  have "client_ok CONNECTION_PHASE p"
    using client_collect_all_ok [OF client_ok_new, of as "[]"] assms(1) by simp
  then have "client_ok COMMAND_PHASE p" by (rule client_ok_command_phase)
  from client_collect_all_fault [OF this assms(2)] show ?thesis
    by (auto simp: bad_packet_def too_long_def statement_bound_def)
qed

theorem client_stream_faults_witness:
  "\<exists>e. collect_all client_vtable [1, 0, 0, 7, 3] (new_FromClientPacket, COMMAND_PHASE, []) = Inl e \<and>
       e = Runtime_error ''BAD packet''"
proof -
  have none: "collect_all client_vtable [] (new_FromClientPacket, CONNECTION_PHASE, []) =
      Inr (new_FromClientPacket, CONNECTION_PHASE, [])"
    by simp
  have fault: "collect_all client_vtable [1, 0, 0, 7, 3] (new_FromClientPacket, COMMAND_PHASE, []) =
      Inl bad_packet"
    by (simp add: collect_all_Cons collect_defs Let_def shift_byte_def MAX_PAYLOAD_LENGTH_def
        client_defs command_of_byte_def command_table_def)
  from client_stream_faults [OF none fault] fault show ?thesis by (auto simp: bad_packet_def)
qed





text \<open>
  C33. A defect of the collector. After an SQL message whose last packet is empty (a payload of
  a multiple of 2^24-1 bytes), \<open>m_sql_data_receiving\<close> stays set, because the branch for a
  zero length does not call \<open>data_is_received\<close>. The next command, although it has no SQL
  field, is then decoded with its binary arguments as its SQL text.
\<close>

theorem client_stale_receiving:
  assumes "m_packet_state p = PAYLOAD_LENGTH_0" and "m_payload_first_part p"
    and "length (b1 # bs1) \<le> message_bound (command_of_byte b1)"
    and "length (b2 # bs2) \<le> message_bound (command_of_byte b2)"
    and "has_sql_field (command_of_byte b1)" and "length (b1 # bs1) mod 16777215 = 0"
    and "\<not> has_sql_field (command_of_byte b2)"
  shows "\<exists>p'. collect_all client_vtable
                (encode_message 0 (b1 # bs1) @ encode_message 0 (b2 # bs2)) (p, COMMAND_PHASE, out) =
                Inr (p', COMMAND_PHASE, out) \<and>
           is_received p' \<and> m_command p' = command_of_byte b2 \<and>
           map byte_of_char (get_sql_string p') = bs2"
proof -
  have valid: "\<not> (is_valid (command_of_byte b) \<and> (0 :: u8) \<noteq> 0)" for b by simp
  from client_message_general [OF assms(1,2,3) valid, of out] assms(5,6)
  obtain p1 where p1: "collect_all client_vtable (encode_message 0 (b1 # bs1)) (p, COMMAND_PHASE, out) =
      Inr (p1, COMMAND_PHASE, out)" "m_packet_state p1 = PAYLOAD_LENGTH_0"
    "m_payload_first_part p1" "m_sql_data_receiving p1"
    unfolding last_length_def by auto
  from client_message_general [OF p1(2,3) assms(4) valid, of out] show ?thesis
    using p1(1,4) by (auto simp: collect_all_append is_received_def)
qed

theorem client_stale_receiving_witness:
  "\<exists>p'. collect_all client_vtable
          (encode_message 0 (3 # replicate 16777214 65) @ encode_message 0 [23, 1, 0])
          (new_FromClientPacket, COMMAND_PHASE, []) = Inr (p', COMMAND_PHASE, []) \<and>
        m_command p' = COM_STMT_EXECUTE \<and> map byte_of_char (get_sql_string p') = [1, 0]"
proof -
  have cmd: "command_of_byte 3 = COM_QUERY" "command_of_byte 23 = COM_STMT_EXECUTE"
    by (simp_all add: command_of_byte_def command_table_def)
  have "length (3 # replicate 16777214 (65 :: u8)) \<le> message_bound (command_of_byte 3)"
    and "length [23 :: u8, 1, 0] \<le> message_bound (command_of_byte 23)"
    unfolding cmd message_bound_def statement_bound_def str_max_size_def
    by (simp_all only: length_Cons length_replicate list.size has_sql_field.simps if_True if_False)
  from client_stale_receiving [of new_FromClientPacket, OF _ _ this, of "[]"] show ?thesis
    using cmd by (auto simp only: length_Cons length_replicate new_FromClientPacket_fields
        has_sql_field.simps simp_thms) (auto simp: cmd)
qed

text \<open>
  Nothing of the connection phase is kept: as long as the connection is in that phase, a
  fresh client packet takes any bytes without a fault and has neither a command name nor an
  SQL text, so the credentials exchanged there can never be logged.
\<close>

theorem client_connection_phase_silent:
  "\<exists>p'. collect_all client_vtable bs (new_FromClientPacket, CONNECTION_PHASE, out) =
          Inr (p', CONNECTION_PHASE, out) \<and>
        get_command_string p' = [] \<and> \<not> has_sql_string p'"
  using client_silent_collect_all [OF client_silent_new, of bs out]
  by (auto simp: client_silent_def get_command_string_def has_sql_string_def str_empty_def)

text \<open>
  C18. \<open>is_received\<close> delimits the messages of the client: while the bytes of a message arrive
  one by one, it is false after every proper prefix and true after the last byte.
\<close>

theorem client_received_iff:
  assumes "m_packet_state p = PAYLOAD_LENGTH_0" and "0 < k" and "k \<le> length (encode_message s pl)"
    and "collect_all client_vtable (take k (encode_message s pl)) (p, cs, out) = Inr (p', cs', out')"
  shows "is_received p' \<longleftrightarrow> k = length (encode_message s pl)"
  using assms by (rule client.received_iff_complete)

theorem client_received_iff_witness:
  "\<exists>p'. collect_all client_vtable (take 5 (encode_message 0 [14])) (new_FromClientPacket, COMMAND_PHASE, []) =
          Inr (p', COMMAND_PHASE, []) \<and> is_received p'"
proof -
  have bound: "length [14 :: u8] \<le> message_bound (command_of_byte 14)"
    by (simp add: message_bound_def statement_bound_def str_max_size_def)
  have valid: "\<not> (is_valid (command_of_byte 14) \<and> (0 :: u8) \<noteq> 0)" by simp
  have len: "length (encode_message 0 [14]) = 5" by (simp add: encode_message_short)
  obtain p' where p': "collect_all client_vtable (take 5 (encode_message 0 [14]))
      (new_FromClientPacket, COMMAND_PHASE, []) = Inr (p', COMMAND_PHASE, [])"
    using client_message_general [OF _ _ bound valid, of new_FromClientPacket "[]"] len by auto
  then show ?thesis using client_received_iff [OF _ _ _ p'] len by auto
qed

end
