(* ===== verification/Response.thy ===== *)
theory Response
  imports Prelude
begin

text \<open>
  The responses of the MySQL server (\<open>MySqlResponse\<close> of packet.hpp and packet.cpp): the
  classification of the first payload byte, together with the payload length, that decides
  when the connection phase is over.
\<close>

text \<open>
  \<open>Response\<close> has the underlying type \<open>unsigned char\<close>: a byte without an enumerator is
  \<open>Unlisted_response\<close>.
\<close>

datatype Response =
    OK_PACKET
  | EOF_PACKET
  | ERR_PACKET
  | OTHER_PACKET
  | Unlisted_response u8

definition response_of_byte :: "u8 \<Rightarrow> Response" where
  "response_of_byte b =
     (if b = 0x00 then OK_PACKET
      else if b = 0xFE then EOF_PACKET
      else if b = 0xFF then ERR_PACKET
      else if b = 0x01 then OTHER_PACKET
      else Unlisted_response b)"

definition get_response :: "u8 \<Rightarrow> u64 \<Rightarrow> Response" where
  "get_response t_payload_0 t_payload_length =
     (case response_of_byte t_payload_0 of
        OK_PACKET \<Rightarrow> if 3 < t_payload_length then OK_PACKET else OTHER_PACKET
      | EOF_PACKET \<Rightarrow> if t_payload_length < 5 then EOF_PACKET else OTHER_PACKET
      | ERR_PACKET \<Rightarrow> ERR_PACKET
      | OTHER_PACKET \<Rightarrow> OTHER_PACKET
      | Unlisted_response _ \<Rightarrow> OTHER_PACKET)"

lemma get_response_OK_iff:
  "get_response b n = OK_PACKET \<longleftrightarrow> b = 0 \<and> 3 < unat n"
proof -
  have "3 < n \<longleftrightarrow> 3 < unat n" by (simp add: word_less_nat_alt)
  then show ?thesis by (simp add: get_response_def response_of_byte_def)
qed

lemma get_response_EOF_iff:
  "get_response b n = EOF_PACKET \<longleftrightarrow> b = 0xFE \<and> unat n < 5"
proof -
  have "n < 5 \<longleftrightarrow> unat n < 5" by (simp add: word_less_nat_alt)
  then show ?thesis by (simp add: get_response_def response_of_byte_def)
qed

lemma get_response_ERR_iff: "get_response b n = ERR_PACKET \<longleftrightarrow> b = 0xFF"
  by (simp add: get_response_def response_of_byte_def)

text \<open>
  Classification of a server response on every branch, in terms of the length of the
  whole packet on the wire (payload plus the four header bytes): an OK packet starts with
  0x00 and is longer than 7 bytes, an EOF packet starts with 0xFE and is shorter than 9,
  0xFF is an error packet of any length, everything else is \<open>OTHER_PACKET\<close>; a value
  without an enumerator is never returned.
\<close>

theorem get_response_spec:
  "get_response b n =
     (if b = 0x00 \<and> 7 < unat n + 4 then OK_PACKET
      else if b = 0xFE \<and> unat n + 4 < 9 then EOF_PACKET
      else if b = 0xFF then ERR_PACKET
      else OTHER_PACKET)"
proof -
  have "3 < n \<longleftrightarrow> 3 < unat n" and "n < 5 \<longleftrightarrow> unat n < 5"
    by (simp_all add: word_less_nat_alt)
  then show ?thesis by (auto simp: get_response_def response_of_byte_def)
qed

end
