(* ===== verification/Server_Packet.thy ===== *)
theory Server_Packet
  imports Framing Response
begin

text \<open>
  \<open>FromServerPacket\<close> of packet.hpp and packet.cpp: the packets from the server, used only to
  see the end of the connection phase. The class adds no data to \<open>MySqlPacket\<close>. Shown: it
  keeps the contract of the collector, it never throws, and after any sequence of messages
  the phase is the command phase exactly when one of them began with an OK packet.
\<close>

type_synonym FromServerPacket = MySqlPacket

definition new_FromServerPacket :: FromServerPacket where
  "new_FromServerPacket = new_MySqlPacket"

definition err_line :: string where
  "err_line = ''Server response: ERR_Packet'' @ [CHR 0x0A]"

definition server_connection_phase_parse ::
  "u8 \<Rightarrow> FromServerPacket \<times> MySqlConnectionState \<times> string \<Rightarrow>
     FromServerPacket \<times> MySqlConnectionState \<times> string" where
  "server_connection_phase_parse t_payload_0 ctx =
     (case ctx of (p, cs, out) \<Rightarrow>
        if m_payload_first_part p then
          (case get_response t_payload_0 (m_payload_length p) of
             OK_PACKET \<Rightarrow> (p, COMMAND_PHASE, out)
           | EOF_PACKET \<Rightarrow> (p, cs, out)
           | ERR_PACKET \<Rightarrow> (p, cs, out @ err_line)
           | OTHER_PACKET \<Rightarrow> (p, cs, out)
           | Unlisted_response _ \<Rightarrow> (p, cs, out))
        else (p, cs, out))"

definition server_command_phase_parse :: "u8 \<Rightarrow> FromServerPacket \<Rightarrow> FromServerPacket result" where
  "server_command_phase_parse t_payload_0 p = Inr p"

definition server_collect_data :: "u8 \<Rightarrow> FromServerPacket \<Rightarrow> FromServerPacket result" where
  "server_collect_data t_received_byte p = Inr p"

definition server_data_is_received :: "FromServerPacket \<Rightarrow> FromServerPacket" where
  "server_data_is_received p = p"

definition server_vtable :: "FromServerPacket packet_vtable" where
  "server_vtable =
     \<lparr>v_connection_phase_parse = server_connection_phase_parse,
      v_command_phase_parse = server_command_phase_parse,
      v_collect_data = server_collect_data,
      v_data_is_received = server_data_is_received\<rparr>"

lemma server_vtable_simps [simp]:
  "v_connection_phase_parse server_vtable = server_connection_phase_parse"
  "v_command_phase_parse server_vtable = server_command_phase_parse"
  "v_collect_data server_vtable = server_collect_data"
  "v_data_is_received server_vtable = server_data_is_received"
  by (simp_all add: server_vtable_def)

lemmas server_defs = server_connection_phase_parse_def server_command_phase_parse_def
  server_collect_data_def server_data_is_received_def

interpretation server: packet_body server_vtable
  by unfold_locales (auto simp: server_defs split: if_splits Response.splits)

section \<open>The server packet never throws\<close>

lemma server_collect_total: "\<exists>p' cs' out'. collect server_vtable b (p, cs, out) = Inr (p', cs', out')"
  by (cases "m_packet_state p"; cases cs)
    (auto simp: collect_def analyse_first_byte_def server_defs Let_def
      split: if_splits Response.splits prod.splits)

lemma server_collect_all_total:
  "\<exists>p' cs' out'. collect_all server_vtable bs (p, cs, out) = Inr (p', cs', out')"
proof (induction bs arbitrary: p cs out)
  case Nil
  show ?case by simp
next
  case (Cons b bs)
  obtain p1 cs1 out1 where "collect server_vtable b (p, cs, out) = Inr (p1, cs1, out1)"
    using server_collect_total by blast
  then show ?case using Cons.IH by (simp add: collect_all_Cons)
qed

lemma server_command_phase:
  "\<exists>p'. collect_all server_vtable bs (p, COMMAND_PHASE, out) = Inr (p', COMMAND_PHASE, out)"
proof (induction bs arbitrary: p)
  case Nil
  show ?case by simp
next
  case (Cons b bs)
  have "\<exists>p'. collect server_vtable b (p, COMMAND_PHASE, out) = Inr (p', COMMAND_PHASE, out)"
    by (cases "m_packet_state p") (auto simp: collect_defs server_defs Let_def)
  then show ?case using Cons.IH by (auto simp: collect_all_Cons)
qed

section \<open>The end of the connection phase\<close>

text \<open>What the first byte of a message does to the phase and to standard output.\<close>

definition phase_after :: "u8 list \<Rightarrow> MySqlConnectionState \<Rightarrow> MySqlConnectionState" where
  "phase_after pl cs =
     (if cs = CONNECTION_PHASE \<and> pl \<noteq> [] \<and> hd pl = 0 \<and> 3 < length pl then COMMAND_PHASE else cs)"

definition output_after :: "u8 list \<Rightarrow> MySqlConnectionState \<Rightarrow> string \<Rightarrow> string" where
  "output_after pl cs out =
     (if cs = CONNECTION_PHASE \<and> pl \<noteq> [] \<and> hd pl = 0xFF then out @ err_line else out)"

lemma server_data_all: "fold_res (v_collect_data server_vtable) bs p = Inr p"
  by (induction bs) (simp_all add: server_defs)

lemma server_packet:
  assumes "m_packet_state p = PAYLOAD_LENGTH_0" and "length (b # bs) \<le> full_length"
  shows "\<exists>p'. collect_all server_vtable (encode_packet s (b # bs)) (p, cs, out) =
           Inr (p', (if m_payload_first_part p then phase_after (b # bs) cs else cs),
                (if m_payload_first_part p then output_after (b # bs) cs out else out)) \<and>
         m_packet_state p' = PAYLOAD_LENGTH_0 \<and>
         m_payload_first_part p' = (length (b # bs) \<noteq> full_length)"
proof -
  define n where "n = length (b # bs)"
  define h where "h = after_header n s p"
  have n: "0 < n" "n \<le> full_length" using assms(2) by (simp_all add: n_def)
  have len: "length bs = n - 1" by (simp add: n_def)
  have h: "m_payload_first_part h = m_payload_first_part p" "m_received_bytes h = 0"
    "m_payload_length h = word_of_nat n" "m_payload_not_ended h = (n = full_length)"
    using n by (simp_all add: h_def after_header_def)
  have un: "unat (m_payload_length h) = n"
    unfolding h using n(2) by (rule unat_word_of_nat_u64)
  let ?cs = "if m_payload_first_part p then phase_after (b # bs) cs else cs"
  let ?out = "if m_payload_first_part p then output_after (b # bs) cs out else out"
  have "analyse_first_byte server_vtable b (h, cs, out) = Inr (h, ?cs, ?out)"
    using h(1,2) get_response_spec [of b "m_payload_length h", unfolded un] n
    by (cases cs)
      (auto simp: analyse_first_byte_def server_defs phase_after_def output_after_def len)
  then have "collect_all server_vtable (encode_packet s (b # bs)) (p, cs, out) =
      Inr (end_part server_vtable h, ?cs, ?out)"
    unfolding h_def n_def by (rule server.collect_packet [OF assms]) (rule server_data_all)
  then show ?thesis
    using h unfolding n_def [symmetric]
    by (intro exI [of _ "end_part server_vtable h"]) (simp add: end_part_def Let_def server_defs)
qed

text \<open>The packets that continue a message change neither the phase nor the output.\<close>

lemma server_rest:
  assumes "m_packet_state p = PAYLOAD_LENGTH_0" and "\<not> m_payload_first_part p"
  shows "\<exists>p'. collect_all server_vtable (encode_message s pl) (p, cs, out) = Inr (p', cs, out) \<and>
         m_packet_state p' = PAYLOAD_LENGTH_0 \<and> m_payload_first_part p'"
  using assms
proof (induction s pl arbitrary: p rule: encode_message.induct)
  case (1 s pl)
  show ?case
  proof (cases "length pl < full_length")
    case True
    show ?thesis
    proof (cases pl)
      case Nil
      then show ?thesis
        using "1.prems" by (simp add: encode_message_short server.collect_empty_packet after_header_def)
    next
      case (Cons b bs)
      then show ?thesis
        using server_packet [OF "1.prems"(1), of b bs s cs out] "1.prems"(2) True
        by (auto simp: encode_message_short)
    qed
  next
    case False
    then obtain b qs where len: "length (b # qs) = full_length"
      and pl: "pl = (b # qs) @ drop full_length pl"
      and enc: "encode_message s pl =
        encode_packet s (b # qs) @ encode_message (s + 1) (drop full_length pl)"
      and last: "last_length (drop full_length pl) = last_length pl"
      by (rule encode_message_split)
    from server_packet [OF "1.prems"(1), of b qs s cs out] len "1.prems"(2)
    obtain p1 where p1: "collect_all server_vtable (encode_packet s (b # qs)) (p, cs, out) = Inr (p1, cs, out)"
      "m_packet_state p1 = PAYLOAD_LENGTH_0" "\<not> m_payload_first_part p1"
      by auto
    show ?thesis
      using "1.IH" [OF False p1(2,3)] p1(1) by (simp add: enc collect_all_append)
  qed
qed

lemma server_message:
  assumes "m_packet_state p = PAYLOAD_LENGTH_0" and "m_payload_first_part p"
  shows "\<exists>p'. collect_all server_vtable (encode_message s pl) (p, cs, out) =
           Inr (p', phase_after pl cs, output_after pl cs out) \<and>
         m_packet_state p' = PAYLOAD_LENGTH_0 \<and> m_payload_first_part p'"
proof (cases "length pl < full_length")
  case True
  show ?thesis
  proof (cases pl)
    case Nil
    then show ?thesis
      using assms by (simp add: encode_message_short server.collect_empty_packet after_header_def
          phase_after_def output_after_def)
  next
    case (Cons b bs)
    then show ?thesis
      using server_packet [OF assms(1), of b bs s cs out] assms(2) True
      by (auto simp: encode_message_short)
  qed
next
  case False
  then obtain b qs where len: "length (b # qs) = full_length"
    and pl: "pl = (b # qs) @ drop full_length pl"
    and enc: "encode_message s pl =
      encode_packet s (b # qs) @ encode_message (s + 1) (drop full_length pl)"
    and last: "last_length (drop full_length pl) = last_length pl"
    by (rule encode_message_split)
  have "hd pl = b" and "pl \<noteq> []" using pl by (metis append_Cons list.sel(1), metis append_is_Nil_conv list.distinct(1))
  then have same: "phase_after (b # qs) cs = phase_after pl cs"
    "output_after (b # qs) cs out = output_after pl cs out"
    using len False by (simp_all add: phase_after_def output_after_def)
  from server_packet [OF assms(1), of b qs s cs out] len assms(2) same
  obtain p1 where p1: "collect_all server_vtable (encode_packet s (b # qs)) (p, cs, out) =
      Inr (p1, phase_after pl cs, output_after pl cs out)"
    "m_packet_state p1 = PAYLOAD_LENGTH_0" "\<not> m_payload_first_part p1"
    by auto
  show ?thesis
    using server_rest [OF p1(2,3)] p1(1) by (simp add: enc collect_all_append)
qed

text \<open>A sequence of messages, each with the sequence id its sender starts from.\<close>

definition encode_messages :: "(u8 \<times> u8 list) list \<Rightarrow> u8 list" where
  "encode_messages ms = concat (map (\<lambda>(s, pl). encode_message s pl) ms)"

lemma encode_messages_simps [simp]:
  "encode_messages [] = []"
  "encode_messages ((s, pl) # ms) = encode_message s pl @ encode_messages ms"
  by (simp_all add: encode_messages_def)

lemma server_messages:
  assumes "m_packet_state p = PAYLOAD_LENGTH_0" and "m_payload_first_part p"
  shows "\<exists>p' out'. collect_all server_vtable (encode_messages ms) (p, cs, out) =
           Inr (p', fold phase_after (map snd ms) cs, out') \<and>
         m_packet_state p' = PAYLOAD_LENGTH_0 \<and> m_payload_first_part p'"
  using assms
proof (induction ms arbitrary: p cs out)
  case Nil
  then show ?case by simp
next
  case (Cons m ms)
  obtain s pl where m: "m = (s, pl)" by (cases m)
  obtain p1 where p1: "collect_all server_vtable (encode_message s pl) (p, cs, out) =
      Inr (p1, phase_after pl cs, output_after pl cs out)"
    "m_packet_state p1 = PAYLOAD_LENGTH_0" "m_payload_first_part p1"
    using server_message [OF Cons.prems] by blast
  then show ?case
    using Cons.IH [OF p1(2,3), of "phase_after pl cs" "output_after pl cs out"]
    by (simp add: m collect_all_append)
qed

lemma fold_phase_after:
  "fold phase_after pls cs =
     (if cs = COMMAND_PHASE \<or> (\<exists>pl \<in> set pls. pl \<noteq> [] \<and> hd pl = 0 \<and> 3 < length pl)
      then COMMAND_PHASE else CONNECTION_PHASE)"
proof (induction pls arbitrary: cs)
  case Nil
  then show ?case by (cases cs) simp_all
next
  case (Cons pl pls)
  then show ?case by (cases cs) (auto simp: phase_after_def)
qed

section \<open>Properties\<close>

text \<open>
  C19. The end of the connection phase. Over any sequence of server messages, of any lengths
  and with any sequence ids, a fresh collector moves the connection into the command phase
  if and only if one of the messages starts with 0x00 and has a payload of more than three
  bytes (an OK packet); it never throws.
\<close>

theorem server_session_phase:
  "\<exists>p' cs' out'. collect_all server_vtable (encode_messages ms)
                   (new_FromServerPacket, CONNECTION_PHASE, out) = Inr (p', cs', out') \<and>
     (cs' = COMMAND_PHASE \<longleftrightarrow>
        (\<exists>pl \<in> snd ` set ms. pl \<noteq> [] \<and> hd pl = 0 \<and> 3 < length pl))"
proof -
  have "m_packet_state new_FromServerPacket = PAYLOAD_LENGTH_0"
    and "m_payload_first_part new_FromServerPacket"
    by (simp_all add: new_FromServerPacket_def new_MySqlPacket_def)
  from server_messages [OF this, of ms CONNECTION_PHASE out] show ?thesis
    by (auto simp: fold_phase_after)
qed

text \<open>
  The command phase is final and silent: in it, any bytes from the server are collected
  without a fault, leave the phase as it is and print nothing.
\<close>

theorem server_command_phase_final:
  "\<exists>p'. collect_all server_vtable bs (p, COMMAND_PHASE, out) = Inr (p', COMMAND_PHASE, out)"
  by (rule server_command_phase)

text \<open>
  C26. \<open>is_received\<close> delimits the messages of the server as well: false after every proper
  prefix of a message of any length, true after its last byte; this needs no assumption
  that the bytes were accepted, since the server packet never throws.
\<close>

theorem server_received_iff:
  assumes "m_packet_state p = PAYLOAD_LENGTH_0" and "0 < k" and "k \<le> length (encode_message s pl)"
  shows "\<exists>p' cs' out'. collect_all server_vtable (take k (encode_message s pl)) (p, cs, out) =
             Inr (p', cs', out') \<and> (is_received p' \<longleftrightarrow> k = length (encode_message s pl))"
proof -
  obtain p' cs' out' where run: "collect_all server_vtable (take k (encode_message s pl)) (p, cs, out) =
      Inr (p', cs', out')"
    using server_collect_all_total by blast
  then show ?thesis using server.received_iff_complete [OF assms run] by blast
qed

theorem server_received_iff_witness:
  "\<exists>p' cs' out'. collect_all server_vtable (take 3 (encode_message 0 [0, 0, 0, 2]))
       (new_FromServerPacket, CONNECTION_PHASE, []) = Inr (p', cs', out') \<and> \<not> is_received p'"
proof -
  have len: "length (encode_message 0 [0, 0, 0, 2]) = 8" by (simp add: encode_message_short)
  have "m_packet_state new_FromServerPacket = PAYLOAD_LENGTH_0"
    by (simp add: new_FromServerPacket_def new_MySqlPacket_def)
  from server_received_iff [OF this, of 3 0 "[0, 0, 0, 2]" CONNECTION_PHASE "[]"] len
  show ?thesis by auto
qed

end
