(* ===== verification/Packet_Logger.thy ===== *)
theory Packet_Logger
  imports Client_Packet Server_Packet
begin

text \<open>
  The packet logger (\<open>PacketLogger\<close> of packet_logger.hpp and packet_logger.cpp) over a model
  of the \<open>std::ofstream\<close> it writes to. Shown: the text a received client packet adds to the
  log, that packets from the server add nothing, that what was written reaches the file at
  the next flush, and that a log file that could not be opened loses everything silently.
  The locale \<open>packet_log\<close> is the interface the connections rely on.
\<close>

section \<open>The log file\<close>

text \<open>
  An output file stream: whether it can be written (\<open>good\<close>), what is buffered and what has
  reached the file. Writing to a stream whose open failed does nothing. An implementation
  may hand buffered text to the file before a flush; the model keeps the latest moment.
\<close>

record ofstream =
  ofs_good :: bool
  ofs_buffer :: string
  ofs_file :: string

definition ofs_open :: "bool \<Rightarrow> ofstream" where
  "ofs_open success = \<lparr>ofs_good = success, ofs_buffer = [], ofs_file = []\<rparr>"

definition ofs_write :: "string \<Rightarrow> ofstream \<Rightarrow> ofstream" where
  "ofs_write t f = (if ofs_good f then f\<lparr>ofs_buffer := ofs_buffer f @ t\<rparr> else f)"

definition ofs_flush :: "ofstream \<Rightarrow> ofstream" where
  "ofs_flush f =
     (if ofs_good f then f\<lparr>ofs_buffer := [], ofs_file := ofs_file f @ ofs_buffer f\<rparr> else f)"

section \<open>The logger\<close>

record PacketLogger =
  m_log_file :: ofstream

text \<open>The pointer to the base class that the logger receives, with its dynamic type.\<close>

datatype any_packet = Client_packet FromClientPacket | Server_packet FromServerPacket

fun as_client_packet :: "any_packet \<Rightarrow> FromClientPacket option" where
  "as_client_packet (Client_packet p) = Some p"
| "as_client_packet (Server_packet q) = None"

text \<open>The constructor opens the file; whether that succeeds is the file system's answer.\<close>

definition new_PacketLogger :: "bool \<Rightarrow> PacketLogger" where
  "new_PacketLogger success = \<lparr>m_log_file = ofs_open success\<rparr>"

definition log_out :: "string \<Rightarrow> PacketLogger \<Rightarrow> PacketLogger" where
  "log_out t l = l\<lparr>m_log_file := ofs_write t (m_log_file l)\<rparr>"

definition packet_logger :: "any_packet \<Rightarrow> bool \<Rightarrow> PacketLogger \<Rightarrow> PacketLogger" where
  "packet_logger t_packet t_from_client_to_server l =
     (if t_from_client_to_server then
        (case as_client_packet t_packet of
           None \<Rightarrow> l
         | Some client_packet \<Rightarrow>
             (let command_string = get_command_string client_packet in
              if command_string \<noteq> [] then
                (let l1 = log_out command_string l;
                     l2 = (if has_sql_string client_packet
                           then log_out (get_sql_string client_packet) (log_out '', SQL: '' l1)
                           else l1)
                 in log_out [CHR 0x0A] l2)
              else l))
      else l)"

definition logger_flush :: "PacketLogger \<Rightarrow> PacketLogger" where
  "logger_flush l = l\<lparr>m_log_file := ofs_flush (m_log_file l)\<rparr>"

section \<open>What is logged\<close>

definition log_text :: "PacketLogger \<Rightarrow> string" where
  "log_text l = ofs_file (m_log_file l) @ ofs_buffer (m_log_file l)"

definition log_good :: "PacketLogger \<Rightarrow> bool" where
  "log_good l = ofs_good (m_log_file l)"

text \<open>The line of a packet: the specification of the log format.\<close>

definition log_line :: "string \<Rightarrow> string \<Rightarrow> string" where
  "log_line command sql =
     (if command = [] then []
      else command @ (if sql = [] then [] else '', SQL: '' @ sql) @ [CHR 0x0A])"

lemma log_text_out: "log_good l \<Longrightarrow> log_text (log_out t l) = log_text l @ t"
  by (simp add: log_text_def log_good_def log_out_def ofs_write_def)

lemma log_good_out [simp]: "log_good (log_out t l) = log_good l"
  by (simp add: log_good_def log_out_def ofs_write_def)

lemma log_bad_out: "\<not> log_good l \<Longrightarrow> log_out t l = l"
  by (simp add: log_good_def log_out_def ofs_write_def)

lemma log_good_packet_logger [simp]: "log_good (packet_logger p b l) = log_good l"
  by (simp add: packet_logger_def Let_def split: option.split)

lemma log_bad_packet_logger: "\<not> log_good l \<Longrightarrow> packet_logger p b l = l"
  by (simp add: packet_logger_def log_bad_out Let_def split: option.split)

lemma log_text_packet_logger:
  assumes "log_good l"
  shows "log_text (packet_logger (Client_packet p) True l) =
           log_text l @ log_line (get_command_string p) (get_sql_string p)"
  using assms
  by (simp add: packet_logger_def Let_def log_text_out log_line_def has_sql_string_def
      get_sql_string_def)

lemma packet_logger_server: "packet_logger p False l = l"
  by (simp add: packet_logger_def)

lemma packet_logger_other: "packet_logger (Server_packet q) b l = l"
  by (simp add: packet_logger_def)

lemma log_text_flush [simp]: "log_text (logger_flush l) = log_text l"
  by (simp add: log_text_def logger_flush_def ofs_flush_def)

lemma log_good_flush [simp]: "log_good (logger_flush l) = log_good l"
  by (simp add: log_good_def logger_flush_def ofs_flush_def)

section \<open>The interface to the connections\<close>

text \<open>
  What a connection relies on: a received client packet appends its line to the text of the
  log, a packet from the server leaves the log as it is, and the log stays writable.
\<close>

locale packet_log =
  fixes log :: "any_packet \<Rightarrow> bool \<Rightarrow> 'l \<Rightarrow> 'l"
    and text_of :: "'l \<Rightarrow> string"
    and good :: "'l \<Rightarrow> bool"
  assumes text_client: "good l \<Longrightarrow>
      text_of (log (Client_packet c) True l) =
        text_of l @ log_line (get_command_string c) (get_sql_string c)"
    and good_log: "good (log p b l) = good l"
    and log_server: "log (Server_packet q) False l = l"

interpretation file_log: packet_log packet_logger log_text log_good
  by unfold_locales (simp_all add: log_text_packet_logger packet_logger_server)

section \<open>Properties\<close>

text \<open>
  C24. The effect of logging a packet, on every branch: nothing for a packet from the server,
  for a wrong dynamic type or for a command without a name; otherwise one line with the
  command's name, followed by the SQL text if there is one; the flush at the end of a
  connection brings all of it to the file.
\<close>

theorem packet_logger_file:
  assumes "log_good l" and "ofs_buffer (m_log_file l) = []"
  shows "ofs_file (m_log_file (logger_flush (packet_logger p from_client l))) =
           ofs_file (m_log_file l) @
             (case p of
                Client_packet c \<Rightarrow>
                  if from_client then log_line (get_command_string c) (get_sql_string c) else []
              | Server_packet _ \<Rightarrow> [])"
proof -
  have flushed: "ofs_file (m_log_file (logger_flush m)) = log_text m" if "log_good m" for m
    using that by (simp add: log_good_def logger_flush_def ofs_flush_def log_text_def)
  have "log_text l = ofs_file (m_log_file l)" using assms(2) by (simp add: log_text_def)
  then show ?thesis
    using assms(1)
    by (cases p; cases from_client)
      (simp_all add: flushed log_text_packet_logger packet_logger_server packet_logger_other)
qed

theorem packet_logger_file_witness:
  "ofs_file (m_log_file (logger_flush (packet_logger
      (Client_packet (new_FromClientPacket\<lparr>m_command := COM_PING\<rparr>)) True (new_PacketLogger True)))) =
   ''COM_PING'' @ [CHR 0x0A]"
proof -
  have "log_good (new_PacketLogger True)" "ofs_buffer (m_log_file (new_PacketLogger True)) = []"
    by (simp_all add: log_good_def new_PacketLogger_def ofs_open_def)
  from packet_logger_file [OF this, of "Client_packet (new_FromClientPacket\<lparr>m_command := COM_PING\<rparr>)" True]
  show ?thesis
    by (simp add: get_command_string_def get_sql_string_def log_line_def str_empty_def
        new_PacketLogger_def ofs_open_def)
qed

text \<open>
  A log file that cannot be opened is never noticed: the logger accepts every packet and
  every flush, and the file stays empty.
\<close>

theorem unopened_log_is_silent:
  "fold (\<lambda>(p, b). packet_logger p b) ps (new_PacketLogger False) = new_PacketLogger False \<and>
   logger_flush (new_PacketLogger False) = new_PacketLogger False"
proof -
  have bad: "\<not> log_good (new_PacketLogger False)"
    by (simp add: log_good_def new_PacketLogger_def ofs_open_def)
  have "fold (\<lambda>(p, b). packet_logger p b) ps (new_PacketLogger False) = new_PacketLogger False"
    by (induction ps) (auto simp: log_bad_packet_logger [OF bad])
  then show ?thesis
    by (simp add: logger_flush_def ofs_flush_def new_PacketLogger_def ofs_open_def)
qed

end
