(* ===== verification/Connection.thy ===== *)
theory Connection
  imports Packet_Logger
begin

text \<open>
  One proxied connection (\<open>Connection\<close> of connection.hpp and connection.cpp). Boost.Asio is a
  parameter: the results of its synchronous calls are the argument \<open>asio_calls\<close>, the results
  of its asynchronous operations are the arguments of the completion handlers, and the
  operations a function starts are returned as a list of \<open>async_op\<close>. The logger is the
  functor argument. Shown: bytes are forwarded unchanged in both directions under any
  interleaving, which lines are logged (and which are lost), which faults are possible.
\<close>

section \<open>Boost.Asio as the code sees it\<close>

datatype ConnectionPtr = Connection_ptr nat

record endpoint =
  ep_address :: string
  ep_port :: "16 word"

text \<open>
  What a completion handler is given, with the one value the code tells apart from the other
  errors.
\<close>

datatype error_code = No_error | Operation_aborted | Other_error int

text \<open>
  The synchronous calls: \<open>open\<close> and \<open>close\<close> succeed (\<open>None\<close>) or throw a \<open>system_error\<close> with a
  code; \<open>send\<close> throws (\<open>Inl\<close>) or says how many bytes it transmitted (\<open>Inr\<close>). \<open>net_close\<close> is
  asked for a socket of a connection, \<open>True\<close> for the client's.
\<close>

record asio_calls =
  net_open :: "int option"
  net_send :: "u8 list \<Rightarrow> int + nat"
  net_close :: "ConnectionPtr \<Rightarrow> bool \<Rightarrow> int option"

text \<open>A \<open>send\<close> that transmits everything it is given.\<close>

definition sends_all :: "asio_calls \<Rightarrow> bool" where
  "sends_all net \<longleftrightarrow> (\<forall>bs. net_send net bs = Inr (length bs))"

definition socket_check :: "int option \<Rightarrow> unit result" where
  "socket_check r = (case r of None \<Rightarrow> Inr () | Some e \<Rightarrow> Inl (System_error e))"

text \<open>A socket: whether it is open, and the bytes that were transmitted through it.\<close>

record socket =
  sock_open :: bool
  sock_sent :: "u8 list"

definition socket_send :: "asio_calls \<Rightarrow> u8 list \<Rightarrow> socket \<Rightarrow> socket result" where
  "socket_send net bs s =
     (case net_send net bs of
        Inl e \<Rightarrow> Inl (System_error e)
      | Inr n \<Rightarrow> Inr (s\<lparr>sock_sent := sock_sent s @ take n bs\<rparr>))"

text \<open>
  The asynchronous operations the class starts, named by the handler they were given: the
  connect of \<open>do_connect\<close>, the two receives of \<open>do_receive\<close>, the reads of \<open>do_transfer\<close>
  (\<open>True\<close>: on the client's socket).
\<close>

datatype async_op =
    Async_connect endpoint
  | Async_receive bool
  | Async_read_some bool

section \<open>State\<close>

definition BUFFER_LENGTH :: nat where
  "BUFFER_LENGTH = 8192"

record Connection =
  m_client_socket :: socket
  m_server_endpoint :: endpoint
  m_server_socket :: socket
  m_client_buffer :: "u8 list"
  m_server_buffer :: "u8 list"
  m_connection_state :: MySqlConnectionState
  m_client_packet :: FromClientPacket
  m_server_packet :: FromServerPacket

type_synonym 'l log_func = "(any_packet \<Rightarrow> bool \<Rightarrow> 'l \<Rightarrow> 'l) option"

text \<open>A connection together with the state of the logger and the text of standard output.\<close>

type_synonym 'l conn_ctx = "Connection \<times> 'l \<times> string"

definition new_Connection :: "socket \<Rightarrow> endpoint \<Rightarrow> Connection" where
  "new_Connection t_client_socket t_server_endpoint =
     \<lparr>m_client_socket = t_client_socket, m_server_endpoint = t_server_endpoint,
      m_server_socket = \<lparr>sock_open = False, sock_sent = []\<rparr>,
      m_client_buffer = replicate BUFFER_LENGTH 0, m_server_buffer = replicate BUFFER_LENGTH 0,
      m_connection_state = CONNECTION_PHASE,
      m_client_packet = new_FromClientPacket, m_server_packet = new_FromServerPacket\<rparr>"

section \<open>Operations\<close>

definition connection_stop :: "(bool \<Rightarrow> int option) \<Rightarrow> Connection \<Rightarrow> Connection result" where
  "connection_stop close c =
     bind_res (socket_check (close True)) (\<lambda>_.
     bind_res (socket_check (close False)) (\<lambda>_.
     Inr (c\<lparr>m_client_socket := (m_client_socket c)\<lparr>sock_open := False\<rparr>,
            m_server_socket := (m_server_socket c)\<lparr>sock_open := False\<rparr>\<rparr>)))"

definition do_connect :: "asio_calls \<Rightarrow> Connection \<Rightarrow> (Connection \<times> async_op list) result" where
  "do_connect net c =
     bind_res (socket_check (net_open net)) (\<lambda>_.
     Inr (c\<lparr>m_server_socket := (m_server_socket c)\<lparr>sock_open := True\<rparr>\<rparr>,
          [Async_connect (m_server_endpoint c)]))"

definition connection_start :: "asio_calls \<Rightarrow> Connection \<Rightarrow> (Connection \<times> async_op list) result" where
  "connection_start net c = do_connect net c"

definition do_receive :: "Connection \<Rightarrow> Connection \<times> async_op list" where
  "do_receive c = (c, [Async_receive True, Async_receive False])"

text \<open>The arguments of \<open>do_transfer\<close> that go with the direction.\<close>

definition read_buffer :: "bool \<Rightarrow> Connection \<Rightarrow> u8 list" where
  "read_buffer from_client c = (if from_client then m_client_buffer c else m_server_buffer c)"

definition send_to_socket :: "bool \<Rightarrow> Connection \<Rightarrow> socket" where
  "send_to_socket from_client c = (if from_client then m_server_socket c else m_client_socket c)"

definition set_send_to_socket :: "bool \<Rightarrow> socket \<Rightarrow> Connection \<Rightarrow> Connection" where
  "set_send_to_socket from_client s c =
     (if from_client then c\<lparr>m_server_socket := s\<rparr> else c\<lparr>m_client_socket := s\<rparr>)"

text \<open>
  The collection loop of \<open>do_packet_logging\<close> over the received bytes, for the packet of the
  direction; both packets share the connection state.
\<close>

definition collect_chunk :: "bool \<Rightarrow> u8 list \<Rightarrow> Connection \<times> string \<Rightarrow> (Connection \<times> string) result" where
  "collect_chunk from_client bs ctx =
     (case ctx of (c, out) \<Rightarrow>
        if from_client then
          bind_res (collect_all client_vtable bs (m_client_packet c, m_connection_state c, out))
            (\<lambda>(p, cs, out'). Inr (c\<lparr>m_client_packet := p, m_connection_state := cs\<rparr>, out'))
        else
          bind_res (collect_all server_vtable bs (m_server_packet c, m_connection_state c, out))
            (\<lambda>(p, cs, out'). Inr (c\<lparr>m_server_packet := p, m_connection_state := cs\<rparr>, out')))"

definition packet_of :: "bool \<Rightarrow> Connection \<Rightarrow> any_packet" where
  "packet_of from_client c =
     (if from_client then Client_packet (m_client_packet c) else Server_packet (m_server_packet c))"

definition packet_received :: "bool \<Rightarrow> Connection \<Rightarrow> bool" where
  "packet_received from_client c =
     (if from_client then is_received (m_client_packet c) else is_received (m_server_packet c))"

definition do_packet_logging ::
  "'l log_func \<Rightarrow> bool \<Rightarrow> nat \<Rightarrow> 'l conn_ctx \<Rightarrow> 'l conn_ctx result" where
  "do_packet_logging log_func from_client n ctx =
     (case ctx of (c, l, out) \<Rightarrow>
        if length (read_buffer from_client c) < n then Inl Undefined_behaviour
        else
          bind_res (collect_chunk from_client (take n (read_buffer from_client c)) (c, out))
            (\<lambda>(c', out').
               Inr (c',
                    (if packet_received from_client c' then
                       (case log_func of
                          None \<Rightarrow> l
                        | Some f \<Rightarrow> f (packet_of from_client c') from_client l)
                     else l),
                    out')))"

definition do_transfer ::
  "asio_calls \<Rightarrow> 'l log_func \<Rightarrow> bool \<Rightarrow> nat \<Rightarrow> 'l conn_ctx \<Rightarrow> ('l conn_ctx \<times> async_op list) result" where
  "do_transfer net log_func from_client n ctx =
     bind_res (do_packet_logging log_func from_client n ctx) (\<lambda>(c, l, out).
     bind_res (socket_send net (take n (read_buffer from_client c)) (send_to_socket from_client c))
       (\<lambda>s. Inr ((set_send_to_socket from_client s c, l, out), [Async_read_some from_client])))"

text \<open>
  The completion handlers. \<open>deliver\<close> is what Asio does before a successful read completes: it
  stores the received bytes at the front of the buffer the operation was given. The third
  component of a result is \<open>True\<close> when the handler calls \<open>m_stop_transfer_func\<close>, its last
  action.
\<close>

definition deliver :: "bool \<Rightarrow> u8 list \<Rightarrow> Connection \<Rightarrow> Connection" where
  "deliver from_client bs c =
     (if from_client then c\<lparr>m_client_buffer := bs @ drop (length bs) (m_client_buffer c)\<rparr>
      else c\<lparr>m_server_buffer := bs @ drop (length bs) (m_server_buffer c)\<rparr>)"

definition on_connect :: "error_code \<Rightarrow> Connection \<Rightarrow> Connection \<times> async_op list" where
  "on_connect l_error c = (if l_error = No_error then do_receive c else (c, []))"

definition on_receive ::
  "asio_calls \<Rightarrow> 'l log_func \<Rightarrow> bool \<Rightarrow> error_code \<Rightarrow> nat \<Rightarrow> 'l conn_ctx \<Rightarrow>
     ('l conn_ctx \<times> async_op list) result" where
  "on_receive net log_func from_client l_error n ctx =
     (if l_error = No_error then do_transfer net log_func from_client n ctx else Inr (ctx, []))"

definition on_read_some ::
  "asio_calls \<Rightarrow> 'l log_func \<Rightarrow> bool \<Rightarrow> error_code \<Rightarrow> nat \<Rightarrow> 'l conn_ctx \<Rightarrow>
     ('l conn_ctx \<times> async_op list \<times> bool) result" where
  "on_read_some net log_func from_client l_error n ctx =
     (if l_error = No_error then
        bind_res (do_transfer net log_func from_client n ctx)
          (\<lambda>(ctx', ops). Inr (ctx', ops, False))
      else if l_error \<noteq> Operation_aborted then Inr (ctx, [], True)
      else Inr (ctx, [], False))"

section \<open>One chunk of received bytes\<close>

text \<open>Delivery of a chunk and its transfer, for runs over the chunks of a connection.\<close>

definition conn_feed ::
  "'l log_func \<Rightarrow> asio_calls \<times> bool \<times> u8 list \<Rightarrow> 'l conn_ctx \<Rightarrow> 'l conn_ctx result" where
  "conn_feed log_func ev ctx =
     (case (ev, ctx) of ((net, from_client, bs), (c, l, out)) \<Rightarrow>
        bind_res (do_transfer net log_func from_client (length bs) (deliver from_client bs c, l, out))
          (\<lambda>(ctx', ops). Inr ctx'))"

definition buffers_ok :: "Connection \<Rightarrow> bool" where
  "buffers_ok c \<longleftrightarrow>
     length (m_client_buffer c) = BUFFER_LENGTH \<and> length (m_server_buffer c) = BUFFER_LENGTH"

lemma buffers_ok_new: "buffers_ok (new_Connection s ep)"
  by (simp add: buffers_ok_def new_Connection_def)

lemma buffers_ok_deliver: "buffers_ok c \<Longrightarrow> length bs \<le> BUFFER_LENGTH \<Longrightarrow> buffers_ok (deliver b bs c)"
  by (simp add: buffers_ok_def deliver_def)

lemma take_delivered [simp]: "take (length bs) (read_buffer b (deliver b bs c)) = bs"
  by (simp add: read_buffer_def deliver_def)

lemma length_delivered [simp]: "\<not> length (read_buffer b (deliver b bs c)) < length bs"
  by (simp add: read_buffer_def deliver_def)

lemma deliver_fields [simp]:
  "m_client_packet (deliver b bs c) = m_client_packet c"
  "m_server_packet (deliver b bs c) = m_server_packet c"
  "m_connection_state (deliver b bs c) = m_connection_state c"
  "m_client_socket (deliver b bs c) = m_client_socket c"
  "m_server_socket (deliver b bs c) = m_server_socket c"
  by (simp_all add: deliver_def)

text \<open>Collection touches the packet of the direction and the phase, nothing else.\<close>

definition set_collected ::
  "bool \<Rightarrow> Connection \<Rightarrow> Connection \<Rightarrow> bool" where
  "set_collected b c c' \<longleftrightarrow>
     m_client_socket c' = m_client_socket c \<and> m_server_socket c' = m_server_socket c \<and>
     m_client_buffer c' = m_client_buffer c \<and> m_server_buffer c' = m_server_buffer c \<and>
     m_server_endpoint c' = m_server_endpoint c \<and>
     (if b then m_server_packet c' = m_server_packet c else m_client_packet c' = m_client_packet c)"

lemma collect_chunk_frame:
  assumes "collect_chunk b bs (c, out) = Inr (c', out')"
  shows "set_collected b c c'"
  using assms by (cases b) (auto simp: collect_chunk_def set_collected_def bind_res_iffs)

text \<open>Collection is independent of the text already printed.\<close>

lemma collect_chunk_out:
  "collect_chunk b bs (c, out) =
     bind_res (collect_chunk b bs (c, [])) (\<lambda>(c', t). Inr (c', out @ t))"
proof (cases b)
  case True
  then show ?thesis
    using client.collect_all_out [of bs "m_client_packet c" "m_connection_state c" out]
    by (cases "collect_all client_vtable bs (m_client_packet c, m_connection_state c, [])")
      (auto simp: collect_chunk_def)
next
  case False
  then show ?thesis
    using server.collect_all_out [of bs "m_server_packet c" "m_connection_state c" out]
    by (cases "collect_all server_vtable bs (m_server_packet c, m_connection_state c, [])")
      (auto simp: collect_chunk_def)
qed

lemma collect_chunk_any_out:
  "collect_chunk b bs (c, out) = Inl e \<Longrightarrow> collect_chunk b bs (c, out2) = Inl e"
  "collect_chunk b bs (c, out) = Inr (c', out') \<Longrightarrow>
     \<exists>out2'. collect_chunk b bs (c, out2) = Inr (c', out2')"
  using collect_chunk_out [of b bs c out] collect_chunk_out [of b bs c out2]
  by (auto simp: bind_res_iffs)

lemma read_buffer_collected: "set_collected b c c' \<Longrightarrow> read_buffer b c' = read_buffer b c"
  by (simp add: set_collected_def read_buffer_def)

text \<open>The transfer of a delivered chunk: collect, log if a packet was completed, send.\<close>

lemma conn_feed_eq:
  "conn_feed log_func (net, b, bs) (c, l, out) =
     bind_res (collect_chunk b bs (deliver b bs c, out)) (\<lambda>(c1, out1).
     bind_res (socket_send net bs (send_to_socket b c1)) (\<lambda>s.
     Inr (set_send_to_socket b s c1,
          (if packet_received b c1 then
             (case log_func of None \<Rightarrow> l | Some f \<Rightarrow> f (packet_of b c1) b l) else l),
          out1)))"
proof (cases "collect_chunk b bs (deliver b bs c, out)")
  case (Inl e)
  then show ?thesis by (simp add: conn_feed_def do_transfer_def do_packet_logging_def)
next
  case (Inr x)
  obtain c1 out1 where x: "x = (c1, out1)" by (cases x)
  then have "read_buffer b c1 = read_buffer b (deliver b bs c)"
    using Inr by (intro read_buffer_collected collect_chunk_frame) simp
  then show ?thesis
    using Inr x by (cases "socket_send net bs (send_to_socket b c1)")
      (simp_all add: conn_feed_def do_transfer_def do_packet_logging_def)
qed

lemma conn_feed_Inr:
  assumes "conn_feed log_func (net, b, bs) (c, l, out) = Inr (c', l', out')"
  obtains c1 s where "collect_chunk b bs (deliver b bs c, out) = Inr (c1, out')"
    and "set_collected b (deliver b bs c) c1"
    and "socket_send net bs (send_to_socket b c) = Inr s"
    and "c' = set_send_to_socket b s c1"
    and "l' = (if packet_received b c1 then
                 (case log_func of None \<Rightarrow> l | Some f \<Rightarrow> f (packet_of b c1) b l) else l)"
proof -
  from assms obtain c1 out1 s where c1: "collect_chunk b bs (deliver b bs c, out) = Inr (c1, out1)"
    and s: "socket_send net bs (send_to_socket b c1) = Inr s"
    and eqs: "c' = set_send_to_socket b s c1" "out' = out1"
      "l' = (if packet_received b c1 then
               (case log_func of None \<Rightarrow> l | Some f \<Rightarrow> f (packet_of b c1) b l) else l)"
    by (auto simp: conn_feed_eq bind_res_eq_Inr)
  have frame: "set_collected b (deliver b bs c) c1" using c1 by (rule collect_chunk_frame)
  then have "send_to_socket b c1 = send_to_socket b c"
    by (simp add: set_collected_def send_to_socket_def)
  then show thesis using that [OF _ frame] c1 s eqs by simp
qed

section \<open>Forwarding\<close>

text \<open>The bytes transmitted to the server (\<open>True\<close>) and to the client (\<open>False\<close>).\<close>

definition sent_to :: "bool \<Rightarrow> Connection \<Rightarrow> u8 list" where
  "sent_to d c = sock_sent (send_to_socket d c)"

text \<open>The bytes received from one side in a sequence of chunks.\<close>

definition bytes_from :: "bool \<Rightarrow> (asio_calls \<times> bool \<times> u8 list) list \<Rightarrow> u8 list" where
  "bytes_from d evs = concat (map (\<lambda>(net, b, bs). if b = d then bs else []) evs)"

lemma bytes_from_Cons [simp]:
  "bytes_from d ((net, b, bs) # evs) = (if b = d then bs else []) @ bytes_from d evs"
  by (simp add: bytes_from_def)

lemma bytes_from_Nil [simp]: "bytes_from d [] = []"
  by (simp add: bytes_from_def)

lemma conn_feed_sent:
  assumes "conn_feed log_func (net, b, bs) (c, l, out) = Inr (c', l', out')" and "sends_all net"
  shows "sent_to d c' = sent_to d c @ (if b = d then bs else [])"
proof -
  from assms(1) obtain c1 s where "set_collected b (deliver b bs c) c1"
    and "socket_send net bs (send_to_socket b c) = Inr s" and "c' = set_send_to_socket b s c1"
    by (rule conn_feed_Inr)
  then show ?thesis
    using assms(2)
    by (cases b; cases d) (auto simp: set_collected_def socket_send_def sends_all_def sent_to_def
        send_to_socket_def set_send_to_socket_def)
qed

lemma conn_run_sent:
  assumes "fold_res (conn_feed log_func) evs (c, l, out) = Inr (c', l', out')"
    and "\<forall>ev \<in> set evs. sends_all (fst ev)"
  shows "sent_to d c' = sent_to d c @ bytes_from d evs"
  using assms
proof (induction evs arbitrary: c l out)
  case Nil
  then show ?case by simp
next
  case (Cons ev evs)
  obtain net b bs where ev: "ev = (net, b, bs)" by (cases ev)
  from Cons.prems(1) obtain c1 l1 out1
    where one: "conn_feed log_func (net, b, bs) (c, l, out) = Inr (c1, l1, out1)"
      and rest: "fold_res (conn_feed log_func) evs (c1, l1, out1) = Inr (c', l', out')"
    by (auto simp: ev bind_res_eq_Inr)
  have "sent_to d c1 = sent_to d c @ (if b = d then bs else [])"
    using one Cons.prems(2) by (intro conn_feed_sent) (auto simp: ev)
  then show ?case using Cons.IH [OF rest] Cons.prems(2) by (simp add: ev)
qed

section \<open>Faults\<close>

text \<open>What the packets of the client keep to, whatever the two sides send.\<close>

definition talk_ok :: "Connection \<Rightarrow> bool" where
  "talk_ok c \<longleftrightarrow> client_ok (m_connection_state c) (m_client_packet c)"

abbreviation client_text :: "Connection \<Rightarrow> string" where
  "client_text c \<equiv> get_sql_string (m_client_packet c)"

lemma talk_ok_new: "talk_ok (new_Connection sock ep)" "client_text (new_Connection sock ep) = []"
  by (simp_all add: talk_ok_def new_Connection_def client_ok_new get_sql_string_def str_empty_def)

lemma server_collect_all_phase:
  assumes "collect_all server_vtable bs (p, cs, out) = Inr (p', cs', out')"
  shows "cs = CONNECTION_PHASE \<or> cs' = cs"
  using assms server_command_phase [of bs p out] by (cases cs) auto

lemma conn_feed_faults:
  assumes "talk_ok c"
  shows "case conn_feed log_func (net, b, bs) (c, l, out) of
           Inl e \<Rightarrow> b \<and> (e = bad_packet \<or>
               e = Length_error \<and> statement_bound \<le> length (client_text c) + length bs + 2) \<or>
             (\<exists>code. e = System_error code) \<and> \<not> sends_all net
         | Inr (c', l', out') \<Rightarrow> talk_ok c' \<and>
             length (client_text c') \<le> length (client_text c) + (if b then length bs else 0)"
proof (cases b)
  case True
  then show ?thesis
    using client_collect_all_ok [of "m_connection_state c" "m_client_packet c" bs out] assms
    by (auto simp: talk_ok_def conn_feed_eq collect_chunk_def socket_send_def sends_all_def
        set_send_to_socket_def split: sum.splits prod.splits)
next
  case False
  obtain p' cs' out' where run: "collect_all server_vtable bs (m_server_packet c, m_connection_state c, out) =
      Inr (p', cs', out')"
    using server_collect_all_total by blast
  have "client_ok cs' (m_client_packet c)"
    using assms server_collect_all_phase [OF run] client_ok_phase unfolding talk_ok_def by blast
  then show ?thesis
    using False run
    by (auto simp: talk_ok_def conn_feed_eq collect_chunk_def socket_send_def sends_all_def
        set_send_to_socket_def intro!: exI [of _ bs] split: sum.splits)
qed

lemma conn_run_faults:
  assumes "talk_ok c" and "\<forall>ev \<in> set evs. sends_all (fst ev)"
    and "fold_res (conn_feed log_func) evs (c, l, out) = Inl e"
  shows "(\<exists>ev \<in> set evs. fst (snd ev)) \<and> (e = bad_packet \<or> e = Length_error \<and>
    statement_bound \<le> length (client_text c) + length (bytes_from True evs) + 2)"
  using assms
proof (induction evs arbitrary: c l out)
  case Nil
  then show ?case by simp
next
  case (Cons ev evs)
  obtain net b bs where ev: "ev = (net, b, bs)" by (cases ev)
  note one = conn_feed_faults [OF Cons.prems(1), where log_func = log_func and net = net and b = b and
    bs = bs and l = l and out = out]
  show ?case
  proof (cases "conn_feed log_func (net, b, bs) (c, l, out)")
    case (Inl e')
    then show ?thesis using one Cons.prems(2,3) by (auto simp: ev)
  next
    case (Inr x)
    obtain c1 l1 out1 where x: "x = (c1, l1, out1)" by (cases x)
    have c1: "talk_ok c1" "length (client_text c1) \<le> length (client_text c) + (if b then length bs else 0)"
      using one Inr x by simp_all
    have "fold_res (conn_feed log_func) evs (c1, l1, out1) = Inl e"
      using Cons.prems(3) Inr x by (simp add: ev)
    from Cons.IH [OF c1(1) _ this] show ?thesis using Cons.prems(2) c1(2) by (auto simp: ev)
  qed
qed

section \<open>Which lines are logged\<close>

text \<open>The line a client message should have in the log.\<close>

definition message_line :: "u8 \<Rightarrow> u8 list \<Rightarrow> string" where
  "message_line b bs =
     log_line (command_name (command_of_byte b) (word_of_nat (last_length (b # bs))))
       (if has_sql_field (command_of_byte b) then map char_of_byte bs else [])"

definition packet_line :: "FromClientPacket \<Rightarrow> string" where
  "packet_line p = log_line (get_command_string p) (get_sql_string p)"

text \<open>
  The events of one client message: any interleaving of client and server chunks whose
  client bytes are the message; a completed read has at least one byte.
\<close>

definition message_events :: "u8 list \<Rightarrow> (asio_calls \<times> bool \<times> u8 list) list \<Rightarrow> bool" where
  "message_events m evs \<longleftrightarrow>
     bytes_from True evs = m \<and>
     (\<forall>ev \<in> set evs. sends_all (fst ev) \<and> (fst (snd ev) \<longrightarrow> snd (snd ev) \<noteq> []))"

lemma conn_feed_client:
  assumes "collect_all client_vtable bs (m_client_packet c, m_connection_state c, out) =
             Inr (p1, m_connection_state c, out)"
    and "sends_all net"
  shows "\<exists>c'. conn_feed (Some f) (net, True, bs) (c, l, out) =
             Inr (c', (if is_received p1 then f (Client_packet p1) True l else l), out) \<and>
           m_client_packet c' = p1 \<and> m_server_packet c' = m_server_packet c \<and>
           m_connection_state c' = m_connection_state c"
  using assms
  by (simp add: conn_feed_eq collect_chunk_def socket_send_def sends_all_def set_send_to_socket_def
      packet_received_def packet_of_def)

lemma conn_feed_server:
  assumes "collect_all server_vtable bs (m_server_packet c, m_connection_state c, out) =
             Inr (q, cs', out')"
    and "sends_all net" and "f (Server_packet q) False l = l"
  shows "\<exists>c'. conn_feed (Some f) (net, False, bs) (c, l, out) = Inr (c', l, out') \<and>
           m_client_packet c' = m_client_packet c \<and> m_server_packet c' = q \<and>
           m_connection_state c' = cs'"
  using assms
  by (simp add: conn_feed_eq collect_chunk_def socket_send_def sends_all_def set_send_to_socket_def
      packet_received_def packet_of_def)

end
