(* ===== verification/Session.thy ===== *)
theory Session
  imports Connection
begin

text \<open>
  A whole session of a proxied connection, from its construction: runs of \<open>conn_feed\<close> over
  the chunks of both directions, in any interleaving. Shown, in the contract \<open>packet_log\<close> of
  the logger and then for \<open>PacketLogger\<close>: the connection phase logs nothing, after it every
  message whose chunks end at its end is logged exactly once, and which messages are lost;
  the bytes of both sides are forwarded unchanged; which faults end a session.
\<close>

section \<open>Client messages\<close>

definition clean_message :: "u8 list \<Rightarrow> bool" where
  "clean_message m \<longleftrightarrow>
     m \<noteq> [] \<and> length m \<le> message_bound (command_of_byte (hd m)) \<and>
     \<not> (has_sql_field (command_of_byte (hd m)) \<and> last_length m = 0)"

text \<open>
  The connection phase as a client and a server that follow the protocol run it: first any
  messages of both sides, none of the server's an OK packet, then the OK packet of the
  server, while the client is silent. The chunks may cut and interleave them in any way.
\<close>

definition is_ok_payload :: "u8 list \<Rightarrow> bool" where
  "is_ok_payload pl \<longleftrightarrow> pl \<noteq> [] \<and> hd pl = 0 \<and> 3 < length pl"

definition handshake ::
  "(asio_calls \<times> bool \<times> u8 list) list \<Rightarrow> (asio_calls \<times> bool \<times> u8 list) list \<Rightarrow> bool" where
  "handshake evs1 evs2 \<longleftrightarrow>
     (\<forall>ev \<in> set evs1. sends_all (fst ev)) \<and>
     (\<forall>ev \<in> set evs2. sends_all (fst ev) \<and> \<not> fst (snd ev)) \<and>
     (\<exists>cms sms s ok.
        bytes_from True evs1 = encode_messages cms \<and> bytes_from False evs1 = encode_messages sms \<and>
        (\<forall>pl \<in> snd ` set sms. \<not> is_ok_payload pl) \<and>
        bytes_from False evs2 = encode_message s ok \<and> is_ok_payload ok)"

lemma handshakeI:
  assumes "\<forall>ev \<in> set evs1. sends_all (fst ev)"
    and "\<forall>ev \<in> set evs2. sends_all (fst ev) \<and> \<not> fst (snd ev)"
    and "bytes_from True evs1 = encode_messages cms" and "bytes_from False evs1 = encode_messages sms"
    and "\<forall>pl \<in> snd ` set sms. \<not> is_ok_payload pl"
    and "bytes_from False evs2 = encode_message s ok" and "is_ok_payload ok"
  shows "handshake evs1 evs2"
  unfolding handshake_def using assms by blast

lemma client_messages_idle:
  assumes "collect_all client_vtable (encode_messages ms) (p, cs, out) = Inr (p', cs', out')"
    and "m_packet_state p = PAYLOAD_LENGTH_0" and "m_payload_first_part p"
  shows "m_packet_state p' = PAYLOAD_LENGTH_0 \<and> m_payload_first_part p'"
  using assms
proof (induction ms arbitrary: p cs out)
  case Nil
  then show ?case by simp
next
  case (Cons m ms)
  obtain s pl where m: "m = (s, pl)" by (cases m)
  from Cons.prems(1) obtain p1 cs1 out1
    where "collect_all client_vtable (encode_message s pl) (p, cs, out) = Inr (p1, cs1, out1)"
      and rest: "collect_all client_vtable (encode_messages ms) (p1, cs1, out1) = Inr (p', cs', out')"
    by (auto simp: m collect_all_append bind_res_eq_Inr)
  then have "m_packet_state p1 = PAYLOAD_LENGTH_0 \<and> m_payload_first_part p1"
    using client.message_ends_idle [OF Cons.prems(2)] by blast
  then show ?case using Cons.IH [OF rest] by blast
qed

context packet_log
begin

text \<open>
  One more chunk of a message \<open>m\<close> of the client, after its part \<open>pre\<close>: the line is written
  when the chunk ends the message.
\<close>

lemma message_chunk:
  assumes "collect_all client_vtable m (p0, COMMAND_PHASE, out) = Inr (pm, COMMAND_PHASE, out)"
    and "is_received pm"
    and prefix: "\<And>k p' cs' out'. 0 < k \<Longrightarrow> k < length m \<Longrightarrow>
           collect_all client_vtable (take k m) (p0, COMMAND_PHASE, out) = Inr (p', cs', out') \<Longrightarrow>
           \<not> is_received p'"
    and m: "(pre @ bs) @ more_bytes = m" and "bs \<noteq> []" and net: "sends_all net"
    and pre: "collect_all client_vtable pre (p0, COMMAND_PHASE, out) =
           Inr (m_client_packet c, COMMAND_PHASE, out)"
    and cs: "m_connection_state c = COMMAND_PHASE" and good: "good l"
  shows "\<exists>c1 l1. conn_feed (Some log) (net, True, bs) (c, l, out) = Inr (c1, l1, out) \<and>
           collect_all client_vtable (pre @ bs) (p0, COMMAND_PHASE, out) =
             Inr (m_client_packet c1, COMMAND_PHASE, out) \<and>
           m_connection_state c1 = COMMAND_PHASE \<and> good l1 \<and>
           text_of l1 = text_of l @ (if pre @ bs = m then packet_line pm else [])"
proof -
  obtain p1 where p1: "collect_all client_vtable (pre @ bs) (p0, COMMAND_PHASE, out) =
      Inr (p1, COMMAND_PHASE, out)"
    using assms(1) client_collect_context [of "pre @ bs" p0 COMMAND_PHASE out]
    unfolding m [symmetric] collect_all_append [of _ "pre @ bs"]
    by (fastforce simp: bind_res_eq_Inr)
  then have step: "collect_all client_vtable bs (m_client_packet c, m_connection_state c, out) =
      Inr (p1, m_connection_state c, out)"
    using pre cs by (simp add: collect_all_append)
  define l1 where "l1 = (if is_received p1 then log (Client_packet p1) True l else l)"
  obtain c1 where c1: "conn_feed (Some log) (net, True, bs) (c, l, out) = Inr (c1, l1, out)"
    "m_client_packet c1 = p1" "m_connection_state c1 = COMMAND_PHASE"
    using conn_feed_client [OF step net, of log l] cs by (auto simp: l1_def)
  have "text_of l1 = text_of l @ (if pre @ bs = m then packet_line pm else [])"
  proof (cases "pre @ bs = m")
    case True
    then have "p1 = pm" using p1 assms(1) by simp
    then show ?thesis using True assms(2) good by (simp add: l1_def text_client packet_line_def)
  next
    case False
    have "take (length (pre @ bs)) m = pre @ bs" using m by auto
    moreover have "length (pre @ bs) < length m"
      using m False by (metis append_Nil2 length_append length_greater_0_conv less_add_same_cancel1)
    ultimately have "\<not> is_received p1"
      using prefix [of "length (pre @ bs)"] p1 \<open>bs \<noteq> []\<close> by simp
    then show ?thesis using False by (simp add: l1_def)
  qed
  moreover have "good l1" using good by (simp add: l1_def good_log)
  ultimately show ?thesis using c1 p1 by auto
qed

text \<open>
  A run over the rest of a message: \<open>pre\<close> has been collected, \<open>evs\<close> brings the rest of \<open>m\<close>.
\<close>

lemma message_run:
  assumes "collect_all client_vtable m (p0, COMMAND_PHASE, out) = Inr (pm, COMMAND_PHASE, out)"
    and "is_received pm"
    and "\<And>k p' cs' out'. 0 < k \<Longrightarrow> k < length m \<Longrightarrow>
           collect_all client_vtable (take k m) (p0, COMMAND_PHASE, out) = Inr (p', cs', out') \<Longrightarrow>
           \<not> is_received p'"
    and "pre @ bytes_from True evs = m"
    and "\<forall>ev \<in> set evs. sends_all (fst ev) \<and> (fst (snd ev) \<longrightarrow> snd (snd ev) \<noteq> [])"
    and "collect_all client_vtable pre (p0, COMMAND_PHASE, out) =
           Inr (m_client_packet c, COMMAND_PHASE, out)"
    and "m_connection_state c = COMMAND_PHASE" and "good l"
    and "text_of l = T @ (if pre = m then packet_line pm else [])"
  shows "\<exists>c' l'. fold_res (conn_feed (Some log)) evs (c, l, out) = Inr (c', l', out) \<and>
           m_client_packet c' = pm \<and> m_connection_state c' = COMMAND_PHASE \<and> good l' \<and>
           text_of l' = T @ packet_line pm"
  using assms(4-)
proof (induction evs arbitrary: pre c l)
  case Nil
  then show ?case using assms(1) by simp
next
  case (Cons ev evs)
  obtain net b bs where ev: "ev = (net, b, bs)" by (cases ev)
  have net: "sends_all net" using Cons.prems(2) by (simp add: ev)
  have rest: "\<forall>ev \<in> set evs. sends_all (fst ev) \<and> (fst (snd ev) \<longrightarrow> snd (snd ev) \<noteq> [])"
    using Cons.prems(2) by simp
  show ?case
  proof (cases b)
    case False
    then have "pre @ bytes_from True evs = m" using Cons.prems(1) by (simp add: ev)
    moreover obtain c1 where "conn_feed (Some log) (net, False, bs) (c, l, out) = Inr (c1, l, out)"
      "m_client_packet c1 = m_client_packet c" "m_connection_state c1 = COMMAND_PHASE"
      using server_command_phase [of bs "m_server_packet c" out] Cons.prems(4) net log_server
        conn_feed_server [of bs c out _ COMMAND_PHASE out net log l] by metis
    ultimately show ?thesis
      using Cons.IH [of pre c1 l] rest Cons.prems False by (simp add: ev)
  next
    case True
    then have m: "(pre @ bs) @ bytes_from True evs = m" and bs: "bs \<noteq> []"
      using Cons.prems(1,2) by (simp_all add: ev)
    then have "pre \<noteq> m" by auto
    then have "text_of l = T" using Cons.prems(6) by simp
    with message_chunk [OF assms(1,2) _ m bs net Cons.prems(3-5)] assms(3)
    obtain c1 l1 where "conn_feed (Some log) (net, True, bs) (c, l, out) = Inr (c1, l1, out)"
      "collect_all client_vtable (pre @ bs) (p0, COMMAND_PHASE, out) =
         Inr (m_client_packet c1, COMMAND_PHASE, out)"
      "m_connection_state c1 = COMMAND_PHASE" "good l1"
      "text_of l1 = T @ (if pre @ bs = m then packet_line pm else [])"
      by blast
    then show ?thesis using Cons.IH [OF m rest] True by (simp add: ev)
  qed
qed

lemma message_logged:
  assumes "m_packet_state (m_client_packet c) = PAYLOAD_LENGTH_0"
    and "m_payload_first_part (m_client_packet c)"
    and "\<not> m_sql_data_receiving (m_client_packet c)"
    and "m_connection_state c = COMMAND_PHASE" and "good l"
    and "length (b # bs) \<le> message_bound (command_of_byte b)"
    and "message_events (encode_message 0 (b # bs)) evs"
  shows "\<exists>c' l'. fold_res (conn_feed (Some log)) evs (c, l, out) = Inr (c', l', out) \<and>
           m_packet_state (m_client_packet c') = PAYLOAD_LENGTH_0 \<and>
           m_payload_first_part (m_client_packet c') \<and>
           m_sql_data_receiving (m_client_packet c') =
             (has_sql_field (command_of_byte b) \<and> last_length (b # bs) = 0) \<and>
           m_connection_state c' = COMMAND_PHASE \<and> good l' \<and>
           text_of l' = text_of l @ message_line b bs"
proof -
  have valid: "\<not> (is_valid (command_of_byte b) \<and> (0 :: u8) \<noteq> 0)" by simp
  from client_message_general [OF assms(1,2,6) valid, of out] assms(3)
  obtain pm where pm: "collect_all client_vtable (encode_message 0 (b # bs))
      (m_client_packet c, COMMAND_PHASE, out) = Inr (pm, COMMAND_PHASE, out)"
    "m_packet_state pm = PAYLOAD_LENGTH_0" "m_payload_first_part pm" "is_received pm"
    "m_command pm = command_of_byte b"
    "m_payload_length pm = word_of_nat (last_length (b # bs))"
    "get_sql_string pm = (if has_sql_field (command_of_byte b) then map char_of_byte bs else [])"
    "m_sql_data_receiving pm = (has_sql_field (command_of_byte b) \<and> last_length (b # bs) = 0)"
    by (auto simp: is_received_def)
  have line: "packet_line pm = message_line b bs"
    using pm by (simp add: packet_line_def message_line_def get_command_string_def)
  have evs: "[] @ bytes_from True evs = encode_message 0 (b # bs)"
    "\<forall>ev \<in> set evs. sends_all (fst ev) \<and> (fst (snd ev) \<longrightarrow> snd (snd ev) \<noteq> [])"
    using assms(7) by (simp_all add: message_events_def)
  have prefix: "\<not> is_received p'" if "0 < k" "k < length (encode_message 0 (b # bs))"
    "collect_all client_vtable (take k (encode_message 0 (b # bs)))
       (m_client_packet c, COMMAND_PHASE, out) = Inr (p', cs', out')" for k p' cs' out'
    using client.received_iff_complete [OF assms(1) that(1) _ that(3)] that(2) by simp
  have start: "collect_all client_vtable [] (m_client_packet c, COMMAND_PHASE, out) =
      Inr (m_client_packet c, COMMAND_PHASE, out)" by simp
  have logged: "text_of l = text_of l @
      (if [] = encode_message 0 (b # bs) then packet_line pm else [])"
    by (simp add: encode_message_nonempty [symmetric])
  have "\<exists>c' l'. fold_res (conn_feed (Some log)) evs (c, l, out) = Inr (c', l', out) \<and>
      m_client_packet c' = pm \<and> m_connection_state c' = COMMAND_PHASE \<and> good l' \<and>
      text_of l' = text_of l @ packet_line pm"
    by (rule message_run [OF pm(1,4) _ evs start assms(4,5) logged]) (erule (2) prefix)
  then show ?thesis using pm line by auto
qed

text \<open>
  A sequence of messages, each with its events: the chunks of a message end at its end. A
  message that would leave \<open>m_sql_data_receiving\<close> set is excluded by \<open>clean_message\<close>.
\<close>

lemma messages_logged:
  assumes "m_packet_state (m_client_packet c) = PAYLOAD_LENGTH_0"
    and "m_payload_first_part (m_client_packet c)"
    and "\<not> m_sql_data_receiving (m_client_packet c)"
    and "m_connection_state c = COMMAND_PHASE" and "good l"
    and "\<forall>m \<in> set msgs. clean_message m"
    and "list_all2 (\<lambda>m evs. message_events (encode_message 0 m) evs) msgs evss"
  shows "\<exists>c' l'. fold_res (conn_feed (Some log)) (concat evss) (c, l, out) = Inr (c', l', out) \<and>
           text_of l' = text_of l @ concat (map (\<lambda>m. message_line (hd m) (tl m)) msgs)"
  using assms(7,1-6)
proof (induction msgs evss arbitrary: c l rule: list_all2_induct)
  case Nil
  then show ?case by simp
next
  case (Cons m msgs evs evss)
  from Cons.prems(6) obtain b bs where m: "m = b # bs" and bound: "length (b # bs) \<le> message_bound (command_of_byte b)"
    and clean: "\<not> (has_sql_field (command_of_byte b) \<and> last_length (b # bs) = 0)"
    by (cases m) (auto simp: clean_message_def)
  have "message_events (encode_message 0 (b # bs)) evs" using Cons.hyps(1) m by simp
  from message_logged [OF Cons.prems(1-5) bound this, of out] clean obtain c1 l1
    where one: "fold_res (conn_feed (Some log)) evs (c, l, out) = Inr (c1, l1, out)"
      "text_of l1 = text_of l @ message_line b bs"
      and c1: "m_packet_state (m_client_packet c1) = PAYLOAD_LENGTH_0"
      "m_payload_first_part (m_client_packet c1)" "\<not> m_sql_data_receiving (m_client_packet c1)"
      "m_connection_state c1 = COMMAND_PHASE" "good l1"
    by blast
  have "\<forall>m \<in> set msgs. clean_message m" using Cons.prems(6) by simp
  from Cons.IH [OF c1 this] show ?case using one by (auto simp: m fold_res_append)
qed

section \<open>The connection phase\<close>

lemma silent_chunk:
  assumes "m_connection_state c = CONNECTION_PHASE" and "client_silent (m_client_packet c)"
    and "good l" and "sends_all net"
  shows "\<exists>c1 l1. conn_feed (Some log) (net, True, bs) (c, l, out) = Inr (c1, l1, out) \<and>
           collect_all client_vtable bs (m_client_packet c, CONNECTION_PHASE, []) =
             Inr (m_client_packet c1, CONNECTION_PHASE, []) \<and>
           client_silent (m_client_packet c1) \<and> m_server_packet c1 = m_server_packet c \<and>
           m_connection_state c1 = CONNECTION_PHASE \<and> good l1 \<and> text_of l1 = text_of l"
proof -
  obtain p1 where p1: "collect_all client_vtable bs (m_client_packet c, CONNECTION_PHASE, out) =
      Inr (p1, CONNECTION_PHASE, out)" "client_silent p1"
    using client_silent_collect_all [OF assms(2)] by blast
  define l1 where "l1 = (if is_received p1 then log (Client_packet p1) True l else l)"
  have "good l1" "text_of l1 = text_of l"
    using assms(3) p1(2)
    by (simp_all add: l1_def good_log text_client log_line_def client_silent_def get_command_string_def)
  then show ?thesis
    using conn_feed_client [of bs c out p1 net log l] p1 assms(1,4) client_collect_all_out [OF p1(1)]
    by (auto simp: l1_def)
qed

lemma connection_phase_run:
  assumes "m_connection_state c = CONNECTION_PHASE" and "client_silent (m_client_packet c)"
    and "good l" and "\<forall>ev \<in> set evs. sends_all (fst ev)"
    and "collect_all server_vtable (bytes_from False evs) (m_server_packet c, CONNECTION_PHASE, out) =
           Inr (q, CONNECTION_PHASE, out')"
  shows "\<exists>c' l'. fold_res (conn_feed (Some log)) evs (c, l, out) = Inr (c', l', out') \<and>
           m_connection_state c' = CONNECTION_PHASE \<and> m_server_packet c' = q \<and>
           client_silent (m_client_packet c') \<and>
           collect_all client_vtable (bytes_from True evs)
             (m_client_packet c, CONNECTION_PHASE, []) =
             Inr (m_client_packet c', CONNECTION_PHASE, []) \<and>
           good l' \<and> text_of l' = text_of l"
  using assms
proof (induction evs arbitrary: c l out)
  case Nil
  then show ?case by simp
next
  case (Cons ev evs)
  obtain net b bs where ev: "ev = (net, b, bs)" by (cases ev)
  have net: "sends_all net" and rest: "\<forall>ev \<in> set evs. sends_all (fst ev)"
    using Cons.prems(4) by (simp_all add: ev)
  show ?case
  proof (cases b)
    case True
    from silent_chunk [OF Cons.prems(1-3) net] obtain c1 l1
      where c1: "conn_feed (Some log) (net, True, bs) (c, l, out) = Inr (c1, l1, out)"
        "collect_all client_vtable bs (m_client_packet c, CONNECTION_PHASE, []) =
           Inr (m_client_packet c1, CONNECTION_PHASE, [])"
        "client_silent (m_client_packet c1)" "m_server_packet c1 = m_server_packet c"
        "m_connection_state c1 = CONNECTION_PHASE" "good l1" "text_of l1 = text_of l"
      by blast
    from Cons.IH [OF c1(5,3,6) rest, of out] Cons.prems(5) c1
    show ?thesis by (auto simp: ev True collect_all_append)
  next
    case False
    from Cons.prems(5) obtain q1 cs1 out1
      where q1: "collect_all server_vtable bs (m_server_packet c, CONNECTION_PHASE, out) =
          Inr (q1, cs1, out1)"
        and more: "collect_all server_vtable (bytes_from False evs) (q1, cs1, out1) =
          Inr (q, CONNECTION_PHASE, out')"
      by (auto simp: ev False collect_all_append bind_res_eq_Inr)
    have cs1: "cs1 = CONNECTION_PHASE"
      using more server_command_phase [of "bytes_from False evs" q1 out1] by (cases cs1) auto
    obtain c1 where c1: "conn_feed (Some log) (net, False, bs) (c, l, out) = Inr (c1, l, out1)"
      "m_client_packet c1 = m_client_packet c" "m_server_packet c1 = q1"
      "m_connection_state c1 = CONNECTION_PHASE"
      using conn_feed_server [of bs c out q1 cs1 out1 net log l] q1 Cons.prems(1) net cs1
        log_server by auto
    from Cons.IH [OF c1(4) _ Cons.prems(3) rest, of out1] Cons.prems(2) more cs1 c1
    show ?thesis by (simp add: ev False)
  qed
qed

text \<open>Chunks of the server alone.\<close>

lemma server_run:
  assumes "\<forall>ev \<in> set evs. sends_all (fst ev) \<and> \<not> fst (snd ev)"
    and "collect_all server_vtable (bytes_from False evs)
           (m_server_packet c, m_connection_state c, out) = Inr (q, cs', out')"
  shows "\<exists>c'. fold_res (conn_feed (Some log)) evs (c, l, out) = Inr (c', l, out') \<and>
           m_client_packet c' = m_client_packet c \<and> m_connection_state c' = cs'"
  using assms
proof (induction evs arbitrary: c out)
  case Nil
  then show ?case by simp
next
  case (Cons ev evs)
  obtain net bs where ev: "ev = (net, False, bs)" and net: "sends_all net"
    using Cons.prems(1) by (cases ev) auto
  from Cons.prems(2) obtain q1 cs1 out1
    where q1: "collect_all server_vtable bs (m_server_packet c, m_connection_state c, out) =
        Inr (q1, cs1, out1)"
      and more: "collect_all server_vtable (bytes_from False evs) (q1, cs1, out1) =
        Inr (q, cs', out')"
    by (auto simp: ev collect_all_append bind_res_eq_Inr)
  obtain c1 where c1: "conn_feed (Some log) (net, False, bs) (c, l, out) = Inr (c1, l, out1)"
    "m_client_packet c1 = m_client_packet c" "m_server_packet c1 = q1"
    "m_connection_state c1 = cs1"
    using conn_feed_server [of bs c out q1 cs1 out1 net log l] q1 net log_server by auto
  then show ?case using Cons.IH [of c1 out1] Cons.prems(1) more by (auto simp: ev)
qed

lemma handshake_run:
  assumes "handshake evs1 evs2"
    and "m_connection_state c = CONNECTION_PHASE" and "m_client_packet c = new_FromClientPacket"
    and "m_server_packet c = new_FromServerPacket" and "good l"
  shows "\<exists>c' l' out'. fold_res (conn_feed (Some log)) (evs1 @ evs2) (c, l, out) = Inr (c', l', out') \<and>
           m_packet_state (m_client_packet c') = PAYLOAD_LENGTH_0 \<and>
           m_payload_first_part (m_client_packet c') \<and>
           \<not> m_sql_data_receiving (m_client_packet c') \<and>
           m_connection_state c' = COMMAND_PHASE \<and> good l' \<and> text_of l' = text_of l"
proof -
  from assms(1) obtain cms sms s ok where
    nets: "\<forall>ev \<in> set evs1. sends_all (fst ev)"
    "\<forall>ev \<in> set evs2. sends_all (fst ev) \<and> \<not> fst (snd ev)"
    and client: "bytes_from True evs1 = encode_messages cms"
    and server: "bytes_from False evs1 = encode_messages sms"
    and other: "\<forall>pl \<in> snd ` set sms. \<not> is_ok_payload pl"
    and last: "bytes_from False evs2 = encode_message s ok" and ok: "is_ok_payload ok"
    unfolding handshake_def by blast
  have new: "m_packet_state new_FromServerPacket = PAYLOAD_LENGTH_0"
    "m_payload_first_part new_FromServerPacket"
    by (simp_all add: new_FromServerPacket_def new_MySqlPacket_def)
  have "fold phase_after (map snd sms) CONNECTION_PHASE = CONNECTION_PHASE"
    using other by (auto simp: fold_phase_after is_ok_payload_def)
  with server_messages [OF new, of sms CONNECTION_PHASE out] obtain q out1
    where q: "collect_all server_vtable (bytes_from False evs1)
        (m_server_packet c, CONNECTION_PHASE, out) = Inr (q, CONNECTION_PHASE, out1)"
      "m_packet_state q = PAYLOAD_LENGTH_0" "m_payload_first_part q"
    by (auto simp: server assms(4))
  have silent: "client_silent (m_client_packet c)" by (simp add: assms(3) client_silent_new)
  from connection_phase_run [OF assms(2) silent assms(5) nets(1) q(1)] obtain c1 l1 where
    run1: "fold_res (conn_feed (Some log)) evs1 (c, l, out) = Inr (c1, l1, out1)"
    and c1: "m_connection_state c1 = CONNECTION_PHASE" "m_server_packet c1 = q"
      "client_silent (m_client_packet c1)" "good l1" "text_of l1 = text_of l"
    and p1: "collect_all client_vtable (encode_messages cms)
        (new_FromClientPacket, CONNECTION_PHASE, []) = Inr (m_client_packet c1, CONNECTION_PHASE, [])"
    by (auto simp: assms(3) client)
  have idle: "m_packet_state (m_client_packet c1) = PAYLOAD_LENGTH_0 \<and>
      m_payload_first_part (m_client_packet c1)"
    using p1 by (rule client_messages_idle) simp_all
  obtain q' out2 where q': "collect_all server_vtable (bytes_from False evs2)
      (m_server_packet c1, m_connection_state c1, out1) = Inr (q', COMMAND_PHASE, out2)"
    using server_message [OF q(2,3), of s ok CONNECTION_PHASE out1] ok
    by (auto simp: last c1(1,2) phase_after_def is_ok_payload_def)
  from server_run [OF nets(2) q', of l1] obtain c2 where
    "fold_res (conn_feed (Some log)) evs2 (c1, l1, out1) = Inr (c2, l1, out2)"
    "m_client_packet c2 = m_client_packet c1" "m_connection_state c2 = COMMAND_PHASE"
    by blast
  then show ?thesis
    using run1 idle c1 by (auto simp: fold_res_append client_silent_def)
qed

text \<open>A session from a connection with new packets.\<close>

lemma session_run_from:
  assumes "handshake evs1 evs2" and "\<forall>m \<in> set msgs. clean_message m"
    and "list_all2 (\<lambda>m evs. message_events (encode_message 0 m) evs) msgs evss" and "good l"
    and "m_connection_state c = CONNECTION_PHASE" and "m_client_packet c = new_FromClientPacket"
    and "m_server_packet c = new_FromServerPacket"
  shows "\<exists>c' l' out'. fold_res (conn_feed (Some log)) (evs1 @ evs2 @ concat evss) (c, l, out) =
             Inr (c', l', out') \<and>
           text_of l' = text_of l @ concat (map (\<lambda>m. message_line (hd m) (tl m)) msgs)"
proof -
  obtain c1 l1 out1
    where one: "fold_res (conn_feed (Some log)) (evs1 @ evs2) (c, l, out) = Inr (c1, l1, out1)"
      and c1: "m_packet_state (m_client_packet c1) = PAYLOAD_LENGTH_0"
        "m_payload_first_part (m_client_packet c1)" "\<not> m_sql_data_receiving (m_client_packet c1)"
        "m_connection_state c1 = COMMAND_PHASE" "good l1"
      and same: "text_of l1 = text_of l"
    using handshake_run [OF assms(1,5-7,4), of out] by blast
  from messages_logged [OF c1 assms(2,3), of out1] one same show ?thesis
    by (auto simp: fold_res_append simp flip: append_assoc)
qed

lemma session_run:
  assumes "handshake evs1 evs2" and "\<forall>m \<in> set msgs. clean_message m"
    and "list_all2 (\<lambda>m evs. message_events (encode_message 0 m) evs) msgs evss" and "good l"
  shows "\<exists>c' l' out'. fold_res (conn_feed (Some log)) (evs1 @ evs2 @ concat evss)
             (new_Connection sock ep, l, out) = Inr (c', l', out') \<and>
           text_of l' = text_of l @ concat (map (\<lambda>m. message_line (hd m) (tl m)) msgs)"
  using assms by (rule session_run_from) (simp_all add: new_Connection_def)

text \<open>
  Only the packet completed last in a chunk can be logged: if a chunk ends inside a packet or
  its header, nothing of it is.
\<close>

lemma chunk_logs_last:
  assumes "conn_feed (Some log) (net, True, bs) (c, l, out) = Inr (c', l', out')" and "good l"
  shows "text_of l' = text_of l @
           (if is_received (m_client_packet c') then packet_line (m_client_packet c') else [])"
proof -
  from assms(1) obtain c1 s where "c' = set_send_to_socket True s c1"
    "l' = (if packet_received True c1 then log (packet_of True c1) True l else l)"
    by (rule conn_feed_Inr) simp
  then show ?thesis
    using assms(2) by (simp add: packet_received_def packet_of_def set_send_to_socket_def text_client
        packet_line_def)
qed

end

section \<open>Properties\<close>

text \<open>For the witnesses: an Asio whose calls succeed, and a session in chunks.\<close>

definition reliable_net :: asio_calls where
  "reliable_net =
     \<lparr>net_open = None, net_send = (\<lambda>bs. Inr (length bs)), net_close = (\<lambda>_ _. None)\<rparr>"

lemma reliable_net_sends [simp]: "sends_all reliable_net"
  "net_send reliable_net bs = Inr (length bs)"
  by (simp_all add: sends_all_def reliable_net_def)

lemma open_log_good [simp]: "log_good (new_PacketLogger True)" "log_text (new_PacketLogger True) = []"
  by (simp_all add: log_good_def log_text_def new_PacketLogger_def ofs_open_def)

definition client_socket :: socket where
  "client_socket = \<lparr>sock_open = True, sock_sent = []\<rparr>"

definition server_endpoint :: endpoint where
  "server_endpoint = \<lparr>ep_address = ''10.0.0.2'', ep_port = 3306\<rparr>"

lemma sample_commands:
  "command_of_byte 3 = COM_QUERY" "command_of_byte 14 = COM_PING" "command_of_byte 22 = COM_STMT_PREPARE"
  by (simp_all add: command_of_byte_def command_table_def)

lemma sample_bounds:
  "length [b1 :: u8] \<le> message_bound c" "length [b1 :: u8, b2] \<le> message_bound c"
  "last_length [b1] = 1" "last_length [b1, b2] = 2"
  by (simp_all add: message_bound_def statement_bound_def str_max_size_def last_length_def)

text \<open>
  C1. What the program is for. A new connection whose client and server run the connection
  phase and then exchange commands and responses: under any interleaving of the chunks of
  the two sides, as long as the chunks of a client message end at its end, the session runs
  without a fault, the connection phase leaves no trace in the log, and every client message
  (up to the bound of its command) adds exactly one line, in order: the command's name and, for the
  commands with SQL text, the text itself.
\<close>

theorem session_logged:
  assumes "handshake evs1 evs2" and "\<forall>m \<in> set msgs. clean_message m"
    and "list_all2 (\<lambda>m evs. message_events (encode_message 0 m) evs) msgs evss" and "log_good l"
  shows "\<exists>c' l' out'. fold_res (conn_feed (Some packet_logger)) (evs1 @ evs2 @ concat evss)
             (new_Connection sock ep, l, out) = Inr (c', l', out') \<and>
           log_text l' = log_text l @ concat (map (\<lambda>m. message_line (hd m) (tl m)) msgs)"
  using assms by (rule file_log.session_run)

theorem session_logged_witness:
  "\<exists>c' l' out'. fold_res (conn_feed (Some packet_logger))
       ([(reliable_net, False, encode_message 0 [10, 5]), (reliable_net, True, encode_message 1 [133])] @
        [(reliable_net, False, encode_message 2 [0, 0, 0, 2])] @
        concat [[(reliable_net, True, [2, 0, 0]), (reliable_net, False, [7]),
                 (reliable_net, True, [0, 3, 83])],
                [(reliable_net, True, encode_message 0 [14])]])
       (new_Connection client_socket server_endpoint, new_PacketLogger True, []) = Inr (c', l', out') \<and>
     log_text l' = message_line 3 [83] @ message_line 14 []"
proof -
  let ?evs1 = "[(reliable_net, False, encode_message 0 [10, 5]),
    (reliable_net, True, encode_message 1 [133])]"
  let ?evs2 = "[(reliable_net, False, encode_message 2 [0, 0, 0, 2])]"
  let ?evss = "[[(reliable_net, True, [2, 0, 0]), (reliable_net, False, [7]),
    (reliable_net, True, [0, 3, 83])], [(reliable_net, True, encode_message 0 [14])]]"
  have ok: "is_ok_payload [0, 0, 0, 2]" "\<not> is_ok_payload [10, 5]"
    by (simp_all add: is_ok_payload_def)
  have "handshake ?evs1 ?evs2"
    by (rule handshakeI [where cms = "[(1, [133])]" and sms = "[(0, [10, 5])]" and s = 2 and
          ok = "[0, 0, 0, 2]"]) (simp_all add: ok)
  moreover have "\<forall>m \<in> set [[3, 83], [14]]. clean_message m"
    by (simp add: clean_message_def sample_bounds(3,4) message_bound_def statement_bound_def str_max_size_def)
  moreover have "list_all2 (\<lambda>m evs. message_events (encode_message 0 m) evs) [[3, 83], [14]] ?evss"
    by (simp add: message_events_def encode_message_short encode_packet_def le24_def)
  ultimately show ?thesis
    using session_logged [of ?evs1 ?evs2 "[[3, 83], [14]]" ?evss "new_PacketLogger True"
        client_socket server_endpoint "[]"] by simp
qed

text \<open>
  Transparency. Whatever the two sides send, in any chunks and any interleaving: when the
  run does not fault and every send transmits all it is given, exactly the bytes received
  from one side, in order, have been sent to the other.
\<close>

theorem forwarding_transparent:
  assumes "fold_res (conn_feed log_func) evs (new_Connection sock ep, l, out) = Inr (c', l', out')"
    and "\<forall>ev \<in> set evs. sends_all (fst ev)" and "sock_sent sock = []"
  shows "sent_to True c' = bytes_from True evs \<and> sent_to False c' = bytes_from False evs"
  using conn_run_sent [OF assms(1,2), of True] conn_run_sent [OF assms(1,2), of False] assms(3)
  by (simp add: sent_to_def send_to_socket_def new_Connection_def)

theorem forwarding_transparent_witness:
  "\<exists>c' l' out'. fold_res (conn_feed None) [(reliable_net, True, [7, 7]), (reliable_net, False, [9])]
       (new_Connection client_socket server_endpoint, (), []) = Inr (c', l', out') \<and>
     sent_to True c' = [7, 7] \<and> sent_to False c' = [9]"
proof -
  let ?evs = "[(reliable_net, True, [7 :: u8, 7]), (reliable_net, False, [9])]"
  have ok: "case fold_res (conn_feed None) ?evs (new_Connection client_socket server_endpoint, (), []) of
      Inl e \<Rightarrow> False | Inr x \<Rightarrow> True"
    by (simp add: conn_feed_eq collect_chunk_def collect_all_Cons collect_def new_Connection_def
        socket_send_def set_send_to_socket_def new_FromServerPacket_def new_MySqlPacket_def deliver_def)
  then obtain c' l' out' where run: "fold_res (conn_feed None) ?evs
      (new_Connection client_socket server_endpoint, (), []) = Inr (c', l', out')"
    by (cases "fold_res (conn_feed None) ?evs (new_Connection client_socket server_endpoint, (), [])") auto
  have "\<forall>ev \<in> set ?evs. sends_all (fst ev)" "sock_sent client_socket = []"
    by (simp_all add: client_socket_def)
  from forwarding_transparent [OF run this] run show ?thesis by simp
qed

text \<open>
  Robustness of a connection. For arbitrary input from both sides, well formed or not, in
  any interleaving: when the sends succeed, the only exceptions that leave a completion
  handler are \<open>BAD packet\<close> and, after 40 full packets from the client, \<open>length_error\<close>, and only
  bytes of the client raise them.
\<close>

theorem session_faults:
  assumes "\<forall>ev \<in> set evs. sends_all (fst ev)"
    and "fold_res (conn_feed log_func) evs (new_Connection sock ep, l, out) = Inl e"
  shows "(\<exists>ev \<in> set evs. fst (snd ev)) \<and>
         (e = Runtime_error ''BAD packet'' \<or>
          e = Length_error \<and> 671088599 \<le> length (bytes_from True evs))"
  using conn_run_faults [OF talk_ok_new(1) assms] talk_ok_new(2) [of sock ep]
  by (auto simp: bad_packet_def statement_bound_def)

theorem session_faults_witness:
  "\<exists>e. fold_res (conn_feed (Some packet_logger))
       [(reliable_net, False, encode_message 0 [0, 0, 0, 2]), (reliable_net, True, [1, 0, 0, 7, 3])]
       (new_Connection client_socket server_endpoint, new_PacketLogger True, []) = Inl e \<and>
     e = Runtime_error ''BAD packet''"
proof -
  let ?evs = "[(reliable_net, False, encode_message 0 [0, 0, 0, 2]),
    (reliable_net, True, [1 :: u8, 0, 0, 7, 3])]"
  have new: "m_packet_state new_FromServerPacket = PAYLOAD_LENGTH_0"
    "m_payload_first_part new_FromServerPacket"
    by (simp_all add: new_FromServerPacket_def new_MySqlPacket_def)
  obtain q where q: "collect_all server_vtable (encode_message 0 [0, 0, 0, 2])
      (new_FromServerPacket, CONNECTION_PHASE, []) = Inr (q, COMMAND_PHASE, [])"
    using server_message [OF new, of 0 "[0, 0, 0, 2]" CONNECTION_PHASE "[]"]
    by (auto simp: phase_after_def output_after_def)
  have bad: "collect_all client_vtable [1, 0, 0, 7, 3]
      (new_FromClientPacket, COMMAND_PHASE, []) = Inl bad_packet"
    using client_bad_message [of new_FromClientPacket 3 7 "[]" "[]"]
    by (simp add: sample_commands encode_message_short encode_packet_def le24_def)
  have run: "fold_res (conn_feed (Some packet_logger)) ?evs
      (new_Connection client_socket server_endpoint, new_PacketLogger True, []) = Inl bad_packet"
    using q bad by (simp add: conn_feed_eq collect_chunk_def new_Connection_def socket_send_def
        set_send_to_socket_def deliver_def packet_received_def packet_of_def packet_logger_server)
  from session_faults [OF _ run] run show ?thesis by (auto simp: bad_packet_def)
qed

text \<open>
  C30. A loss the code allows. \<open>do_packet_logging\<close> asks \<open>is_received\<close> once per chunk, after its
  last byte: of two messages received in one read only the second is logged, the line of
  the first is never written.
\<close>

theorem pipelined_message_lost:
  assumes "m_packet_state (m_client_packet c) = PAYLOAD_LENGTH_0"
    and "m_payload_first_part (m_client_packet c)"
    and "\<not> m_sql_data_receiving (m_client_packet c)"
    and "m_connection_state c = COMMAND_PHASE" and "log_good l" and "sends_all net"
    and "clean_message (b1 # bs1)" and "length (b2 # bs2) \<le> message_bound (command_of_byte b2)"
  shows "\<exists>c' l'. conn_feed (Some packet_logger)
             (net, True, encode_message 0 (b1 # bs1) @ encode_message 0 (b2 # bs2)) (c, l, out) =
             Inr (c', l', out) \<and>
           log_text l' = log_text l @ message_line b2 bs2"
proof -
  have valid: "\<not> (is_valid (command_of_byte b) \<and> (0 :: u8) \<noteq> 0)" for b by simp
  have bound: "length (b1 # bs1) \<le> message_bound (command_of_byte b1)" using assms(7) by (simp add: clean_message_def)
  from client_message_general [OF assms(1,2) bound valid, of out] assms(3,7)
  obtain p1 where p1: "collect_all client_vtable (encode_message 0 (b1 # bs1))
      (m_client_packet c, COMMAND_PHASE, out) = Inr (p1, COMMAND_PHASE, out)"
    "m_packet_state p1 = PAYLOAD_LENGTH_0" "m_payload_first_part p1" "\<not> m_sql_data_receiving p1"
    by (auto simp: clean_message_def)
  from client_message_general [OF p1(2,3) assms(8) valid, of out] p1(4)
  obtain p2 where p2: "collect_all client_vtable (encode_message 0 (b2 # bs2))
      (p1, COMMAND_PHASE, out) = Inr (p2, COMMAND_PHASE, out)"
    "is_received p2" "packet_line p2 = message_line b2 bs2"
    by (auto simp: is_received_def packet_line_def message_line_def get_command_string_def)
  have both: "collect_all client_vtable (encode_message 0 (b1 # bs1) @ encode_message 0 (b2 # bs2))
      (m_client_packet c, m_connection_state c, out) = Inr (p2, m_connection_state c, out)"
    using p1(1) p2(1) by (simp add: collect_all_append assms(4))
  from conn_feed_client [OF both assms(6), of packet_logger l] obtain c' where
    c': "conn_feed (Some packet_logger)
      (net, True, encode_message 0 (b1 # bs1) @ encode_message 0 (b2 # bs2)) (c, l, out) =
      Inr (c', packet_logger (Client_packet p2) True l, out)" "m_client_packet c' = p2"
    using p2(2) by auto
  from file_log.chunk_logs_last [OF c'(1) assms(5)] c' p2(2,3) show ?thesis by simp
qed

theorem pipelined_message_lost_witness:
  "\<exists>c' l'. conn_feed (Some packet_logger)
       (reliable_net, True, encode_message 0 [3, 83] @ encode_message 0 [14])
       ((new_Connection client_socket server_endpoint)\<lparr>m_connection_state := COMMAND_PHASE\<rparr>,
        new_PacketLogger True, []) = Inr (c', l', []) \<and>
     log_text l' = message_line 14 []"
proof -
  let ?c = "(new_Connection client_socket server_endpoint)\<lparr>m_connection_state := COMMAND_PHASE\<rparr>"
  have "clean_message [3, 83]" by (simp add: clean_message_def sample_bounds(3,4) message_bound_def statement_bound_def str_max_size_def)
  from pipelined_message_lost [of ?c, OF _ _ _ _ _ _ this sample_bounds(1) [of 14],
      of "new_PacketLogger True" reliable_net "[]"]
  show ?thesis by (simp add: new_Connection_def)
qed

text \<open>
  The same loss across reads: a chunk that ends inside the next message, even one byte
  after a complete one, leaves the log as it is, so the complete message is not logged.
\<close>

theorem overlapping_message_lost:
  assumes "m_packet_state (m_client_packet c) = PAYLOAD_LENGTH_0"
    and "m_payload_first_part (m_client_packet c)"
    and "m_connection_state c = COMMAND_PHASE" and "log_good l"
    and "0 < k" and "k < length (encode_message s pl)"
    and "conn_feed (Some packet_logger)
           (net, True, encode_message 0 m @ take k (encode_message s pl)) (c, l, out) = Inr (c', l', out')"
  shows "log_text l' = log_text l"
proof -
  from assms(7) obtain c1 t where
    run: "collect_chunk True (encode_message 0 m @ take k (encode_message s pl))
      (deliver True (encode_message 0 m @ take k (encode_message s pl)) c, out) = Inr (c1, out')"
    and c': "c' = set_send_to_socket True t c1"
    by (rule conn_feed_Inr)
  from run obtain p1 cs1 out1 p2 cs2 where
    p1: "collect_all client_vtable (encode_message 0 m) (m_client_packet c, COMMAND_PHASE, out) =
      Inr (p1, cs1, out1)"
    and p2: "collect_all client_vtable (take k (encode_message s pl)) (p1, cs1, out1) =
      Inr (p2, cs2, out')"
    and c1: "m_client_packet c1 = p2"
    by (auto simp: collect_chunk_def collect_all_append bind_res_iffs assms(3))
  have "m_packet_state p1 = PAYLOAD_LENGTH_0"
    using client.message_ends_idle [OF assms(1) p1] by simp
  then have "\<not> is_received p2"
    using client.received_iff_complete [OF _ assms(5) _ p2] assms(6) by simp
  then show ?thesis
    using file_log.chunk_logs_last [OF assms(7,4)] c1 c' by (simp add: set_send_to_socket_def)
qed

theorem overlapping_message_lost_witness:
  "\<exists>c' l' out'. conn_feed (Some packet_logger)
       (reliable_net, True, encode_message 0 [14] @ take 1 (encode_message 0 [14]))
       ((new_Connection client_socket server_endpoint)\<lparr>m_connection_state := COMMAND_PHASE\<rparr>,
        new_PacketLogger True, []) = Inr (c', l', out') \<and> log_text l' = []"
proof -
  let ?c = "(new_Connection client_socket server_endpoint)\<lparr>m_connection_state := COMMAND_PHASE\<rparr>"
  let ?run = "conn_feed (Some packet_logger)
      (reliable_net, True, encode_message 0 [14] @ take 1 (encode_message 0 [14]))
      (?c, new_PacketLogger True, [])"
  have "case ?run of Inl e \<Rightarrow> False | Inr x \<Rightarrow> True"
    by (simp add: conn_feed_eq collect_chunk_def collect_all_Cons collect_defs new_Connection_def
        socket_send_def deliver_def encode_message_short encode_packet_def le24_def Let_def
        shift_byte_def MAX_PAYLOAD_LENGTH_def client_defs sample_commands str_clear_def
        str_shrink_to_fit_def)
  then obtain c' l' out' where run: "?run = Inr (c', l', out')" by (cases ?run) auto
  have "log_text l' = log_text (new_PacketLogger True)"
    by (rule overlapping_message_lost [OF _ _ _ _ _ _ run])
      (simp_all add: new_Connection_def encode_message_short)
  then show ?thesis using run by simp
qed

text \<open>
  C35. A short send loses bytes. \<open>do_transfer\<close> ignores how many bytes \<open>send\<close> transmitted and
  reads on: of a chunk whose send takes \<open>n\<close> bytes the rest is never sent, whatever follows.
\<close>

theorem short_send_drops:
  assumes "fold_res (conn_feed log_func) ((net, b, bs) # evs) (c, l, out) = Inr (c', l', out')"
    and "net_send net bs = Inr n" and "\<forall>ev \<in> set evs. sends_all (fst ev)"
  shows "sent_to b c' = sent_to b c @ take n bs @ bytes_from b evs"
proof -
  from assms(1) obtain c1 l1 out1
    where one: "conn_feed log_func (net, b, bs) (c, l, out) = Inr (c1, l1, out1)"
      and rest: "fold_res (conn_feed log_func) evs (c1, l1, out1) = Inr (c', l', out')"
    by (auto simp: bind_res_eq_Inr)
  from one obtain c2 s where "set_collected b (deliver b bs c) c2"
    and "socket_send net bs (send_to_socket b c) = Inr s" and "c1 = set_send_to_socket b s c2"
    by (rule conn_feed_Inr)
  then have "sent_to b c1 = sent_to b c @ take n bs"
    using assms(2) by (cases b) (auto simp: set_collected_def socket_send_def sent_to_def
        send_to_socket_def set_send_to_socket_def)
  then show ?thesis using conn_run_sent [OF rest assms(3), of b] by simp
qed

theorem short_send_drops_witness:
  "\<exists>c' l' out'. fold_res (conn_feed None)
       [(reliable_net\<lparr>net_send := (\<lambda>bs. Inr 1)\<rparr>, True, [7, 8]), (reliable_net, True, [9])]
       (new_Connection client_socket server_endpoint, (), []) = Inr (c', l', out') \<and>
     sent_to True c' = [7, 9]"
proof -
  let ?short = "reliable_net\<lparr>net_send := (\<lambda>bs. Inr 1)\<rparr>"
  let ?run = "fold_res (conn_feed None) ((?short, True, [7, 8]) # [(reliable_net, True, [9])])
      (new_Connection client_socket server_endpoint, (), [])"
  have "case ?run of Inl e \<Rightarrow> False | Inr x \<Rightarrow> True"
    by (simp add: conn_feed_eq collect_chunk_def collect_all_Cons collect_def new_Connection_def
        socket_send_def set_send_to_socket_def deliver_def)
  then obtain c' l' out' where run: "?run = Inr (c', l', out')" by (cases ?run) auto
  have "sent_to True c' = sent_to True (new_Connection client_socket server_endpoint) @
      take 1 [7, 8] @ bytes_from True [(reliable_net, True, [9])]"
    by (rule short_send_drops [OF run]) simp_all
  then show ?thesis using run
    by (simp add: sent_to_def send_to_socket_def new_Connection_def)
qed

end
