(* ===== verification/Connection_Manager.thy ===== *)
theory Connection_Manager
  imports Session
begin

text \<open>
  The connection manager (\<open>ConnectionManager\<close> of connection_manager.hpp and
  connection_manager.cpp): the set of the live connections, a \<open>std::set\<close> of shared pointers,
  over the heap of the connection objects. Shown: the set operations against the interface
  \<open>live_set\<close>, what each operation does to the set, to the objects and to standard output, and
  that the printed count is the number of live connections.
\<close>

section \<open>Pointers and their order\<close>

text \<open>\<open>std::less\<close> on shared pointers compares the addresses.\<close>

instantiation ConnectionPtr :: linorder
begin

fun less_eq_ConnectionPtr :: "ConnectionPtr \<Rightarrow> ConnectionPtr \<Rightarrow> bool" where
  "less_eq_ConnectionPtr (Connection_ptr a) (Connection_ptr b) = (a \<le> b)"

fun less_ConnectionPtr :: "ConnectionPtr \<Rightarrow> ConnectionPtr \<Rightarrow> bool" where
  "less_ConnectionPtr (Connection_ptr a) (Connection_ptr b) = (a < b)"

instance
proof
  fix x y z :: ConnectionPtr
  show "(x < y) = (x \<le> y \<and> \<not> y \<le> x)" by (cases x; cases y) auto
  show "x \<le> x" by (cases x) simp
  show "x \<le> y \<Longrightarrow> y \<le> z \<Longrightarrow> x \<le> z" by (cases x; cases y; cases z) simp
  show "x \<le> y \<Longrightarrow> y \<le> x \<Longrightarrow> x = y" by (cases x; cases y) simp
  show "x \<le> y \<or> y \<le> x" by (cases x; cases y) auto
qed

end

section \<open>The ordered set\<close>

text \<open>
  \<open>std::set\<close> as the sorted sequence its iterators run through: \<open>insert\<close> keeps an equal
  element, \<open>erase\<close> of an absent one does nothing.
\<close>

fun set_insert :: "'a :: linorder \<Rightarrow> 'a list \<Rightarrow> 'a list" where
  "set_insert x [] = [x]"
| "set_insert x (y # ys) =
     (if x < y then x # y # ys else if x = y then y # ys else y # set_insert x ys)"

fun set_erase :: "'a :: linorder \<Rightarrow> 'a list \<Rightarrow> 'a list" where
  "set_erase x [] = []"
| "set_erase x (y # ys) = (if x = y then ys else if x < y then y # ys else y # set_erase x ys)"

definition set_ok :: "'a :: linorder list \<Rightarrow> bool" where
  "set_ok xs \<longleftrightarrow> sorted_wrt (<) xs"

lemma set_ok_Nil [simp]: "set_ok []"
  by (simp add: set_ok_def)

lemma set_ok_distinct: "set_ok xs \<Longrightarrow> distinct xs"
  by (simp add: set_ok_def strict_sorted_iff)

lemma set_set_insert [simp]: "set (set_insert x xs) = insert x (set xs)"
  by (induction xs) auto

lemma set_ok_insert: "set_ok xs \<Longrightarrow> set_ok (set_insert x xs)"
  by (induction xs) (auto simp: set_ok_def)

lemma set_set_erase: "set_ok xs \<Longrightarrow> set (set_erase x xs) = set xs - {x}"
  by (induction xs) (auto simp: set_ok_def)

lemma set_ok_erase: "set_ok xs \<Longrightarrow> set_ok (set_erase x xs)"
  by (induction xs) (auto simp: set_ok_def set_set_erase)

text \<open>The interface: a set of elements with its size, whatever the representation.\<close>

locale live_set =
  fixes ins :: "'a \<Rightarrow> 's \<Rightarrow> 's" and del :: "'a \<Rightarrow> 's \<Rightarrow> 's" and nothing :: "'s"
    and elems :: "'s \<Rightarrow> 'a set" and size_of :: "'s \<Rightarrow> nat" and ok :: "'s \<Rightarrow> bool"
  assumes ok_nothing: "ok nothing" and elems_nothing: "elems nothing = {}"
    and ok_ins: "ok s \<Longrightarrow> ok (ins x s)" and elems_ins: "ok s \<Longrightarrow> elems (ins x s) = insert x (elems s)"
    and ok_del: "ok s \<Longrightarrow> ok (del x s)" and elems_del: "ok s \<Longrightarrow> elems (del x s) = elems s - {x}"
    and size_card: "ok s \<Longrightarrow> size_of s = card (elems s)"
    and finite_elems: "ok s \<Longrightarrow> finite (elems s)"
begin

lemma size_nothing: "size_of nothing = 0"
  using size_card [OF ok_nothing] elems_nothing by simp

lemma size_ins: "ok s \<Longrightarrow> x \<notin> elems s \<Longrightarrow> size_of (ins x s) = Suc (size_of s)"
  by (simp add: size_card ok_ins elems_ins finite_elems)

lemma size_del: "ok s \<Longrightarrow> x \<in> elems s \<Longrightarrow> Suc (size_of (del x s)) = size_of s"
  by (simp add: size_card ok_del elems_del finite_elems card_Suc_Diff1 del: card_Diff_insert)

lemma del_ins: "ok s \<Longrightarrow> x \<notin> elems s \<Longrightarrow> elems (del x (ins x s)) = elems s"
  by (simp add: elems_ins elems_del ok_ins)

lemma size_zero_iff: "ok s \<Longrightarrow> size_of s = 0 \<longleftrightarrow> elems s = {}"
  by (simp add: size_card finite_elems)

end

interpretation connections: live_set set_insert set_erase "[]" set length set_ok
  by unfold_locales
    (simp_all add: set_ok_insert set_ok_erase set_set_erase set_ok_distinct distinct_card)

section \<open>State and output\<close>

record ConnectionManager =
  m_connections :: "ConnectionPtr list"

definition new_ConnectionManager :: ConnectionManager where
  "new_ConnectionManager = \<lparr>m_connections = []\<rparr>"

text \<open>
  The heap of the connection objects. An access through a pointer to a destroyed object is
  undefined behaviour.
\<close>

type_synonym connection_heap = "ConnectionPtr \<Rightarrow> Connection option"

definition load :: "connection_heap \<Rightarrow> ConnectionPtr \<Rightarrow> Connection result" where
  "load h q = (case h q of None \<Rightarrow> Inl Undefined_behaviour | Some c \<Rightarrow> Inr c)"

lemma load_Inr_iff [simp]: "load h q = Inr c \<longleftrightarrow> h q = Some c"
  by (simp add: load_def split: option.split)

lemma load_Inl_iff [simp]: "load h q = Inl e \<longleftrightarrow> h q = None \<and> e = Undefined_behaviour"
  by (auto simp: load_def split: option.split)

text \<open>\<open>operator<<\<close> of an unsigned number.\<close>

fun decimal :: "nat \<Rightarrow> string" where
  "decimal n =
     (if n < 10 then [char_of (48 + n)] else decimal (n div 10) @ [char_of (48 + n mod 10)])"

declare decimal.simps [simp del]

definition opened_line :: "nat \<Rightarrow> string" where
  "opened_line n = ''Opened connections: '' @ decimal n @ [CHR 0x0A]"

definition closed_line :: string where
  "closed_line = '' All connections are closed.'' @ [CHR 0x0A]"

section \<open>Operations\<close>

definition manager_start ::
  "asio_calls \<Rightarrow> ConnectionPtr \<Rightarrow> ConnectionManager \<times> connection_heap \<times> string \<Rightarrow>
     ((ConnectionManager \<times> connection_heap \<times> string) \<times> async_op list) result" where
  "manager_start net t_connection st =
     (case st of (m, h, out) \<Rightarrow>
        let m' = m\<lparr>m_connections := set_insert t_connection (m_connections m)\<rparr> in
        bind_res (load h t_connection) (\<lambda>c.
        bind_res (connection_start net c) (\<lambda>(c', ops).
        Inr ((m', h(t_connection \<mapsto> c'), out @ opened_line (length (m_connections m'))), ops))))"

definition manager_stop ::
  "asio_calls \<Rightarrow> ConnectionPtr \<Rightarrow> ConnectionManager \<times> connection_heap \<times> string \<Rightarrow>
     (ConnectionManager \<times> connection_heap \<times> string) result" where
  "manager_stop net t_connection st =
     (case st of (m, h, out) \<Rightarrow>
        bind_res (load h t_connection) (\<lambda>c.
        bind_res (connection_stop (net_close net t_connection) c) (\<lambda>c'.
        let m' = m\<lparr>m_connections := set_erase t_connection (m_connections m)\<rparr> in
        Inr (m', h(t_connection \<mapsto> c'), out @ opened_line (length (m_connections m'))))))"

definition stop_one :: "asio_calls \<Rightarrow> ConnectionPtr \<Rightarrow> connection_heap \<Rightarrow> connection_heap result" where
  "stop_one net q h =
     bind_res (load h q) (\<lambda>c.
     bind_res (connection_stop (net_close net q) c) (\<lambda>c'. Inr (h(q \<mapsto> c'))))"

definition manager_stop_all ::
  "asio_calls \<Rightarrow> ConnectionManager \<times> connection_heap \<times> string \<Rightarrow>
     (ConnectionManager \<times> connection_heap \<times> string) result" where
  "manager_stop_all net st =
     (case st of (m, h, out) \<Rightarrow>
        bind_res (fold_res (stop_one net) (m_connections m) h) (\<lambda>h'.
        Inr (m\<lparr>m_connections := []\<rparr>, h', out @ closed_line)))"

section \<open>Effect of the operations\<close>

text \<open>Between two handlers the set owns exactly the live objects.\<close>

definition manager_ok :: "ConnectionManager \<Rightarrow> connection_heap \<Rightarrow> bool" where
  "manager_ok m h \<longleftrightarrow> set_ok (m_connections m) \<and> set (m_connections m) = dom h"

lemma manager_ok_length: "manager_ok m h \<Longrightarrow> length (m_connections m) = card (dom h)"
  using connections.size_card [of "m_connections m"] by (simp add: manager_ok_def)

lemma manager_ok_new: "manager_ok new_ConnectionManager Map.empty"
  by (simp add: manager_ok_def new_ConnectionManager_def)

lemma socket_check_iff [simp]:
  "socket_check r = Inr u \<longleftrightarrow> r = None" "socket_check r = Inl e \<longleftrightarrow> (\<exists>n. r = Some n \<and> e = System_error n)"
  by (auto simp: socket_check_def split: option.split)

definition opened :: "Connection \<Rightarrow> Connection" where
  "opened c = c\<lparr>m_server_socket := (m_server_socket c)\<lparr>sock_open := True\<rparr>\<rparr>"

definition closed :: "Connection \<Rightarrow> Connection" where
  "closed c = c\<lparr>m_client_socket := (m_client_socket c)\<lparr>sock_open := False\<rparr>,
                m_server_socket := (m_server_socket c)\<lparr>sock_open := False\<rparr>\<rparr>"

lemma connection_start_iff:
  "connection_start net c = Inr (c', ops) \<longleftrightarrow>
     net_open net = None \<and> c' = opened c \<and> ops = [Async_connect (m_server_endpoint c)]"
  by (auto simp: connection_start_def do_connect_def bind_res_iffs opened_def)

lemma connection_stop_iff:
  "connection_stop close c = Inr c' \<longleftrightarrow> close True = None \<and> close False = None \<and> c' = closed c"
  by (auto simp: connection_stop_def bind_res_iffs closed_def)

lemma connection_start_fault: "connection_start net c = Inl e \<Longrightarrow> \<exists>n. e = System_error n"
  by (auto simp: connection_start_def do_connect_def bind_res_iffs)

lemma connection_stop_fault: "connection_stop close c = Inl e \<Longrightarrow> \<exists>n. e = System_error n"
  by (auto simp: connection_stop_def bind_res_iffs)

lemma manager_start_iff:
  "manager_start net q (m, h, out) = Inr (st', ops) \<longleftrightarrow>
     (\<exists>c. h q = Some c \<and> net_open net = None \<and> ops = [Async_connect (m_server_endpoint c)] \<and>
          st' = (m\<lparr>m_connections := set_insert q (m_connections m)\<rparr>, h(q \<mapsto> opened c),
                 out @ opened_line (length (set_insert q (m_connections m)))))"
  by (auto simp: manager_start_def bind_res_iffs Let_def connection_start_iff)

lemma manager_stop_iff:
  "manager_stop net q (m, h, out) = Inr st' \<longleftrightarrow>
     (\<exists>c. h q = Some c \<and> net_close net q True = None \<and> net_close net q False = None \<and>
          st' = (m\<lparr>m_connections := set_erase q (m_connections m)\<rparr>, h(q \<mapsto> closed c),
                 out @ opened_line (length (set_erase q (m_connections m)))))"
  by (auto simp: manager_stop_def bind_res_iffs Let_def connection_stop_iff)

lemma manager_start_fault:
  assumes "manager_start net q (m, h, out) = Inl e" and "h q \<noteq> None"
  shows "\<exists>n. e = System_error n"
  using assms by (auto simp: manager_start_def bind_res_iffs Let_def dest: connection_start_fault)

lemma manager_stop_fault:
  assumes "manager_stop net q (m, h, out) = Inl e" and "h q \<noteq> None"
  shows "\<exists>n. e = System_error n"
  using assms by (auto simp: manager_stop_def bind_res_iffs Let_def dest: connection_stop_fault)

lemma manager_start_ok:
  assumes "manager_ok m h" and "manager_start net q (m, h(q \<mapsto> c), out) = Inr ((m', h', out'), ops)"
  shows "manager_ok m' h'" and "dom h' = insert q (dom h)"
  using assms by (auto simp: manager_ok_def manager_start_iff set_ok_insert)

lemma manager_stop_ok:
  assumes "manager_ok m h" and "manager_stop net q (m, h, out) = Inr (m', h', out')"
  shows "manager_ok m' (h'(q := None))" and "dom (h'(q := None)) = dom h - {q}"
  using assms by (auto simp: manager_ok_def manager_stop_iff set_ok_erase set_set_erase)

lemma stop_one_iff:
  "stop_one net q h = Inr h' \<longleftrightarrow>
     (\<exists>c. h q = Some c \<and> net_close net q True = None \<and> net_close net q False = None \<and>
          h' = h(q \<mapsto> closed c))"
  by (auto simp: stop_one_def bind_res_iffs connection_stop_iff)

lemma stop_one_fold:
  assumes "fold_res (stop_one net) qs h = Inr h'" and "distinct qs"
  shows "h' = (\<lambda>q. if q \<in> set qs then map_option closed (h q) else h q)"
    and "\<forall>q \<in> set qs. h q \<noteq> None \<and> net_close net q True = None \<and> net_close net q False = None"
  using assms
proof (induction qs arbitrary: h)
  case (Cons q qs)
  {
    case 1
    from "1.prems"(1) obtain c where c: "h q = Some c"
      and rest: "fold_res (stop_one net) qs (h(q \<mapsto> closed c)) = Inr h'"
      by (auto simp: bind_res_eq_Inr stop_one_iff)
    then show ?case using Cons.IH(1) [OF rest] "1.prems"(2) by (auto simp: fun_eq_iff)
  next
    case 2
    from "2.prems"(1) obtain c where c: "h q = Some c" "net_close net q True = None"
      "net_close net q False = None"
      and rest: "fold_res (stop_one net) qs (h(q \<mapsto> closed c)) = Inr h'"
      by (auto simp: bind_res_eq_Inr stop_one_iff)
    then show ?case using Cons.IH(2) [OF rest] "2.prems"(2) by (auto split: if_splits)
  }
qed simp_all

lemma stop_one_fold_fault:
  assumes "fold_res (stop_one net) qs h = Inl e" and "set qs \<subseteq> dom h"
  shows "\<exists>n. e = System_error n"
  using assms
proof (induction qs arbitrary: h)
  case (Cons q qs)
  show ?case
  proof (cases "stop_one net q h")
    case (Inl e')
    then show ?thesis
      using Cons.prems by (auto simp: stop_one_def bind_res_iffs dest: connection_stop_fault)
  next
    case (Inr h1)
    then have "dom h \<subseteq> dom h1" by (auto simp: stop_one_def bind_res_iffs)
    then show ?thesis using Cons.IH [of h1] Cons.prems Inr by auto
  qed
qed simp

lemma stop_one_fold_succeeds:
  assumes "set qs \<subseteq> dom h"
    and "\<forall>q \<in> set qs. net_close net q True = None \<and> net_close net q False = None"
  shows "\<exists>h'. fold_res (stop_one net) qs h = Inr h'"
  using assms
proof (induction qs arbitrary: h)
  case (Cons q qs)
  obtain c where c: "h q = Some c" using Cons.prems(1) by auto
  have one: "stop_one net q h = Inr (h(q \<mapsto> closed c))"
    using c Cons.prems(2) by (simp add: stop_one_iff)
  have "set qs \<subseteq> dom (h(q \<mapsto> closed c))"
    and "\<forall>q \<in> set qs. net_close net q True = None \<and> net_close net q False = None"
    using Cons.prems by auto
  then obtain h' where "fold_res (stop_one net) qs (h(q \<mapsto> closed c)) = Inr h'"
    using Cons.IH by blast
  then show ?case using one by simp
qed simp

section \<open>A run of the manager\<close>

text \<open>
  What the server does with the manager: a start allocates the object and starts it, a stop
  ends with the release of the last shared pointer. The specification of a run is the set of
  the connections that were started and not stopped since.
\<close>

datatype manager_op = Start ConnectionPtr Connection | Stop ConnectionPtr

definition manager_step ::
  "asio_calls \<times> manager_op \<Rightarrow> ConnectionManager \<times> connection_heap \<times> string \<Rightarrow>
     (ConnectionManager \<times> connection_heap \<times> string) result" where
  "manager_step ev st =
     (case (ev, st) of
        ((net, Start q c), (m, h, out)) \<Rightarrow>
          bind_res (manager_start net q (m, h(q \<mapsto> c), out)) (\<lambda>(st', ops). Inr st')
      | ((net, Stop q), (m, h, out)) \<Rightarrow>
          bind_res (manager_stop net q (m, h, out)) (\<lambda>(m', h', out'). Inr (m', h'(q := None), out')))"

fun live_after :: "manager_op \<Rightarrow> ConnectionPtr set \<Rightarrow> ConnectionPtr set" where
  "live_after (Start q c) S = insert q S"
| "live_after (Stop q) S = S - {q}"

lemma manager_step_live:
  assumes "manager_step (net, op) (m, h, out) = Inr (m', h', out')" and "manager_ok m h"
  shows "manager_ok m' h' \<and> dom h' = live_after op (dom h) \<and>
         out' = out @ opened_line (card (dom h'))"
proof (cases op)
  case (Start q c)
  with assms(1) obtain ops where
    start: "manager_start net q (m, h(q \<mapsto> c), out) = Inr ((m', h', out'), ops)"
    by (auto simp: manager_step_def bind_res_iffs)
  have ok: "manager_ok m' h'" "dom h' = insert q (dom h)"
    using manager_start_ok [OF assms(2) start] .
  then have "length (m_connections m') = card (dom h')" by (simp add: manager_ok_length)
  then show ?thesis using start ok Start by (auto simp: manager_start_iff)
next
  case (Stop q)
  with assms(1) obtain h1 where
    stop: "manager_stop net q (m, h, out) = Inr (m', h1, out')" and h': "h' = h1(q := None)"
    by (auto simp: manager_step_def bind_res_iffs)
  have ok: "manager_ok m' h'" "dom h' = dom h - {q}"
    using manager_stop_ok [OF assms(2) stop] h' by auto
  then have "length (m_connections m') = card (dom h')" by (simp add: manager_ok_length)
  then show ?thesis using stop ok Stop by (auto simp: manager_stop_iff)
qed

section \<open>Properties\<close>

text \<open>
  C23. Refinement of the manager. After any sequence of starts and stops that does not fault,
  from the empty manager, the ordered set is sorted without duplicates and holds exactly the
  connections that were started and not stopped since, which are exactly the live objects;
  and each operation printed the number of the connections live after it.
\<close>

theorem manager_run_live:
  assumes "fold_res manager_step (evs @ [(net, op)]) (new_ConnectionManager, Map.empty, []) =
             Inr (m', h', out')"
  shows "sorted_wrt (<) (m_connections m') \<and>
         set (m_connections m') = fold live_after (map snd evs @ [op]) {} \<and>
         dom h' = set (m_connections m') \<and>
         (\<exists>before. out' = before @ opened_line (card (fold live_after (map snd evs @ [op]) {})))"
proof -
  have run: "manager_ok m1 h1 \<and> dom h1 = fold live_after (map snd evs) (dom h)"
    if "fold_res manager_step evs (m, h, out) = Inr (m1, h1, out1)" and "manager_ok m h"
    for evs m h out m1 h1 out1
    using that
  proof (induction evs arbitrary: m h out)
    case Nil
    then show ?case by simp
  next
    case (Cons ev evs)
    obtain net op where ev: "ev = (net, op)" by (cases ev)
    from Cons.prems(1) obtain m2 h2 out2
      where step: "manager_step (net, op) (m, h, out) = Inr (m2, h2, out2)"
        and rest: "fold_res manager_step evs (m2, h2, out2) = Inr (m1, h1, out1)"
      by (auto simp: ev bind_res_eq_Inr)
    then show ?case
      using Cons.IH [OF rest] manager_step_live [OF step Cons.prems(2)] by (simp add: ev)
  qed
  from assms obtain m1 h1 out1
    where first: "fold_res manager_step evs (new_ConnectionManager, Map.empty, []) = Inr (m1, h1, out1)"
      and last: "manager_step (net, op) (m1, h1, out1) = Inr (m', h', out')"
    by (auto simp: fold_res_append bind_res_eq_Inr)
  have "manager_ok m1 h1 \<and> dom h1 = fold live_after (map snd evs) {}"
    using run [OF first manager_ok_new] by simp
  then show ?thesis
    using manager_step_live [OF last] by (auto simp: manager_ok_def set_ok_def)
qed

text \<open>
  \<open>stop_all\<close> closes both sockets of every live connection, changes nothing else of it,
  leaves the set empty and says so on standard output; it throws if and only if one of the
  closes throws.
\<close>

theorem manager_stop_all_spec:
  assumes "manager_ok m h"
  shows "case manager_stop_all net (m, h, out) of
           Inl e \<Rightarrow> (\<exists>n. e = System_error n) \<and>
             (\<exists>q \<in> dom h. net_close net q True \<noteq> None \<or> net_close net q False \<noteq> None)
         | Inr (m', h', out') \<Rightarrow>
             (\<forall>q \<in> dom h. net_close net q True = None \<and> net_close net q False = None) \<and>
             m_connections m' = [] \<and> h' = (\<lambda>q. map_option closed (h q)) \<and>
             out' = out @ closed_line"
proof -
  have live: "set (m_connections m) = dom h" and "distinct (m_connections m)"
    using assms by (simp_all add: manager_ok_def set_ok_distinct)
  show ?thesis
  proof (cases "fold_res (stop_one net) (m_connections m) h")
    case (Inl e)
    then have "\<exists>n. e = System_error n" using stop_one_fold_fault live by blast
    moreover have "\<exists>q \<in> dom h. net_close net q True \<noteq> None \<or> net_close net q False \<noteq> None"
      using stop_one_fold_succeeds [of "m_connections m" h net] live Inl by fastforce
    ultimately show ?thesis using Inl by (simp add: manager_stop_all_def)
  next
    case (Inr h')
    have "h' = (\<lambda>q. map_option closed (h q))"
      using stop_one_fold(1) [OF Inr \<open>distinct (m_connections m)\<close>] live
      by (auto simp: fun_eq_iff domIff)
    then show ?thesis
      using stop_one_fold(2) [OF Inr \<open>distinct (m_connections m)\<close>] live Inr
      by (simp add: manager_stop_all_def)
  qed
qed

theorem manager_run_live_witness:
  "\<exists>m' h' out'. fold_res manager_step
       ([(reliable_net, Start (Connection_ptr 7) (new_Connection client_socket server_endpoint)),
         (reliable_net, Start (Connection_ptr 3) (new_Connection client_socket server_endpoint))] @
        [(reliable_net, Stop (Connection_ptr 7))])
       (new_ConnectionManager, Map.empty, []) = Inr (m', h', out') \<and>
     set (m_connections m') = {Connection_ptr 3}"
proof -
  let ?run = "fold_res manager_step
       ([(reliable_net, Start (Connection_ptr 7) (new_Connection client_socket server_endpoint)),
         (reliable_net, Start (Connection_ptr 3) (new_Connection client_socket server_endpoint))] @
        [(reliable_net, Stop (Connection_ptr 7))])
       (new_ConnectionManager, Map.empty, [])"
  have "case ?run of Inl e \<Rightarrow> False | Inr x \<Rightarrow> True"
    by (simp add: manager_step_def manager_start_def manager_stop_def connection_start_def do_connect_def
        connection_stop_def socket_check_def reliable_net_def load_def new_ConnectionManager_def Let_def)
  then obtain m' h' out' where run: "?run = Inr (m', h', out')" by (cases ?run) auto
  from manager_run_live [OF run] run show ?thesis by auto
qed

theorem manager_stop_all_spec_witness:
  "\<exists>m' h'. manager_stop_all reliable_net
       (\<lparr>m_connections = [Connection_ptr 3]\<rparr>,
        [Connection_ptr 3 \<mapsto> new_Connection client_socket server_endpoint], []) =
       Inr (m', h', closed_line) \<and> m_connections m' = []"
proof -
  let ?m = "\<lparr>m_connections = [Connection_ptr 3]\<rparr>"
  let ?h = "[Connection_ptr 3 \<mapsto> new_Connection client_socket server_endpoint]"
  have ok: "manager_ok ?m ?h" by (simp add: manager_ok_def set_ok_def)
  show ?thesis
    using manager_stop_all_spec [OF ok, of reliable_net "[]"]
    by (auto simp: reliable_net_def split: sum.splits)
qed

text \<open>
  A connection that comes and goes leaves the manager as it was: starting a fresh
  connection and stopping it gives back the same set, and prints the count with it and then
  the count without it.
\<close>

theorem manager_start_stop:
  assumes "manager_ok m h" and "h q = None" and "net_open net = None"
    and "net_close net q True = None" and "net_close net q False = None"
  shows "\<exists>m1 h1 out1 ops h2. manager_start net q (m, h(q \<mapsto> c), out) = Inr ((m1, h1, out1), ops) \<and>
           manager_stop net q (m1, h1, out1) =
             Inr (m, h2, out @ opened_line (Suc (length (m_connections m))) @
                          opened_line (length (m_connections m)))"
proof -
  have ok: "set_ok (m_connections m)" and new: "q \<notin> set (m_connections m)"
    using assms(1,2) by (auto simp: manager_ok_def)
  let ?with = "set_insert q (m_connections m)"
  have size: "length ?with = Suc (length (m_connections m))"
    using connections.size_ins [OF ok new] .
  have "set_erase q ?with = m_connections m"
    using connections.del_ins [OF ok new] ok set_ok_erase [OF set_ok_insert [OF ok], of q]
    by (simp add: set_ok_def strict_sorted_equal)
  then show ?thesis
    using assms(3-5) size by (simp add: manager_start_iff manager_stop_iff)
qed

theorem manager_start_stop_witness:
  "\<exists>m1 h1 out1 ops h2. manager_start reliable_net (Connection_ptr 7)
       (new_ConnectionManager, [Connection_ptr 7 \<mapsto> new_Connection client_socket server_endpoint], []) =
       Inr ((m1, h1, out1), ops) \<and>
     manager_stop reliable_net (Connection_ptr 7) (m1, h1, out1) =
       Inr (new_ConnectionManager, h2, opened_line 1 @ opened_line 0)"
  using manager_start_stop [OF manager_ok_new, where q = "Connection_ptr 7" and net = reliable_net
      and c = "new_Connection client_socket server_endpoint" and out = "[]"]
  by (simp add: reliable_net_def new_ConnectionManager_def)

text \<open>The number a sequence of decimal digits denotes.\<close>

definition read_decimal :: "string \<Rightarrow> nat" where
  "read_decimal t = foldl (\<lambda>n c. 10 * n + (of_char c - 48)) 0 t"

lemma read_decimal_decimal: "read_decimal (decimal n) = n"
proof (induction n rule: decimal.induct)
  case (1 n)
  show ?case
  proof (cases "n < 10")
    case True
    then show ?thesis by (subst decimal.simps) (simp add: read_decimal_def)
  next
    case False
    then have "read_decimal (decimal (n div 10)) = n div 10" using "1.IH" by simp
    then show ?thesis using False by (subst decimal.simps) (simp add: read_decimal_def)
  qed
qed

lemma newline_no_digit: "k < 10 \<Longrightarrow> CHR 0x0A \<noteq> char_of (48 + k :: nat)"
proof
  assume "k < 10" and "CHR 0x0A = char_of (48 + k)"
  from this(2) have "(of_char (CHR 0x0A) :: nat) = of_char (char_of (48 + k) :: char)"
    by (rule arg_cong)
  then show False using \<open>k < 10\<close> by simp
qed

lemma decimal_one_line: "CHR 0x0A \<notin> set (decimal n)"
proof (induction n rule: decimal.induct)
  case (1 n)
  show ?case
  proof (cases "n < 10")
    case True
    then have "set (decimal n) = {char_of (48 + n)}" by (subst decimal.simps) simp
    then show ?thesis using newline_no_digit [OF True] by blast
  next
    case False
    then have "set (decimal n) = insert (char_of (48 + n mod 10)) (set (decimal (n div 10)))"
      by (subst decimal.simps) simp
    moreover have "CHR 0x0A \<noteq> char_of (48 + n mod 10)" by (rule newline_no_digit) simp
    ultimately show ?thesis using "1.IH" [OF False] by blast
  qed
qed

text \<open>
  The output of the manager can be read back: between the fixed text and the end of the
  line of \<open>Opened connections\<close> stands the number of the connections in decimal.
\<close>

theorem opened_line_reads_back:
  "read_decimal (takeWhile (\<lambda>ch. ch \<noteq> CHR 0x0A) (drop (length ''Opened connections: '') (opened_line n))) = n"
proof -
  have "drop (length ''Opened connections: '') (opened_line n) = decimal n @ [CHR 0x0A]"
    by (simp add: opened_line_def)
  moreover have "takeWhile (\<lambda>ch. ch \<noteq> CHR 0x0A) (decimal n @ [CHR 0x0A]) = decimal n"
    using decimal_one_line [of n] by (induction "decimal n") (auto simp: takeWhile_append)
  ultimately show ?thesis by (simp add: read_decimal_decimal)
qed

end
