(* ===== verification/Server.thy ===== *)
theory Server
  imports Connection_Manager "HOL-Library.Multiset"
begin

text \<open>
  The server (\<open>Server\<close> of server.hpp and server.cpp) and the event loop that drives it. The
  state of the process is one record: the members of the class, the heap of the connections,
  standard output and the asynchronous operations in flight. Every completion handler of the
  program is an event. Boost.Asio chooses which operation completes and how; what its
  documentation promises about that is the predicate \<open>asio_ok\<close>. Shown: the invariant of the
  reachable states, the absence of accesses to destroyed connections, which exceptions can
  end the loop, the end of a connection, the shutdown and its termination, and what goes
  wrong when a connection cannot be established.
\<close>

section \<open>State\<close>

datatype server_op = Accept_op | Signal_op | Connection_op ConnectionPtr async_op

text \<open>
  The operations in flight are a multiset, since Asio promises no order between them:
  \<open>outstanding\<close> may complete with any result, \<open>cancelled\<close> are those of a closed socket.
\<close>

record Server =
  m_acceptor_open :: bool
  m_target_endpoint :: endpoint
  m_connection_manager :: ConnectionManager
  m_packet_logger :: PacketLogger
  heap :: connection_heap
  cout :: string
  outstanding :: "server_op multiset"
  cancelled :: "server_op multiset"

definition cancel_ops :: "(server_op \<Rightarrow> bool) \<Rightarrow> Server \<Rightarrow> Server" where
  "cancel_ops P s =
     s\<lparr>outstanding := filter_mset (\<lambda>op. \<not> P op) (outstanding s),
       cancelled := cancelled s + filter_mset P (outstanding s)\<rparr>"

definition start_ops :: "ConnectionPtr \<Rightarrow> async_op list \<Rightarrow> Server \<Rightarrow> Server" where
  "start_ops q ops s =
     s\<lparr>outstanding := outstanding s + image_mset (Connection_op q) (mset ops)\<rparr>"

fun is_op_of :: "ConnectionPtr set \<Rightarrow> server_op \<Rightarrow> bool" where
  "is_op_of Q (Connection_op q op) = (q \<in> Q)"
| "is_op_of Q Accept_op = False"
| "is_op_of Q Signal_op = False"

section \<open>Starting the asynchronous operations of the server\<close>

definition do_accept :: "Server \<Rightarrow> Server" where
  "do_accept s = s\<lparr>outstanding := add_mset Accept_op (outstanding s)\<rparr>"

definition do_await_stop :: "Server \<Rightarrow> Server" where
  "do_await_stop s = s\<lparr>outstanding := add_mset Signal_op (outstanding s)\<rparr>"

section \<open>Handlers\<close>

text \<open>
  The functor a connection calls when it ends: stop it in the manager, flush the log. The
  closed sockets cancel the operations of the connection; the object dies with the last
  shared pointer, when the functor returns.
\<close>

definition connection_stopped :: "asio_calls \<Rightarrow> ConnectionPtr \<Rightarrow> Server \<Rightarrow> Server result" where
  "connection_stopped net l_connection s =
     bind_res (manager_stop net l_connection (m_connection_manager s, heap s, cout s))
       (\<lambda>(m', h', out').
          Inr (cancel_ops (is_op_of {l_connection})
                 (s\<lparr>m_connection_manager := m', heap := h'(l_connection := None), cout := out',
                    m_packet_logger := logger_flush (m_packet_logger s)\<rparr>)))"

text \<open>The handler of \<open>async_accept\<close>; \<open>q\<close> is the address \<open>make_shared\<close> returned.\<close>

definition on_accept ::
  "asio_calls \<Rightarrow> error_code \<Rightarrow> socket \<Rightarrow> ConnectionPtr \<Rightarrow> Server \<Rightarrow> Server result" where
  "on_accept net l_error l_client_socket q s =
     (if \<not> m_acceptor_open s then Inr s
      else
        bind_res
          (if l_error = No_error then
             bind_res
               (manager_start net q
                  (m_connection_manager s,
                   (heap s)(q \<mapsto> new_Connection l_client_socket (m_target_endpoint s)), cout s))
               (\<lambda>((m', h', out'), ops).
                  Inr (start_ops q ops (s\<lparr>m_connection_manager := m', heap := h', cout := out'\<rparr>)))
           else Inr s)
          (\<lambda>s'. Inr (do_accept s')))"

text \<open>The handler of the signal: close the acceptor, stop and release every connection, flush.\<close>

definition on_signal :: "asio_calls \<Rightarrow> int option \<Rightarrow> Server \<Rightarrow> Server result" where
  "on_signal net acceptor_close s =
     bind_res (socket_check acceptor_close) (\<lambda>_.
     let s1 = cancel_ops (\<lambda>op. op = Accept_op) (s\<lparr>m_acceptor_open := False\<rparr>);
         Q = set (m_connections (m_connection_manager s1)) in
     bind_res (manager_stop_all net (m_connection_manager s1, heap s1, cout s1)) (\<lambda>(m', h', out').
     Inr (cancel_ops (is_op_of Q)
            (s1\<lparr>m_connection_manager := m', heap := h' |` (- Q), cout := out',
                m_packet_logger := logger_flush (m_packet_logger s1)\<rparr>))))"

text \<open>
  The handlers of a connection capture \<open>this\<close> only: the object is looked up in the heap in
  the branches that use it.
\<close>

definition connect_done :: "ConnectionPtr \<Rightarrow> error_code \<Rightarrow> Server \<Rightarrow> Server result" where
  "connect_done q l_error s =
     (if l_error = No_error then
        bind_res (load (heap s) q) (\<lambda>c.
        case on_connect l_error c of (c', ops) \<Rightarrow>
          Inr (start_ops q ops (s\<lparr>heap := (heap s)(q \<mapsto> c')\<rparr>)))
      else Inr s)"

definition receive_done ::
  "ConnectionPtr \<Rightarrow> bool \<Rightarrow> asio_calls \<Rightarrow> error_code \<Rightarrow> u8 list \<Rightarrow> Server \<Rightarrow> Server result" where
  "receive_done q from_client net l_error bs s =
     (if l_error = No_error then
        bind_res (load (heap s) q) (\<lambda>c.
        bind_res
          (on_receive net (Some packet_logger) from_client l_error (length bs)
             (deliver from_client bs c, m_packet_logger s, cout s))
          (\<lambda>((c', l', out'), ops).
             Inr (start_ops q ops
                    (s\<lparr>heap := (heap s)(q \<mapsto> c'), m_packet_logger := l', cout := out'\<rparr>))))
      else Inr s)"

definition read_some_done ::
  "ConnectionPtr \<Rightarrow> bool \<Rightarrow> asio_calls \<Rightarrow> error_code \<Rightarrow> u8 list \<Rightarrow> Server \<Rightarrow> Server result" where
  "read_some_done q from_client net l_error bs s =
     (if l_error = Operation_aborted then Inr s
      else
        bind_res (load (heap s) q) (\<lambda>c.
        bind_res
          (on_read_some net (Some packet_logger) from_client l_error (length bs)
             (if l_error = No_error then deliver from_client bs c else c, m_packet_logger s, cout s))
          (\<lambda>((c', l', out'), ops, stop).
             let s' = start_ops q ops
                        (s\<lparr>heap := (heap s)(q \<mapsto> c'), m_packet_logger := l', cout := out'\<rparr>)
             in if stop then connection_stopped net q s' else Inr s')))"

section \<open>The event loop\<close>

datatype server_event =
    Accept_done asio_calls error_code socket ConnectionPtr
  | Signal_done asio_calls "int option"
  | Connect_done ConnectionPtr endpoint error_code
  | Receive_done ConnectionPtr bool asio_calls error_code "u8 list"
  | Read_some_done ConnectionPtr bool asio_calls error_code "u8 list"

fun completed_op :: "server_event \<Rightarrow> server_op" where
  "completed_op (Accept_done net er sock q) = Accept_op"
| "completed_op (Signal_done net cl) = Signal_op"
| "completed_op (Connect_done q ep er) = Connection_op q (Async_connect ep)"
| "completed_op (Receive_done q b net er bs) = Connection_op q (Async_receive b)"
| "completed_op (Read_some_done q b net er bs) = Connection_op q (Async_read_some b)"

fun handle :: "server_event \<Rightarrow> Server \<Rightarrow> Server result" where
  "handle (Accept_done net er sock q) s = on_accept net er sock q s"
| "handle (Signal_done net cl) s = on_signal net cl s"
| "handle (Connect_done q ep er) s = connect_done q er s"
| "handle (Receive_done q b net er bs) s = receive_done q b net er bs s"
| "handle (Read_some_done q b net er bs) s = read_some_done q b net er bs s"

text \<open>One turn of \<open>io_context::run\<close>: an operation leaves the set, its handler runs.\<close>

definition server_step :: "server_event \<times> bool \<Rightarrow> Server \<Rightarrow> Server result" where
  "server_step x s =
     (case x of (ev, was_cancelled) \<Rightarrow>
        handle ev
          (if was_cancelled
           then s\<lparr>cancelled := cancelled s - {#completed_op ev#}\<rparr>
           else s\<lparr>outstanding := outstanding s - {#completed_op ev#}\<rparr>))"

text \<open>\<open>run\<close> returns when no operation is in flight.\<close>

definition run_returns :: "Server \<Rightarrow> bool" where
  "run_returns s \<longleftrightarrow> outstanding s = {#} \<and> cancelled s = {#}"

section \<open>Construction\<close>

datatype os_signal = SIGINT | SIGTERM | SIGQUIT

text \<open>
  The answers of the system during construction: \<open>None\<close> for a call that succeeds, the code of
  the \<open>system_error\<close> otherwise. A successful \<open>resolve\<close> returns a non-empty range, of which the
  code takes the first endpoint.
\<close>

record os_calls =
  os_add_signal :: "os_signal \<Rightarrow> int option"
  os_resolve :: "string \<Rightarrow> string \<Rightarrow> int + endpoint"
  os_acceptor_open :: "endpoint \<Rightarrow> int option"
  os_reuse_address :: "int option"
  os_bind :: "endpoint \<Rightarrow> int option"
  os_listen :: "int option"
  os_open_file :: "string \<Rightarrow> bool"

definition resolve :: "os_calls \<Rightarrow> string \<Rightarrow> string \<Rightarrow> endpoint result" where
  "resolve os address port =
     (case os_resolve os address port of Inl n \<Rightarrow> Inl (System_error n) | Inr ep \<Rightarrow> Inr ep)"

definition initial_Server :: "os_calls \<Rightarrow> string \<Rightarrow> Server" where
  "initial_Server os t_log_file_path =
     \<lparr>m_acceptor_open = False, m_target_endpoint = \<lparr>ep_address = [], ep_port = 0\<rparr>,
      m_connection_manager = new_ConnectionManager,
      m_packet_logger = new_PacketLogger (os_open_file os t_log_file_path),
      heap = Map.empty, cout = [], outstanding = {#}, cancelled = {#}\<rparr>"

definition new_Server ::
  "os_calls \<Rightarrow> string \<Rightarrow> string \<Rightarrow> string \<Rightarrow> string \<Rightarrow> string \<Rightarrow> Server result" where
  "new_Server os t_client_address t_client_port t_server_address t_server_port t_log_file_path =
     (let s0 = initial_Server os t_log_file_path in
      bind_res (socket_check (os_add_signal os SIGINT)) (\<lambda>_.
      bind_res (socket_check (os_add_signal os SIGTERM)) (\<lambda>_.
      bind_res (socket_check (os_add_signal os SIGQUIT)) (\<lambda>_.
      let s1 = do_await_stop s0 in
      bind_res (resolve os t_client_address t_client_port) (\<lambda>client_ep.
      bind_res (socket_check (os_acceptor_open os client_ep)) (\<lambda>_.
      let s2 = s1\<lparr>m_acceptor_open := True\<rparr> in
      bind_res (socket_check (os_reuse_address os)) (\<lambda>_.
      bind_res (socket_check (os_bind os client_ep)) (\<lambda>_.
      bind_res (socket_check (os_listen os)) (\<lambda>_.
      bind_res (resolve os t_server_address t_server_port) (\<lambda>server_ep.
      Inr (do_accept (s2\<lparr>m_target_endpoint := server_ep\<rparr>))))))))))))"

section \<open>What Asio promises\<close>

fun event_error :: "server_event \<Rightarrow> error_code" where
  "event_error (Accept_done net er sock q) = er"
| "event_error (Signal_done net cl) = No_error"
| "event_error (Connect_done q ep er) = er"
| "event_error (Receive_done q b net er bs) = er"
| "event_error (Read_some_done q b net er bs) = er"

text \<open>The bytes an event brings from a client.\<close>

fun client_bytes :: "server_event \<Rightarrow> nat" where
  "client_bytes (Receive_done q b net er bs) = (if b then length bs else 0)"
| "client_bytes (Read_some_done q b net er bs) = (if b then length bs else 0)"
| "client_bytes ev = 0"

text \<open>What fits into the buffer, and a fresh address from the allocator.\<close>

fun event_ok :: "server_event \<Rightarrow> Server \<Rightarrow> bool" where
  "event_ok (Accept_done net er sock q) s = (heap s q = None)"
| "event_ok (Receive_done q b net er bs) s = (length bs \<le> BUFFER_LENGTH)"
| "event_ok (Read_some_done q b net er bs) s = (length bs \<le> BUFFER_LENGTH)"
| "event_ok ev s = True"

text \<open>
  The documented behaviour: only an operation in flight completes, and one whose socket was
  closed completes with \<open>operation_aborted\<close>. (An operation that had completed before its socket
  was closed, and whose handler has not run yet, is the subject of Queued_Loop.)
\<close>

definition asio_ok :: "server_event \<times> bool \<Rightarrow> Server \<Rightarrow> bool" where
  "asio_ok x s \<longleftrightarrow>
     (case x of (ev, was_cancelled) \<Rightarrow>
        event_ok ev s \<and>
        (if was_cancelled
         then completed_op ev \<in># cancelled s \<and> event_error ev = Operation_aborted
         else completed_op ev \<in># outstanding s))"

section \<open>The handlers of a live connection\<close>

definition conn_ok :: "Connection \<Rightarrow> bool" where
  "conn_ok c \<longleftrightarrow>
     buffers_ok c \<and> talk_ok c \<and>
     frame_bounded (m_client_packet c) \<and> frame_bounded (m_server_packet c)"

lemma conn_ok_new: "conn_ok (new_Connection sock ep)"
  using talk_ok_new(1) [of sock ep]
  by (simp add: conn_ok_def buffers_ok_new)
    (simp add: new_Connection_def new_FromServerPacket_def frame_bounded_new)

lemma conn_ok_opened [simp]: "conn_ok (opened c) = conn_ok c"
  by (simp add: conn_ok_def opened_def buffers_ok_def talk_ok_def)

lemma do_transfer_conn_feed:
  "do_transfer net log_func b (length bs) (deliver b bs c, l, out) =
     bind_res (conn_feed log_func (net, b, bs) (c, l, out)) (\<lambda>ctx'. Inr (ctx', [Async_read_some b]))"
  by (simp add: conn_feed_def do_transfer_def bind_res_def split: sum.split prod.split)

lemma on_receive_conn_feed:
  "on_receive net log_func b No_error (length bs) (deliver b bs c, l, out) =
     bind_res (conn_feed log_func (net, b, bs) (c, l, out)) (\<lambda>ctx'. Inr (ctx', [Async_read_some b]))"
  by (simp add: on_receive_def do_transfer_conn_feed)

lemma on_read_some_conn_feed:
  "on_read_some net log_func b No_error (length bs) (deliver b bs c, l, out) =
     bind_res (conn_feed log_func (net, b, bs) (c, l, out))
       (\<lambda>ctx'. Inr (ctx', [Async_read_some b], False))"
  by (simp add: on_read_some_def do_transfer_conn_feed bind_res_assoc)

text \<open>
  The faults a chunk can raise, given the text that was collected before: \<open>length_error\<close> only
  when 40 full packets of a statement have arrived.
\<close>

definition expected_fault :: "nat \<Rightarrow> cxx_fault \<Rightarrow> bool" where
  "expected_fault n e \<longleftrightarrow>
     e = bad_packet \<or> (\<exists>k. e = System_error k) \<or> e = Length_error \<and> statement_bound \<le> n + 2"

lemma expected_faultI: "(\<exists>k. e = System_error k) \<Longrightarrow> expected_fault n e"
  by (simp add: expected_fault_def)

lemma conn_feed_ok:
  assumes "conn_ok c" and "length bs \<le> BUFFER_LENGTH"
  shows "case conn_feed log_func (net, b, bs) (c, l, out) of
           Inl e \<Rightarrow> expected_fault (length (client_text c) + (if b then length bs else 0)) e
         | Inr (c', l', out') \<Rightarrow> conn_ok c'"
proof -
  have talk: "talk_ok c" using assms(1) by (simp add: conn_ok_def)
  note faults = conn_feed_faults [OF talk, where log_func = log_func and net = net and b = b and
    bs = bs and l = l and out = out]
  show ?thesis
  proof (cases "conn_feed log_func (net, b, bs) (c, l, out)")
    case (Inl e)
    then show ?thesis using faults by (auto simp: expected_fault_def)
  next
    case (Inr x)
    then obtain c' l' out' where x: "conn_feed log_func (net, b, bs) (c, l, out) = Inr (c', l', out')"
      by (cases x) auto
    then obtain c1 s out1 where c1: "collect_chunk b bs (deliver b bs c, out) = Inr (c1, out1)"
      "c' = set_send_to_socket b s c1"
      by (auto simp: conn_feed_eq bind_res_eq_Inr)
    have "buffers_ok (deliver b bs c)" using assms by (intro buffers_ok_deliver) (simp_all add: conn_ok_def)
    then have "buffers_ok c' \<and> frame_bounded (m_client_packet c') \<and> frame_bounded (m_server_packet c')"
      using c1 assms(1) client.collect_all_bounded server.collect_all_bounded
      by (cases b) (auto simp: collect_chunk_def bind_res_eq_Inr set_send_to_socket_def buffers_ok_def
          conn_ok_def)
    then show ?thesis using faults x Inr by (simp add: conn_ok_def)
  qed
qed

section \<open>The operations in flight\<close>

fun uses_buffer :: "ConnectionPtr \<Rightarrow> bool \<Rightarrow> server_op \<Rightarrow> bool" where
  "uses_buffer q b (Connection_op q' (Async_connect ep)) = (q' = q)"
| "uses_buffer q b (Connection_op q' (Async_receive b')) = (q' = q \<and> b' = b)"
| "uses_buffer q b (Connection_op q' (Async_read_some b')) = (q' = q \<and> b' = b)"
| "uses_buffer q b Accept_op = False"
| "uses_buffer q b Signal_op = False"

text \<open>
  Operations belong to live connections, and each buffer is lent to at most one of them (a
  connect in flight counts for both buffers: its handler starts both reads).
\<close>

definition ops_ok :: "connection_heap \<Rightarrow> server_op multiset \<Rightarrow> bool" where
  "ops_ok h M \<longleftrightarrow>
     (\<forall>q op. Connection_op q op \<in># M \<longrightarrow> h q \<noteq> None) \<and>
     (\<forall>q b. size (filter_mset (uses_buffer q b) M) \<le> 1)"

lemma ops_ok_empty [simp]: "ops_ok h {#}"
  by (simp add: ops_ok_def)

lemma ops_ok_server_op [simp]:
  "ops_ok h (add_mset Accept_op M) = ops_ok h M" "ops_ok h (add_mset Signal_op M) = ops_ok h M"
  by (simp_all add: ops_ok_def)

lemma size_filter_add [simp]:
  "size (filter_mset P (add_mset x M)) = (if P x then 1 else 0) + size (filter_mset P M)"
  by simp

lemma ops_ok_remove:
  assumes "ops_ok h (add_mset op M)"
  shows "ops_ok h M"
proof -
  have "size (filter_mset P M) \<le> size (filter_mset P (add_mset op M))" for P :: "server_op \<Rightarrow> bool"
    by simp
  then have "\<forall>q b. size (filter_mset (uses_buffer q b) M) \<le> 1"
    using assms le_trans unfolding ops_ok_def by blast
  then show ?thesis using assms by (simp add: ops_ok_def)
qed

lemma ops_ok_dom: "dom h = dom h' \<Longrightarrow> ops_ok h M \<longleftrightarrow> ops_ok h' M"
  by (simp add: ops_ok_def set_eq_iff domIff)

lemma uses_buffer_op: "uses_buffer q b op \<Longrightarrow> \<exists>x. op = Connection_op q x"
  by (induction q b op rule: uses_buffer.induct) simp_all

lemma ops_ok_connect:
  assumes "ops_ok h M" and "h q = None"
  shows "ops_ok (h(q \<mapsto> c)) (add_mset (Connection_op q (Async_connect ep)) M)"
proof -
  have "filter_mset (uses_buffer q b) M = {#}" for b
    using assms uses_buffer_op by (fastforce simp: ops_ok_def filter_mset_eq_conv)
  then show ?thesis using assms by (auto simp: ops_ok_def)
qed

lemma ops_ok_connected:
  assumes "ops_ok h (add_mset (Connection_op q (Async_connect ep)) M)"
  shows "ops_ok h (add_mset (Connection_op q (Async_receive True))
                    (add_mset (Connection_op q (Async_receive False)) M))"
proof -
  have "filter_mset (uses_buffer q b) M = {#}" for b
    using assms by (force simp: ops_ok_def dest: spec [of _ q])
  moreover have "size (filter_mset (uses_buffer q' b) M) \<le> 1" for q' b
    using ops_ok_remove [OF assms] by (simp add: ops_ok_def)
  ultimately show ?thesis using assms by (auto simp: ops_ok_def)
qed

lemma ops_ok_read:
  assumes "ops_ok h (add_mset (Connection_op q x) M)" and "x = Async_receive b \<or> x = Async_read_some b"
  shows "ops_ok h (add_mset (Connection_op q (Async_read_some b)) M)"
proof -
  have same: "uses_buffer q' b' (Connection_op q x) =
      uses_buffer q' b' (Connection_op q (Async_read_some b))" for q' b'
    using assms(2) by auto
  have "size (filter_mset (uses_buffer q' b') (add_mset (Connection_op q (Async_read_some b)) M)) =
      size (filter_mset (uses_buffer q' b') (add_mset (Connection_op q x) M))" for q' b'
    by (simp only: size_filter_add same)
  then have "\<forall>q' b'. size (filter_mset (uses_buffer q' b')
      (add_mset (Connection_op q (Async_read_some b)) M)) \<le> 1"
    using assms(1) unfolding ops_ok_def by simp
  moreover have "\<forall>q' op. Connection_op q' op \<in># add_mset (Connection_op q (Async_read_some b)) M \<longrightarrow>
      h q' \<noteq> None"
    using assms(1) unfolding ops_ok_def by simp
  ultimately show ?thesis unfolding ops_ok_def by blast
qed

lemma ops_ok_stop:
  assumes "ops_ok h M"
  shows "ops_ok (h |` (- Q)) (filter_mset (\<lambda>op. \<not> is_op_of Q op) M)"
proof -
  have "size (filter_mset (uses_buffer q b) (filter_mset (\<lambda>op. \<not> is_op_of Q op) M)) \<le> 1" for q b
  proof -
    have "filter_mset (uses_buffer q b) (filter_mset (\<lambda>op. \<not> is_op_of Q op) M) \<subseteq>#
        filter_mset (uses_buffer q b) M"
      by (intro multiset_filter_mono) simp
    then show ?thesis
      using assms size_mset_mono le_trans unfolding ops_ok_def by blast
  qed
  then show ?thesis using assms by (auto simp: ops_ok_def restrict_map_def)
qed

section \<open>The invariant\<close>

definition server_inv :: "Server \<Rightarrow> bool" where
  "server_inv s \<longleftrightarrow>
     manager_ok (m_connection_manager s) (heap s) \<and>
     (\<forall>q c. heap s q = Some c \<longrightarrow> conn_ok c) \<and>
     ops_ok (heap s) (outstanding s) \<and>
     Signal_op \<notin># cancelled s \<and>
     (if m_acceptor_open s
      then Accept_op \<notin># cancelled s \<and>
           count (outstanding s) Accept_op = 1 \<and> count (outstanding s) Signal_op = 1
      else outstanding s = {#} \<and> heap s = Map.empty)"

lemma new_Server_iff:
  "new_Server os ca cp sa sp path = Inr s \<longleftrightarrow>
     (\<exists>client_ep server_ep.
        os_add_signal os SIGINT = None \<and> os_add_signal os SIGTERM = None \<and>
        os_add_signal os SIGQUIT = None \<and> os_resolve os ca cp = Inr client_ep \<and>
        os_acceptor_open os client_ep = None \<and> os_reuse_address os = None \<and>
        os_bind os client_ep = None \<and> os_listen os = None \<and> os_resolve os sa sp = Inr server_ep \<and>
        s = (initial_Server os path)\<lparr>m_acceptor_open := True, m_target_endpoint := server_ep,
               outstanding := {#Accept_op, Signal_op#}\<rparr>)"
  by (auto simp: new_Server_def resolve_def bind_res_iffs Let_def do_accept_def do_await_stop_def
      initial_Server_def split: sum.splits)

lemma new_Server_inv:
  assumes "new_Server os ca cp sa sp path = Inr s"
  shows "server_inv s" and "m_acceptor_open s" and "heap s = Map.empty"
  using assms manager_ok_new
  by (auto simp: new_Server_iff server_inv_def initial_Server_def)

section \<open>Preservation of the invariant\<close>

lemma server_inv_cancelled:
  "server_inv s \<Longrightarrow> server_inv (s\<lparr>cancelled := cancelled s - M\<rparr>)"
  by (auto simp: server_inv_def dest: in_diffD)

lemma step_cancelled:
  assumes "server_inv s" and "asio_ok (ev, True) s"
  shows "server_step (ev, True) s = Inr (s\<lparr>cancelled := cancelled s - {#completed_op ev#}\<rparr>)"
proof (cases ev)
  case (Accept_done net er sock q)
  then have "\<not> m_acceptor_open s" using assms by (auto simp: asio_ok_def server_inv_def split: if_splits)
  then show ?thesis using Accept_done by (simp add: server_step_def on_accept_def)
next
  case (Signal_done net cl)
  then show ?thesis using assms by (auto simp: asio_ok_def)
qed (use assms in \<open>simp_all add: asio_ok_def server_step_def connect_done_def receive_done_def
      read_some_done_def\<close>)

text \<open>An outstanding operation: the acceptor is still open.\<close>

lemma step_outstanding:
  assumes "server_inv s" and "asio_ok (ev, False) s"
  obtains M where "outstanding s = add_mset (completed_op ev) M" and "m_acceptor_open s"
    and "server_step (ev, False) s = handle ev (s\<lparr>outstanding := M\<rparr>)"
proof -
  have "completed_op ev \<in># outstanding s" using assms(2) by (simp add: asio_ok_def)
  then obtain M where M: "outstanding s = add_mset (completed_op ev) M"
    by (metis multi_member_split)
  moreover have "m_acceptor_open s" using assms(1) M by (auto simp: server_inv_def split: if_splits)
  ultimately show thesis using that by (simp add: server_step_def)
qed

lemma on_accept_inv:
  assumes "server_inv s" and "outstanding s = add_mset Accept_op M" and "m_acceptor_open s"
    and "heap s q = None"
  shows "case on_accept net er sock q (s\<lparr>outstanding := M\<rparr>) of
           Inl e \<Rightarrow> \<exists>k. e = System_error k | Inr s' \<Rightarrow> server_inv s'"
proof (cases "er = No_error")
  case False
  have "s\<lparr>outstanding := add_mset Accept_op M\<rparr> = s" using assms(2) by simp
  then have "server_inv (s\<lparr>outstanding := add_mset Accept_op M\<rparr>)" using assms(1) by metis
  then show ?thesis using False assms(3) by (simp add: on_accept_def do_accept_def)
next
  case True
  let ?c = "new_Connection sock (m_target_endpoint s)"
  let ?st = "(m_connection_manager s, (heap s)(q \<mapsto> ?c), cout s)"
  show ?thesis
  proof (cases "manager_start net q ?st")
    case (Inl e)
    then have "\<exists>k. e = System_error k" by (rule manager_start_fault) simp
    then show ?thesis using Inl True assms(3) by (simp add: on_accept_def)
  next
    case (Inr x)
    obtain m' h' out' ops where x: "x = ((m', h', out'), ops)" by (cases x) auto
    have ok: "manager_ok (m_connection_manager s) (heap s)" "ops_ok (heap s) M"
      using assms(1,2) by (simp_all add: server_inv_def)
    from Inr x have st: "h' = (heap s)(q \<mapsto> opened ?c)"
      "ops = [Async_connect (m_server_endpoint ?c)]"
      by (auto simp: manager_start_iff)
    have "manager_ok m' h'" using manager_start_ok(1) [OF ok(1)] Inr x by blast
    moreover have "ops_ok h' (add_mset (Connection_op q (Async_connect (m_server_endpoint ?c))) M)"
      unfolding st using ok(2) assms(4) by (rule ops_ok_connect)
    ultimately show ?thesis
      using Inr x st True assms by (auto simp: on_accept_def do_accept_def start_ops_def server_inv_def
          conn_ok_new)
  qed
qed

lemma connection_stopped_inv:
  assumes "server_inv s" and "m_acceptor_open s" and "heap s q \<noteq> None"
  shows "case connection_stopped net q s of
           Inl e \<Rightarrow> \<exists>k. e = System_error k | Inr s' \<Rightarrow> server_inv s'"
proof (cases "manager_stop net q (m_connection_manager s, heap s, cout s)")
  case (Inl e)
  then show ?thesis
    using manager_stop_fault [OF Inl assms(3)] by (auto simp: connection_stopped_def)
next
  case (Inr x)
  obtain m' h' out' where x: "x = (m', h', out')" by (cases x) auto
  have ok: "manager_ok (m_connection_manager s) (heap s)" "ops_ok (heap s) (outstanding s)"
    using assms(1) by (simp_all add: server_inv_def)
  have h': "h'(q := None) = (heap s)(q := None)" using Inr x by (auto simp: manager_stop_iff)
  have "manager_ok m' (h'(q := None))" using manager_stop_ok(1) [OF ok(1)] Inr x by blast
  moreover have "ops_ok ((heap s)(q := None)) (filter_mset (\<lambda>op. \<not> is_op_of {q} op) (outstanding s))"
    using ops_ok_stop [OF ok(2), of "{q}"] by (simp add: restrict_complement_singleton_eq)
  moreover have "conn_ok c" if "((heap s)(q := None)) q' = Some c" for q' c
    using assms(1) that by (auto simp: server_inv_def split: if_splits)
  ultimately show ?thesis
    using Inr x assms(1,2) by (auto simp: connection_stopped_def cancel_ops_def server_inv_def h')
qed

lemma on_signal_inv:
  assumes "server_inv s" and "outstanding s = add_mset Signal_op M" and "m_acceptor_open s"
  shows "case on_signal net cl (s\<lparr>outstanding := M\<rparr>) of
           Inl e \<Rightarrow> \<exists>k. e = System_error k | Inr s' \<Rightarrow> server_inv s' \<and> \<not> m_acceptor_open s'"
proof (cases cl)
  case (Some k)
  then show ?thesis by (auto simp: on_signal_def socket_check_def)
next
  case None
  have ok: "manager_ok (m_connection_manager s) (heap s)" using assms(1) by (simp add: server_inv_def)
  then have Q: "set (m_connections (m_connection_manager s)) = dom (heap s)"
    by (simp add: manager_ok_def)
  show ?thesis
  proof (cases "manager_stop_all net (m_connection_manager s, heap s, cout s)")
    case (Inl e)
    then have "\<exists>k. e = System_error k"
      using stop_one_fold_fault Q by (fastforce simp: manager_stop_all_def bind_res_iffs)
    then show ?thesis using Inl None
      by (simp add: on_signal_def cancel_ops_def Let_def socket_check_def)
  next
    case (Inr x)
    then obtain h' out' where x: "x = (m_connection_manager s\<lparr>m_connections := []\<rparr>, h', out')"
      and fold: "fold_res (stop_one net) (m_connections (m_connection_manager s)) (heap s) = Inr h'"
      by (auto simp: manager_stop_all_def bind_res_iffs)
    have "h' = (\<lambda>q. if q \<in> dom (heap s) then map_option closed (heap s q) else heap s q)"
      using stop_one_fold(1) [OF fold] ok by (simp add: manager_ok_def set_ok_distinct Q)
    then have dom: "h' |` (- dom (heap s)) = Map.empty"
      by (auto simp: fun_eq_iff restrict_map_def domIff)
    have "is_op_of (dom (heap s)) op" if "op \<in># M" "op \<noteq> Accept_op" for op
      using that assms by (cases op) (auto simp: server_inv_def ops_ok_def count_eq_zero_iff domIff)
    then have none: "filter_mset (\<lambda>op. \<not> is_op_of (dom (heap s)) op)
        (filter_mset (\<lambda>op. op \<noteq> Accept_op) M) = {#}"
      by (auto simp: filter_mset_eq_conv)
    have "Signal_op \<notin># M" using assms by (simp add: server_inv_def count_eq_zero_iff)
    then show ?thesis
      using Inr x None dom assms(1) manager_ok_new
      by (auto simp: none on_signal_def cancel_ops_def Let_def socket_check_def server_inv_def Q
          manager_ok_def)
  qed
qed

text \<open>
  A handler of a connection that keeps the connection: the object is replaced by a good one,
  the operation by the ones the handler started.
\<close>

lemma server_inv_replace:
  assumes "server_inv s" and "m_acceptor_open s"
    and "outstanding s = add_mset (Connection_op q op) M" and "heap s q = Some c0" and "conn_ok c"
    and "ops_ok (heap s) (image_mset (Connection_op q) (mset ops) + M)"
  shows "server_inv (start_ops q ops
           (s\<lparr>outstanding := M, heap := (heap s)(q \<mapsto> c), m_packet_logger := l, cout := out\<rparr>))"
proof -
  have dom: "dom ((heap s)(q \<mapsto> c)) = dom (heap s)" using assms(4) by auto
  have "manager_ok (m_connection_manager s) ((heap s)(q \<mapsto> c))"
    using assms(1) dom by (simp add: server_inv_def manager_ok_def)
  moreover have "ops_ok ((heap s)(q \<mapsto> c)) (M + image_mset (Connection_op q) (mset ops))"
    using assms(6) ops_ok_dom [OF dom] by (simp add: union_commute)
  moreover have "count (image_mset (Connection_op q) (mset ops)) Accept_op = 0"
    "count (image_mset (Connection_op q) (mset ops)) Signal_op = 0"
    by (auto simp: count_eq_zero_iff)
  ultimately show ?thesis
    using assms(1-3,5) by (simp add: server_inv_def start_ops_def)
qed

lemma server_inv_drop:
  assumes "server_inv s" and "m_acceptor_open s" and "outstanding s = add_mset (Connection_op q op) M"
  shows "server_inv (s\<lparr>outstanding := M\<rparr>)"
  using assms ops_ok_remove [of "heap s" "Connection_op q op" M] by (simp add: server_inv_def)

text \<open>The faults of a chunk of a connection.\<close>

definition chunk_fault :: "Server \<Rightarrow> ConnectionPtr \<Rightarrow> nat \<Rightarrow> cxx_fault \<Rightarrow> bool" where
  "chunk_fault s q n e \<longleftrightarrow> (\<exists>c. heap s q = Some c \<and> expected_fault (length (client_text c) + n) e)"

lemma connection_op_live:
  assumes "server_inv s" and "Connection_op q op \<in># outstanding s"
  obtains c where "heap s q = Some c" and "conn_ok c"
  using assms by (auto simp: server_inv_def ops_ok_def)

lemma connect_done_inv:
  assumes inv: "server_inv s" "m_acceptor_open s"
    and M: "outstanding s = add_mset (Connection_op q (Async_connect ep)) M"
  shows "\<exists>s'. connect_done q er (s\<lparr>outstanding := M\<rparr>) = Inr s' \<and> server_inv s'"
proof (cases "er = No_error")
  case False
  then show ?thesis using server_inv_drop [OF inv M] by (simp add: connect_done_def)
next
  case True
  obtain c where c: "heap s q = Some c" "conn_ok c"
    using connection_op_live [OF inv(1), of q] M by force
  have ops: "ops_ok (heap s) (image_mset (Connection_op q)
      (mset [Async_receive True, Async_receive False]) + M)"
    using ops_ok_connected [of "heap s" q ep M] inv(1) M by (simp add: server_inv_def)
  have "server_inv (start_ops q [Async_receive True, Async_receive False]
      (s\<lparr>outstanding := M, heap := (heap s)(q \<mapsto> c), m_packet_logger := m_packet_logger s,
         cout := cout s\<rparr>))"
    by (rule server_inv_replace [OF inv M c ops])
  then show ?thesis
    using True c by (simp add: connect_done_def on_connect_def do_receive_def load_def)
qed

text \<open>The successful completion of a read, by either handler.\<close>

lemma chunk_inv:
  assumes inv: "server_inv s" "m_acceptor_open s" and M: "outstanding s = add_mset (Connection_op q x) M"
    and x: "x = Async_receive b \<or> x = Async_read_some b"
    and bound: "length bs \<le> BUFFER_LENGTH"
    and c: "heap s q = Some c" "conn_ok c"
  shows "case conn_feed (Some packet_logger) (net, b, bs) (c, m_packet_logger s, cout s) of
           Inl e \<Rightarrow> chunk_fault s q (if b then length bs else 0) e
         | Inr (c', l', out') \<Rightarrow>
             server_inv (start_ops q [Async_read_some b]
               (s\<lparr>outstanding := M, heap := (heap s)(q \<mapsto> c'), m_packet_logger := l', cout := out'\<rparr>))"
proof -
  have ops: "ops_ok (heap s) (image_mset (Connection_op q) (mset [Async_read_some b]) + M)"
    using ops_ok_read [of "heap s" q x M b] inv(1) M x by (simp add: server_inv_def)
  show ?thesis
    using conn_feed_ok [OF c(2) bound, where log_func = "Some packet_logger" and net = net and b = b and
        l = "m_packet_logger s" and out = "cout s"] server_inv_replace [OF inv M c(1) _ ops] c(1)
    by (auto simp: chunk_fault_def split: sum.splits)
qed

lemma receive_done_inv:
  assumes inv: "server_inv s" "m_acceptor_open s"
    and M: "outstanding s = add_mset (Connection_op q (Async_receive b)) M"
    and bound: "length bs \<le> BUFFER_LENGTH"
  shows "case receive_done q b net er bs (s\<lparr>outstanding := M\<rparr>) of
           Inl e \<Rightarrow> chunk_fault s q (if b then length bs else 0) e | Inr s' \<Rightarrow> server_inv s'"
proof (cases "er = No_error")
  case False
  then show ?thesis
    using server_inv_drop [OF inv M] by (simp add: receive_done_def)
next
  case True
  obtain c where c: "heap s q = Some c" "conn_ok c"
    using connection_op_live [OF inv(1), of q] M by force
  show ?thesis
    using chunk_inv [OF inv M disjI1 [OF refl] bound c, of net] True c
    by (auto simp: receive_done_def load_def on_receive_conn_feed bind_res_def split: sum.splits)
qed

lemma read_some_done_inv:
  assumes inv: "server_inv s" "m_acceptor_open s"
    and M: "outstanding s = add_mset (Connection_op q (Async_read_some b)) M"
    and bound: "length bs \<le> BUFFER_LENGTH"
  shows "case read_some_done q b net er bs (s\<lparr>outstanding := M\<rparr>) of
           Inl e \<Rightarrow> chunk_fault s q (if b then length bs else 0) e | Inr s' \<Rightarrow> server_inv s'"
proof -
  obtain c where c: "heap s q = Some c" "conn_ok c"
    using connection_op_live [OF inv(1), of q] M by force
  have drop: "server_inv (s\<lparr>outstanding := M\<rparr>)" using inv M by (rule server_inv_drop)
  consider "er = Operation_aborted" | "er = No_error" | "er \<noteq> Operation_aborted" "er \<noteq> No_error"
    by blast
  then show ?thesis
  proof cases
    case 1
    then show ?thesis using drop by (simp add: read_some_done_def)
  next
    case 2
    show ?thesis
      using chunk_inv [OF inv M disjI2 [OF refl] bound c, of net] 2 c
      by (auto simp: read_some_done_def load_def on_read_some_conn_feed bind_res_def Let_def
          split: sum.splits)
  next
    case 3
    have same: "start_ops q [] (s\<lparr>outstanding := M, heap := (heap s)(q \<mapsto> c),
        m_packet_logger := m_packet_logger s, cout := cout s\<rparr>) = s\<lparr>outstanding := M\<rparr>"
      using c by (simp add: start_ops_def fun_upd_idem)
    have "read_some_done q b net er bs (s\<lparr>outstanding := M\<rparr>) =
        connection_stopped net q (s\<lparr>outstanding := M\<rparr>)"
      using c 3 same by (simp add: read_some_done_def load_def on_read_some_def)
    moreover have "case connection_stopped net q (s\<lparr>outstanding := M\<rparr>) of
        Inl e \<Rightarrow> chunk_fault s q (if b then length bs else 0) e | Inr s' \<Rightarrow> server_inv s'"
      using connection_stopped_inv [OF drop, of q net] inv(2) c
      by (auto simp: chunk_fault_def expected_fault_def split: sum.splits)
    ultimately show ?thesis
      by (cases "connection_stopped net q (s\<lparr>outstanding := M\<rparr>)") (simp_all split del: if_split)
  qed
qed

text \<open>The faults of a turn of the loop.\<close>

fun subject :: "server_event \<Rightarrow> ConnectionPtr option" where
  "subject (Receive_done q b net er bs) = Some q"
| "subject (Read_some_done q b net er bs) = Some q"
| "subject ev = None"

definition step_fault :: "Server \<Rightarrow> server_event \<Rightarrow> cxx_fault \<Rightarrow> bool" where
  "step_fault s ev e \<longleftrightarrow>
     e = bad_packet \<or> (\<exists>k. e = System_error k) \<or>
     e = Length_error \<and>
       (\<exists>q c. subject ev = Some q \<and> heap s q = Some c \<and>
          statement_bound \<le> length (client_text c) + client_bytes ev + 2)"

lemma step_fault_system: "\<exists>k. e = System_error k \<Longrightarrow> step_fault s ev e"
  by (simp add: step_fault_def)

lemma step_fault_chunk: "chunk_fault s q (client_bytes ev) e \<Longrightarrow> subject ev = Some q \<Longrightarrow> step_fault s ev e"
  by (auto simp: step_fault_def chunk_fault_def expected_fault_def)

lemma server_step_inv:
  assumes "server_inv s" and "asio_ok x s"
  shows "case server_step x s of Inl e \<Rightarrow> step_fault s (fst x) e | Inr s' \<Rightarrow> server_inv s'"
proof -
  obtain ev c where x: "x = (ev, c)" by (cases x)
  show ?thesis
  proof (cases c)
    case True
    then show ?thesis
      using step_cancelled [of s ev] assms server_inv_cancelled [OF assms(1)] by (simp add: x)
  next
    case False
    then have x': "x = (ev, False)" and "asio_ok (ev, False) s" using assms(2) x by simp_all
    then obtain M where M: "outstanding s = add_mset (completed_op ev) M" and "open": "m_acceptor_open s"
      and step: "server_step x s = handle ev (s\<lparr>outstanding := M\<rparr>)"
      using step_outstanding [OF assms(1), of ev] unfolding x' by blast
    have ok: "event_ok ev s" using assms(2) by (simp add: asio_ok_def x)
    show ?thesis
    proof (cases ev)
      case (Accept_done net er sock q)
      then show ?thesis
        using on_accept_inv [OF assms(1) _ "open", of M q net er sock] M ok step
        by (auto simp: x step_fault_system split: sum.splits)
    next
      case (Signal_done net cl)
      then show ?thesis
        using on_signal_inv [OF assms(1) _ "open", of M net cl] M step
        by (auto simp: x step_fault_system split: sum.splits)
    next
      case (Connect_done q ep er)
      then show ?thesis
        using connect_done_inv [OF assms(1) "open", of q ep M er] M step by (auto simp: x)
    next
      case (Receive_done q b net er bs)
      then show ?thesis
        using receive_done_inv [OF assms(1) "open", of q b M bs net er] M ok step
          step_fault_chunk [of s q ev]
        by (auto simp: x split: sum.splits)
    next
      case (Read_some_done q b net er bs)
      then show ?thesis
        using read_some_done_inv [OF assms(1) "open", of q b M bs net er] M ok step
          step_fault_chunk [of s q ev]
        by (auto simp: x split: sum.splits)
    qed
  qed
qed

section \<open>Runs of the event loop\<close>

inductive runs :: "Server \<Rightarrow> (server_event \<times> bool) list \<Rightarrow> Server \<Rightarrow> bool" where
  runs_Nil: "runs s [] s"
| runs_step: "runs s xs s1 \<Longrightarrow> asio_ok x s1 \<Longrightarrow> server_step x s1 = Inr s2 \<Longrightarrow> runs s (xs @ [x]) s2"

inductive_simps runs_Nil_iff [simp]: "runs s [] s'"
inductive_cases runs_stepE: "runs s (xs @ [x]) s'"

definition total_client_bytes :: "(server_event \<times> bool) list \<Rightarrow> nat" where
  "total_client_bytes xs = sum_list (map (client_bytes \<circ> fst) xs)"

lemma total_client_bytes_simps [simp]:
  "total_client_bytes [] = 0"
  "total_client_bytes (xs @ [x]) = total_client_bytes xs + client_bytes (fst x)"
  by (simp_all add: total_client_bytes_def)

lemma runs_inv:
  assumes "runs s xs s'" and "server_inv s"
  shows "server_inv s'"
  using assms
proof (induction rule: runs.induct)
  case (runs_Nil s)
  then show ?case by simp
next
  case (runs_step s xs s1 x s2)
  then have "server_inv s1" by simp
  from server_step_inv [OF this runs_step.hyps(2)] runs_step.hyps(3) show ?case by simp
qed

text \<open>The states of a server that was constructed and has been running.\<close>

definition running :: "nat \<Rightarrow> Server \<Rightarrow> bool" where
  "running n s \<longleftrightarrow>
     (\<exists>os ca cp sa sp path s0 xs.
        new_Server os ca cp sa sp path = Inr s0 \<and> runs s0 xs s \<and> n = total_client_bytes xs)"

lemma running_inv:
  assumes "running n s"
  shows "server_inv s"
  using assms runs_inv [OF _ new_Server_inv(1)] by (fastforce simp: running_def)

lemma running_step:
  assumes "running n s" and "asio_ok x s" and "server_step x s = Inr s'"
  shows "running (n + client_bytes (fst x)) s'"
  using assms runs_step unfolding running_def by (metis total_client_bytes_simps(2))

lemma running_runs:
  assumes "runs s xs s'" and "running n s"
  shows "running (n + total_client_bytes xs) s'"
  using assms
proof (induction rule: runs.induct)
  case (runs_Nil s)
  then show ?case by simp
next
  case (runs_step s xs s1 x s2)
  then have "running (n + total_client_bytes xs) s1" by simp
  from running_step [OF this runs_step.hyps(2,3)] show ?case by (simp add: add.assoc)
qed

section \<open>What an event does not touch\<close>

fun concerns :: "ConnectionPtr \<Rightarrow> server_event \<Rightarrow> bool" where
  "concerns q (Accept_done net er sock q') = (q' = q)"
| "concerns q (Signal_done net cl) = True"
| "concerns q (Connect_done q' ep er) = (q' = q)"
| "concerns q (Receive_done q' b net er bs) = (q' = q)"
| "concerns q (Read_some_done q' b net er bs) = (q' = q)"

definition ops_of :: "ConnectionPtr \<Rightarrow> Server \<Rightarrow> server_op multiset" where
  "ops_of q s = filter_mset (is_op_of {q}) (outstanding s)"

lemma ops_of_simps [simp]:
  "ops_of q (start_ops q' ops s) =
     (if q' = q then image_mset (Connection_op q) (mset ops) else {#}) + ops_of q s"
  "ops_of q (do_accept s) = ops_of q s"
  "q' \<noteq> q \<Longrightarrow> ops_of q (cancel_ops (is_op_of {q'}) s) = ops_of q s"
  "ops_of q (cancel_ops (is_op_of {q}) s) = {#}"
proof -
  have "filter_mset (is_op_of {q}) (image_mset (Connection_op q') (mset ops)) =
      (if q' = q then image_mset (Connection_op q) (mset ops) else {#})" for q'
    by (induction ops) auto
  then show "ops_of q (start_ops q' ops s) =
     (if q' = q then image_mset (Connection_op q) (mset ops) else {#}) + ops_of q s"
    by (simp add: ops_of_def start_ops_def union_commute)
  show "ops_of q (do_accept s) = ops_of q s" by (simp add: ops_of_def do_accept_def)
  show "q' \<noteq> q \<Longrightarrow> ops_of q (cancel_ops (is_op_of {q'}) s) = ops_of q s"
    unfolding ops_of_def cancel_ops_def
    by (simp add: filter_filter_mset) (rule filter_mset_cong, simp, metis is_op_of.elims(2) is_op_of.simps(1) singletonD)
  show "ops_of q (cancel_ops (is_op_of {q}) s) = {#}"
    by (simp add: ops_of_def cancel_ops_def filter_filter_mset filter_mset_False)
qed

lemma ops_of_update [simp]:
  "ops_of q (s\<lparr>heap := h\<rparr>) = ops_of q s" "ops_of q (s\<lparr>cout := t\<rparr>) = ops_of q s"
  "ops_of q (s\<lparr>m_packet_logger := l\<rparr>) = ops_of q s"
  "ops_of q (s\<lparr>m_connection_manager := m\<rparr>) = ops_of q s"
  "ops_of q (s\<lparr>cancelled := M\<rparr>) = ops_of q s"
  "\<not> is_op_of {q} op \<Longrightarrow> ops_of q (s\<lparr>outstanding := outstanding s - {#op#}\<rparr>) = ops_of q s"
  by (simp_all add: ops_of_def filter_diff_mset)

lemma heap_update [simp]:
  "heap (start_ops q ops s) = heap s" "heap (do_accept s) = heap s" "heap (cancel_ops P s) = heap s"
  by (simp_all add: start_ops_def do_accept_def cancel_ops_def)

lemma connection_stopped_other:
  assumes "connection_stopped net q' s = Inr s'" and "q' \<noteq> q"
  shows "heap s' q = heap s q \<and> ops_of q s' = ops_of q s"
  using assms by (auto simp: connection_stopped_def bind_res_iffs manager_stop_iff)

lemma handle_other:
  assumes "handle ev s = Inr s'" and "\<not> concerns q ev"
  shows "heap s' q = heap s q \<and> ops_of q s' = ops_of q s"
proof (cases ev)
  case (Accept_done net er sock q')
  then show ?thesis
    using assms by (auto simp: on_accept_def bind_res_iffs manager_start_iff split: if_splits)
next
  case (Signal_done net cl)
  then show ?thesis using assms by simp
next
  case (Connect_done q' ep er)
  then show ?thesis
    using assms by (auto simp: connect_done_def on_connect_def do_receive_def bind_res_iffs split: if_splits)
next
  case (Receive_done q' b net er bs)
  then show ?thesis
    using assms by (auto simp: receive_done_def bind_res_iffs split: if_splits)
next
  case (Read_some_done q' b net er bs)
  then show ?thesis
    using assms by (auto simp: read_some_done_def bind_res_iffs Let_def split: if_splits
        dest: connection_stopped_other)
qed

lemma step_other:
  assumes "server_step (ev, c) s = Inr s'" and "\<not> concerns q ev"
  shows "heap s' q = heap s q \<and> ops_of q s' = ops_of q s"
proof -
  have "\<not> is_op_of {q} (completed_op ev)" using assms(2) by (cases ev) auto
  then show ?thesis
    using handle_other [OF _ assms(2), of _ s'] assms(1)
    by (cases c) (fastforce simp: server_step_def)+
qed

text \<open>A connection without operations in flight is never touched again before the signal.\<close>

definition forgotten :: "ConnectionPtr \<Rightarrow> Connection \<Rightarrow> Server \<Rightarrow> bool" where
  "forgotten q c s \<longleftrightarrow> heap s q = Some c \<and> ops_of q s = {#}"

lemma ops_of_empty_iff: "ops_of q s = {#} \<longleftrightarrow> (\<forall>op. Connection_op q op \<notin># outstanding s)"
proof -
  have "is_op_of {q} op \<longleftrightarrow> (\<exists>x. op = Connection_op q x)" for op
    by (cases op) auto
  then show ?thesis by (auto simp: ops_of_def filter_mset_eq_conv)
qed

lemma forgotten_step:
  assumes "forgotten q c s" and "server_inv s" and "asio_ok x s" and "server_step x s = Inr s'"
    and "m_acceptor_open s'"
  shows "forgotten q c s'"
proof -
  obtain ev w where x: "x = (ev, w)" by (cases x)
  show ?thesis
  proof (cases w)
    case True
    then show ?thesis
      using step_cancelled [OF assms(2), of ev] assms(1,3,4) by (auto simp: x forgotten_def)
  next
    case False
    have in_flight: "completed_op ev \<in># outstanding s" and ok: "event_ok ev s"
      using assms(3) False by (simp_all add: x asio_ok_def)
    show ?thesis
    proof (cases "concerns q ev")
      case False
      then show ?thesis using step_other [OF assms(4) [unfolded x]] assms(1) by (simp add: forgotten_def)
    next
      case True
      have "\<exists>net cl. ev = Signal_done net cl"
        using True in_flight ok assms(1) by (cases ev) (auto simp: forgotten_def ops_of_empty_iff)
      then obtain net cl where ev: "ev = Signal_done net cl" by blast
      from assms(2,3) obtain M where M: "outstanding s = add_mset (completed_op ev) M"
        "m_acceptor_open s" "server_step (ev, False) s = handle ev (s\<lparr>outstanding := M\<rparr>)"
        using step_outstanding [of s ev] \<open>\<not> w\<close> x by auto
      then have "\<not> m_acceptor_open s'"
        using on_signal_inv [OF assms(2), of M net cl] assms(4) \<open>\<not> w\<close> by (simp add: x ev)
      then show ?thesis using assms(5) by simp
    qed
  qed
qed

section \<open>After the signal\<close>

lemma closed_step:
  assumes "server_inv s" and "\<not> m_acceptor_open s" and "asio_ok x s"
  shows "server_step x s = Inr (s\<lparr>cancelled := cancelled s - {#completed_op (fst x)#}\<rparr>)"
    and "completed_op (fst x) \<in># cancelled s"
proof -
  obtain ev w where x: "x = (ev, w)" by (cases x)
  have w: "w" using assms by (cases w) (auto simp: x asio_ok_def server_inv_def)
  show "server_step x s = Inr (s\<lparr>cancelled := cancelled s - {#completed_op (fst x)#}\<rparr>)"
    using step_cancelled [OF assms(1), of ev] assms(3) w by (simp add: x)
  show "completed_op (fst x) \<in># cancelled s" using assms(3) w by (simp add: x asio_ok_def)
qed

lemma closed_runs:
  assumes "runs s xs s'" and "server_inv s" and "\<not> m_acceptor_open s"
  shows "\<exists>M. s' = s\<lparr>cancelled := M\<rparr> \<and> size M + length xs = size (cancelled s) \<and> server_inv s'"
  using assms
proof (induction rule: runs.induct)
  case (runs_Nil s)
  have "s = s\<lparr>cancelled := cancelled s\<rparr>" by simp
  then show ?case using runs_Nil.prems by fastforce
next
  case (runs_step s xs s1 x s2)
  then obtain M where M: "s1 = s\<lparr>cancelled := M\<rparr>" "size M + length xs = size (cancelled s)"
    "server_inv s1" by blast
  have closed: "\<not> m_acceptor_open s1" using M(1) runs_step.prems(2) by simp
  have s2: "s2 = s\<lparr>cancelled := M - {#completed_op (fst x)#}\<rparr>"
    using closed_step(1) [OF M(3) closed runs_step.hyps(2)] runs_step.hyps(3) M(1) by simp
  moreover have "server_inv s2"
    using server_inv_cancelled [OF M(3), of "{#completed_op (fst x)#}"] s2 M(1) by simp
  moreover have "size (M - {#completed_op (fst x)#}) + length (xs @ [x]) = size (cancelled s)"
    using closed_step(2) [OF M(3) closed runs_step.hyps(2)] M(1,2)
    by (auto simp: size_Diff_singleton dest!: multi_member_split)
  ultimately show ?case by blast
qed

lemma forgotten_runs:
  assumes "runs s xs s'" and "forgotten q c s" and "server_inv s" and "m_acceptor_open s'"
  shows "forgotten q c s'"
  using assms
proof (induction rule: runs.induct)
  case (runs_Nil s)
  then show ?case by simp
next
  case (runs_step s xs s1 x s2)
  have inv: "server_inv s1"
    using runs_inv [OF runs_step.hyps(1) runs_step.prems(2)] .
  have "open": "m_acceptor_open s1"
  proof (rule ccontr)
    assume "\<not> m_acceptor_open s1"
    then show False
      using closed_step(1) [OF inv _ runs_step.hyps(2)] runs_step.hyps(3) runs_step.prems(3) by auto
  qed
  then have "forgotten q c s1"
    using runs_step.IH runs_step.prems by simp
  then show ?case
    using inv runs_step.hyps(2,3) runs_step.prems(3) by (rule forgotten_step)
qed

section \<open>Forwarding by the server\<close>

text \<open>The chunks of a connection in a run.\<close>

fun chunk_of :: "ConnectionPtr \<Rightarrow> server_event \<Rightarrow> (asio_calls \<times> bool \<times> u8 list) list" where
  "chunk_of q (Receive_done q' b net er bs) = (if q' = q \<and> er = No_error then [(net, b, bs)] else [])"
| "chunk_of q (Read_some_done q' b net er bs) = (if q' = q \<and> er = No_error then [(net, b, bs)] else [])"
| "chunk_of q ev = []"

definition chunks_of :: "ConnectionPtr \<Rightarrow> (server_event \<times> bool) list \<Rightarrow> (asio_calls \<times> bool \<times> u8 list) list" where
  "chunks_of q xs = concat (map (chunk_of q \<circ> fst) xs)"

lemma chunks_of_simps [simp]:
  "chunks_of q [] = []" "chunks_of q (xs @ [x]) = chunks_of q xs @ chunk_of q (fst x)"
  by (simp_all add: chunks_of_def)

lemma bytes_from_append [simp]: "bytes_from d (xs @ ys) = bytes_from d xs @ bytes_from d ys"
  by (simp add: bytes_from_def)

fun accepts :: "ConnectionPtr \<Rightarrow> server_event \<Rightarrow> bool" where
  "accepts q (Accept_done net er sock q') = (q' = q)"
| "accepts q ev = False"

lemma connection_stopped_gone: "connection_stopped net q s = Inr s' \<Longrightarrow> heap s' q = None"
  by (auto simp: connection_stopped_def bind_res_iffs)

lemma stop_one_fold_none:
  "fold_res (stop_one net) qs h = Inr h' \<Longrightarrow> h q = None \<Longrightarrow> h' q = None"
proof (induction qs arbitrary: h)
  case (Cons q' qs)
  from Cons.prems(1) obtain c where "h q' = Some c"
    and rest: "fold_res (stop_one net) qs (h(q' \<mapsto> closed c)) = Inr h'"
    by (auto simp: bind_res_eq_Inr stop_one_iff)
  then have "(h(q' \<mapsto> closed c)) q = None" using Cons.prems(2) by auto
  with rest show ?case by (rule Cons.IH)
qed simp

lemma step_backwards:
  assumes "server_step (ev, w) s = Inr s'" and "heap s' q = Some c'" and "\<not> accepts q ev"
  shows "heap s q \<noteq> None"
proof (cases "concerns q ev")
  case False
  then show ?thesis using step_other [OF assms(1)] assms(2) by simp
next
  case True
  show ?thesis
  proof (cases ev)
    case (Signal_done net cl)
    show ?thesis
    proof
      assume none: "heap s q = None"
      obtain h' where fold: "fold_res (stop_one net) (m_connections (m_connection_manager s)) (heap s) = Inr h'"
        and h': "heap s' = h' |` (- set (m_connections (m_connection_manager s)))"
        using assms(1) by (cases w) (auto simp: Signal_done server_step_def on_signal_def bind_res_iffs
            Let_def manager_stop_all_def cancel_ops_def)
      have "h' q = None" using stop_one_fold_none [OF fold none] .
      then show False using h' assms(2) by (auto simp: restrict_map_def split: if_splits)
    qed
  qed (use True assms in \<open>auto simp: server_step_def connect_done_def receive_done_def read_some_done_def
      bind_res_iffs split: if_splits\<close>)
qed

text \<open>A completed read without an error is the handling of its chunk.\<close>

lemma chunk_done:
  assumes "receive_done q b net No_error bs s = Inr s' \<or> read_some_done q b net No_error bs s = Inr s'"
  obtains c c' l' out' where "heap s q = Some c"
    and "conn_feed (Some packet_logger) (net, b, bs) (c, m_packet_logger s, cout s) = Inr (c', l', out')"
    and "m_packet_logger s' = l'" and "heap s' q = Some c'"
  using assms
  by (auto simp: receive_done_def on_receive_conn_feed read_some_done_def on_read_some_conn_feed
      bind_res_iffs start_ops_def Let_def)

lemma step_silent:
  assumes "server_step (ev, w) s = Inr s'" and "heap s q = Some c" and "heap s' q = Some c'"
    and "\<not> accepts q ev" and "\<forall>net cl. ev \<noteq> Signal_done net cl" and "chunk_of q ev = []"
  shows "c' = c"
proof (cases "concerns q ev")
  case False
  then show ?thesis using step_other [OF assms(1) False] assms(2,3) by simp
next
  case True
  then show ?thesis
    using assms by (cases ev) (auto simp: server_step_def connect_done_def on_connect_def do_receive_def
        receive_done_def read_some_done_def on_read_some_def bind_res_iffs Let_def
        split: if_splits dest: connection_stopped_gone)
qed

lemma step_chunk:
  assumes "server_step (ev, w) s = Inr s'" and "chunk_of q ev = [(net, b, bs)]"
    and "heap s q = Some c" and "heap s' q = Some c'"
  shows "\<exists>l l' out out'. conn_feed (Some packet_logger) (net, b, bs) (c, l, out) = Inr (c', l', out')"
proof -
  define s1 where "s1 = (if w then s\<lparr>cancelled := cancelled s - {#completed_op ev#}\<rparr>
    else s\<lparr>outstanding := outstanding s - {#completed_op ev#}\<rparr>)"
  have "ev = Receive_done q b net No_error bs \<or> ev = Read_some_done q b net No_error bs"
    using assms(2) by (cases ev) (auto split: if_splits)
  moreover have "handle ev s1 = Inr s'" using assms(1) by (simp add: server_step_def s1_def split: if_splits)
  ultimately have "receive_done q b net No_error bs s1 = Inr s' \<or>
      read_some_done q b net No_error bs s1 = Inr s'"
    by auto
  then obtain c0 c0' l' out' where "heap s1 q = Some c0"
    "conn_feed (Some packet_logger) (net, b, bs) (c0, m_packet_logger s1, cout s1) = Inr (c0', l', out')"
    "heap s' q = Some c0'"
    by (rule chunk_done)
  moreover have "heap s1 = heap s" by (simp add: s1_def)
  ultimately show ?thesis using assms(3,4) by auto
qed

lemma step_forwards:
  assumes "server_step (ev, w) s = Inr s'" and "heap s q = Some c" and "heap s' q = Some c'"
    and "\<not> accepts q ev" and "\<forall>net cl. ev \<noteq> Signal_done net cl"
    and "\<forall>chunk \<in> set (chunk_of q ev). sends_all (fst chunk)"
  shows "sent_to d c' = sent_to d c @ bytes_from d (chunk_of q ev)"
proof (cases "chunk_of q ev")
  case Nil
  then show ?thesis using step_silent [OF assms(1-5)] by simp
next
  case (Cons chunk rest)
  then obtain net b bs where chunk: "chunk_of q ev = [(net, b, bs)]"
    by (cases ev) (auto split: if_splits)
  then obtain l l' out out' where "conn_feed (Some packet_logger) (net, b, bs) (c, l, out) = Inr (c', l', out')"
    using step_chunk [OF assms(1) _ assms(2,3)] by blast
  from conn_feed_sent [OF this, of d] show ?thesis using assms(6) chunk by simp
qed

lemma runs_forwards:
  assumes "runs s xs s'" and "server_inv s"
    and "heap s q = Some c" and "heap s' q = Some c'" and "\<forall>x \<in> set xs. \<not> accepts q (fst x)"
    and "\<forall>chunk \<in> set (chunks_of q xs). sends_all (fst chunk)"
  shows "sent_to d c' = sent_to d c @ bytes_from d (chunks_of q xs)"
  using assms
proof (induction arbitrary: c' rule: runs.induct)
  case (runs_Nil s)
  then show ?case by simp
next
  case (runs_step s xs s1 x s2)
  obtain ev w where x: "x = (ev, w)" by (cases x)
  have acc: "\<not> accepts q ev" using runs_step.prems(4) by (simp add: x)
  obtain c1 where c1: "heap s1 q = Some c1"
    using step_backwards [of ev w s1 s2 q c'] runs_step.hyps(3) runs_step.prems(3) acc by (auto simp: x)
  have inv: "server_inv s1"
    using runs_inv [OF runs_step.hyps(1) runs_step.prems(1)] .
  have nosig: "\<forall>net cl. ev \<noteq> Signal_done net cl"
  proof (intro allI notI)
    fix net cl assume ev: "ev = Signal_done net cl"
    have "\<not> w" using runs_step.hyps(2) by (auto simp: x ev asio_ok_def)
    moreover obtain M where M: "outstanding s1 = add_mset Signal_op M" "m_acceptor_open s1"
      "server_step (ev, False) s1 = handle ev (s1\<lparr>outstanding := M\<rparr>)"
      using step_outstanding [OF inv, of ev] runs_step.hyps(2) \<open>\<not> w\<close> by (auto simp: x ev)
    ultimately have "server_inv s2 \<and> \<not> m_acceptor_open s2"
      using on_signal_inv [OF inv M(1,2), of net cl] runs_step.hyps(3) by (simp add: x ev)
    then show False using runs_step.prems(3) by (simp add: server_inv_def)
  qed
  have "sent_to d c1 = sent_to d c @ bytes_from d (chunks_of q xs)"
    using runs_step.IH [OF runs_step.prems(1,2) c1] runs_step.prems by simp
  moreover have "sent_to d c' = sent_to d c1 @ bytes_from d (chunk_of q ev)"
    using step_forwards [OF runs_step.hyps(3) [unfolded x] c1 runs_step.prems(3) acc nosig, of d]
      runs_step.prems(5) by (simp add: x)
  ultimately show ?case by (simp add: x)
qed

end
