(* ===== verification/Server_Properties.thy ===== *)
theory Server_Properties
  imports Server
begin

text \<open>
  The properties of the server over its reachable states: what holds of every state
  (\<open>running\<close>), what can end the event loop, the life and the end of a connection, the
  shutdown, and the failures the code does not handle.
\<close>

section \<open>A sample server\<close>

definition sample_os :: os_calls where
  "sample_os =
     \<lparr>os_add_signal = (\<lambda>_. None), os_resolve = (\<lambda>a p. Inr server_endpoint),
      os_acceptor_open = (\<lambda>_. None), os_reuse_address = None, os_bind = (\<lambda>_. None),
      os_listen = None, os_open_file = (\<lambda>_. True)\<rparr>"

definition fresh_server :: Server where
  "fresh_server = (initial_Server sample_os ''log'')\<lparr>m_acceptor_open := True,
     m_target_endpoint := server_endpoint, outstanding := {#Accept_op, Signal_op#}\<rparr>"

lemma new_sample_server: "new_Server sample_os [] [] [] [] ''log'' = Inr fresh_server"
  by (simp add: new_Server_iff sample_os_def fresh_server_def)

lemma running_fresh: "running 0 fresh_server"
  unfolding running_def
  by (rule exI [of _ sample_os], rule exI [of _ "[]"], rule exI [of _ "[]"], rule exI [of _ "[]"],
      rule exI [of _ "[]"], rule exI [of _ "''log''"], rule exI [of _ fresh_server],
      rule exI [of _ "[]"]) (simp add: new_sample_server)

text \<open>A server with one connection whose connect is in flight.\<close>

definition sample_ptr :: ConnectionPtr where
  "sample_ptr = Connection_ptr 1"

definition accept_event :: server_event where
  "accept_event = Accept_done reliable_net No_error client_socket sample_ptr"

definition one_client :: Server where
  "one_client = fresh_server
     \<lparr>m_connection_manager := \<lparr>m_connections = [sample_ptr]\<rparr>,
      heap := [sample_ptr \<mapsto> opened (new_Connection client_socket server_endpoint)],
      cout := opened_line 1,
      outstanding := {#Accept_op, Connection_op sample_ptr (Async_connect server_endpoint), Signal_op#}\<rparr>"

lemma fresh_fields [simp]:
  "m_acceptor_open fresh_server" "heap fresh_server = Map.empty" "cout fresh_server = []"
  "outstanding fresh_server = {#Accept_op, Signal_op#}" "cancelled fresh_server = {#}"
  "m_connection_manager fresh_server = new_ConnectionManager"
  "m_target_endpoint fresh_server = server_endpoint"
  "m_packet_logger fresh_server = new_PacketLogger True"
  by (simp_all add: fresh_server_def initial_Server_def sample_os_def)

lemma accept_ok: "asio_ok (accept_event, False) fresh_server"
  by (simp add: asio_ok_def accept_event_def)

lemma accept_step: "server_step (accept_event, False) fresh_server = Inr one_client"
  by (simp add: server_step_def accept_event_def on_accept_def manager_start_def load_def
      connection_start_def do_connect_def socket_check_def reliable_net_def Let_def start_ops_def
      do_accept_def one_client_def new_ConnectionManager_def opened_def new_Connection_def
      add_mset_commute)

lemma running_one_client: "running 0 one_client"
  using running_step [OF running_fresh accept_ok accept_step] by (simp add: accept_event_def)

lemma one_client_fields [simp]:
  "m_acceptor_open one_client"
  "heap one_client = [sample_ptr \<mapsto> opened (new_Connection client_socket server_endpoint)]"
  "outstanding one_client =
     {#Accept_op, Connection_op sample_ptr (Async_connect server_endpoint), Signal_op#}"
  "cancelled one_client = {#}" "m_connections (m_connection_manager one_client) = [sample_ptr]"
  "m_packet_logger one_client = new_PacketLogger True"
  by (simp_all add: one_client_def)

text \<open>The same server after the connect succeeded, and after a first byte of the client.\<close>

definition connected :: Server where
  "connected = one_client\<lparr>outstanding :=
     {#Connection_op sample_ptr (Async_receive True), Connection_op sample_ptr (Async_receive False),
       Accept_op, Signal_op#}\<rparr>"

definition connect_event :: server_event where
  "connect_event = Connect_done sample_ptr server_endpoint No_error"

definition byte_event :: server_event where
  "byte_event = Receive_done sample_ptr True reliable_net No_error [7]"

lemma connect_ok: "asio_ok (connect_event, False) one_client"
  by (simp add: asio_ok_def connect_event_def)

lemma connect_step: "server_step (connect_event, False) one_client = Inr connected"
  by (simp add: server_step_def connect_event_def connect_done_def on_connect_def do_receive_def
      load_def start_ops_def connected_def one_client_def add_mset_commute)

lemma byte_ok: "asio_ok (byte_event, False) connected"
  by (simp add: asio_ok_def byte_event_def connected_def BUFFER_LENGTH_def)

lemma byte_step:
  obtains s2 c where "server_step (byte_event, False) connected = Inr s2"
    and "Connection_op sample_ptr (Async_read_some True) \<in># outstanding s2"
    and "heap s2 sample_ptr = Some c"
proof -
  have "\<exists>ctx. conn_feed (Some packet_logger) (reliable_net, True, [7])
      (opened (new_Connection client_socket server_endpoint), l, out) = Inr ctx" for l out
    by (simp add: conn_feed_eq collect_chunk_def collect_all_Cons collect_def opened_def
        new_Connection_def socket_send_def deliver_def)
  then obtain c' l' out' where "conn_feed (Some packet_logger) (reliable_net, True, [7])
      (opened (new_Connection client_socket server_endpoint), m_packet_logger connected,
       cout connected) = Inr (c', l', out')"
    by (metis prod_cases3)
  moreover have "length [7 :: u8] = Suc 0" by simp
  ultimately have "\<exists>s2. server_step (byte_event, False) connected = Inr s2 \<and>
      Connection_op sample_ptr (Async_read_some True) \<in># outstanding s2 \<and>
      heap s2 sample_ptr = Some c'"
    using on_receive_conn_feed [of reliable_net "Some packet_logger" True "[7]"
        "opened (new_Connection client_socket server_endpoint)" "m_packet_logger connected"
        "cout connected"]
    by (simp add: server_step_def byte_event_def receive_done_def connected_def load_def start_ops_def)
  then show thesis using that by blast
qed

lemma running_connected: "running 0 connected"
  using running_step [OF running_one_client connect_ok connect_step] by (simp add: connect_event_def)

text \<open>The chunk with the server's OK packet.\<close>

definition ok_event :: server_event where
  "ok_event = Receive_done sample_ptr False reliable_net No_error (encode_message 0 [0, 0, 0, 2])"

lemma ok_event_step:
  obtains s c where "server_step (ok_event, False) connected = Inr s" and "heap s sample_ptr = Some c"
    and "m_client_packet c = new_FromClientPacket" and "m_connection_state c = COMMAND_PHASE"
    and "Connection_op sample_ptr (Async_receive True) \<in># outstanding s"
    and "m_packet_logger s = new_PacketLogger True"
proof -
  let ?c = "opened (new_Connection client_socket server_endpoint)"
  have new: "m_packet_state new_FromServerPacket = PAYLOAD_LENGTH_0"
    "m_payload_first_part new_FromServerPacket"
    by (simp_all add: new_FromServerPacket_def new_MySqlPacket_def)
  have fields: "m_server_packet ?c = new_FromServerPacket" "m_connection_state ?c = CONNECTION_PHASE"
    "m_client_packet ?c = new_FromClientPacket"
    by (simp_all add: opened_def new_Connection_def)
  obtain q where q: "collect_all server_vtable (encode_message 0 [0, 0, 0, 2])
      (m_server_packet ?c, m_connection_state ?c, cout connected) = Inr (q, COMMAND_PHASE, cout connected)"
    using server_message [OF new, of 0 "[0, 0, 0, 2]" CONNECTION_PHASE "cout connected"]
    by (auto simp: phase_after_def output_after_def fields)
  obtain c where c: "conn_feed (Some packet_logger) (reliable_net, False, encode_message 0 [0, 0, 0, 2])
      (?c, m_packet_logger connected, cout connected) =
      Inr (c, m_packet_logger connected, cout connected)"
    "m_client_packet c = new_FromClientPacket" "m_connection_state c = COMMAND_PHASE"
    using conn_feed_server [OF q, of reliable_net packet_logger "m_packet_logger connected"] fields
    by (auto simp: packet_logger_server)
  have "\<exists>s. server_step (ok_event, False) connected = Inr s \<and> heap s sample_ptr = Some c \<and>
      Connection_op sample_ptr (Async_receive True) \<in># outstanding s \<and>
      m_packet_logger s = new_PacketLogger True"
    using c(1) by (simp add: server_step_def ok_event_def receive_done_def on_receive_conn_feed
        load_def connected_def
        start_ops_def)
  then show thesis using that c(2,3) by blast
qed

lemma ok_event_ok: "asio_ok (ok_event, False) connected"
  by (simp add: asio_ok_def ok_event_def connected_def BUFFER_LENGTH_def encode_message_short
      encode_packet_def le24_def)

section \<open>Every reachable state\<close>

text \<open>
  C7. The invariant of the server, in every state it reaches: the manager's ordered set holds
  exactly the live connection objects; every operation in flight on an open socket belongs to
  a live connection, so no handler that touches its connection finds it destroyed; and each
  of the two buffers of a connection is lent to at most one read.
\<close>

theorem server_invariant:
  assumes "running n s"
  shows "sorted_wrt (<) (m_connections (m_connection_manager s)) \<and>
         set (m_connections (m_connection_manager s)) = dom (heap s) \<and>
         (\<forall>q op. Connection_op q op \<in># outstanding s \<longrightarrow> q \<in> dom (heap s)) \<and>
         (\<forall>q b. size (filter_mset (uses_buffer q b) (outstanding s)) \<le> 1)"
  using running_inv [OF assms] by (auto simp: server_inv_def manager_ok_def set_ok_def ops_ok_def)

theorem server_invariant_witness:
  "set (m_connections (m_connection_manager one_client)) = dom (heap one_client)"
proof -
  from server_invariant [OF running_one_client] show ?thesis by blast
qed



text \<open>
  C4. What can end the event loop with an exception, under the promises of \<open>asio_ok\<close>: among
  them that an operation whose socket was closed completes with \<open>operation_aborted\<close>, even if it
  was already done (Queued_Loop drops this one, with a further fault). From every reachable
  state a handler throws only \<open>BAD packet\<close>, the \<open>system_error\<close> of a failing socket call, or
  \<open>length_error\<close> once 40 full packets of a statement have been collected on its connection.
\<close>

theorem server_faults:
  assumes "running n s" and "asio_ok x s" and "server_step x s = Inl e"
  shows "e = Runtime_error ''BAD packet'' \<or> (\<exists>code. e = System_error code) \<or>
         e = Length_error \<and>
           (\<exists>q c. subject (fst x) = Some q \<and> heap s q = Some c \<and>
              671088599 \<le> length (client_text c) + client_bytes (fst x))"
  using server_step_inv [OF running_inv [OF assms(1)] assms(2)] assms(3)
  by (auto simp: step_fault_def bad_packet_def statement_bound_def)

theorem server_faults_witness:
  "\<exists>e. server_step (Signal_done reliable_net (Some 9), False) fresh_server = Inl e \<and>
       (\<exists>code. e = System_error code)"
proof -
  let ?x = "(Signal_done reliable_net (Some 9), False)"
  have ok: "asio_ok ?x fresh_server" by (simp add: asio_ok_def)
  have step: "server_step ?x fresh_server = Inl (System_error 9)"
    by (simp add: server_step_def on_signal_def socket_check_def)
  from server_faults [OF running_fresh ok step] step show ?thesis by auto
qed

text \<open>
  C27. The comment of \<open>Server::run\<close>: while the server is running there is always exactly one
  accept in flight, and the wait for the signal, so \<open>run\<close> cannot return before the signal.
\<close>

theorem server_keeps_accepting:
  assumes "running n s" and "m_acceptor_open s"
  shows "count (outstanding s) Accept_op = 1 \<and> count (outstanding s) Signal_op = 1 \<and>
         \<not> run_returns s"
  using running_inv [OF assms(1)] assms(2) by (auto simp: server_inv_def run_returns_def)

theorem server_keeps_accepting_witness:
  "\<not> run_returns one_client"
proof -
  from server_keeps_accepting [OF running_one_client] show ?thesis by simp
qed

section \<open>Connections\<close>

text \<open>
  C9. The server forwards: from the state after a client was accepted on, as long as its
  connection is alive and whatever the other connections do, exactly the bytes received from
  the client have been sent to the MySQL server and those of the server to the client.
\<close>

theorem server_forwards:
  assumes "running n s" and "asio_ok (Accept_done net No_error sock q, False) s"
    and "sock_sent sock = []" and "server_step (Accept_done net No_error sock q, False) s = Inr s1"
    and "runs s1 xs s'"
    and "heap s' q = Some c'" and "\<forall>x \<in> set xs. \<not> accepts q (fst x)"
    and "\<forall>chunk \<in> set (chunks_of q xs). sends_all (fst chunk)"
  shows "sent_to True c' = bytes_from True (chunks_of q xs) \<and>
         sent_to False c' = bytes_from False (chunks_of q xs)"
proof -
  have inv: "server_inv s" using assms(1) by (rule running_inv)
  have "m_acceptor_open s" using step_outstanding [OF inv assms(2)] by blast
  then have h1: "heap s1 q = Some (opened (new_Connection sock (m_target_endpoint s)))"
    using assms(4) by (auto simp: server_step_def on_accept_def bind_res_iffs manager_start_iff)
  have "server_inv s1" using server_step_inv [OF inv assms(2)] assms(4) by simp
  note sent = runs_forwards [OF assms(5) this h1 assms(6-8)]
  show ?thesis
    using sent [of True] sent [of False] assms(3) by (simp add: sent_to_def send_to_socket_def opened_def new_Connection_def)
qed

theorem server_forwards_witness:
  "\<exists>s' c'. runs one_client ([] @ [(connect_event, False)] @ [(byte_event, False)]) s' \<and>
           heap s' sample_ptr = Some c' \<and> sent_to True c' = [7] \<and> sent_to False c' = []"
proof -
  obtain s' c' where s': "server_step (byte_event, False) connected = Inr s'"
    "heap s' sample_ptr = Some c'"
    by (rule byte_step)
  let ?xs = "([] @ [(connect_event, False)]) @ [(byte_event, False)]"
  have run: "runs one_client ?xs s'"
    by (intro runs_step [OF _ byte_ok s'(1)] runs_step [OF _ connect_ok connect_step] runs_Nil)
  have "sock_sent client_socket = []" by (simp add: client_socket_def)
  moreover have chunks: "chunks_of sample_ptr ?xs = [(reliable_net, True, [7])]"
    by (simp only: chunks_of_simps fst_conv) (simp add: connect_event_def byte_event_def)
  moreover have "\<forall>x \<in> set ?xs. \<not> accepts sample_ptr (fst x)"
    by (simp add: connect_event_def byte_event_def)
  ultimately show ?thesis
    using server_forwards [OF running_fresh accept_ok [unfolded accept_event_def] _
        accept_step [unfolded accept_event_def] run s'(2)] run s'(2)
    by (simp only: append_assoc chunks) auto
qed

text \<open>
  Isolation: an event of one connection leaves the object and the operations of every
  other connection as they are, even when it ends the connection.
\<close>

theorem server_isolation:
  assumes "server_step (ev, was_cancelled) s = Inr s'" and "\<not> concerns q ev"
  shows "heap s' q = heap s q \<and> ops_of q s' = ops_of q s"
  using assms by (rule step_other)

theorem server_isolation_witness:
  "\<exists>s'. server_step (accept_event, False) fresh_server = Inr s' \<and>
        heap s' (Connection_ptr 2) = heap fresh_server (Connection_ptr 2)"
proof -
  have "\<not> concerns (Connection_ptr 2) accept_event" by (simp add: accept_event_def sample_ptr_def)
  from server_isolation [OF accept_step this] accept_step show ?thesis by blast
qed

lemma connection_end_step:
  assumes inv: "server_inv s"
    and "asio_ok (Read_some_done q b net er bs, False) s" and "er \<noteq> No_error" "er \<noteq> Operation_aborted"
    and "net_close net q True = None" and "net_close net q False = None"
  shows "\<exists>s'. server_step (Read_some_done q b net er bs, False) s = Inr s' \<and>
           set (m_connections (m_connection_manager s')) =
             set (m_connections (m_connection_manager s)) - {q} \<and>
           heap s' = (heap s)(q := None) \<and>
           outstanding s' = filter_mset (\<lambda>op. \<not> is_op_of {q} op) (outstanding s) \<and>
           cancelled s' = cancelled s + (ops_of q s - {#Connection_op q (Async_read_some b)#}) \<and>
           m_packet_logger s' = logger_flush (m_packet_logger s) \<and>
           cout s' = cout s @ opened_line (card (dom (heap s')))"
proof -
  obtain M where M: "outstanding s = add_mset (Connection_op q (Async_read_some b)) M"
    "m_acceptor_open s" "server_step (Read_some_done q b net er bs, False) s =
      read_some_done q b net er bs (s\<lparr>outstanding := M\<rparr>)"
    using step_outstanding [OF inv assms(2)] by auto
  have "Connection_op q (Async_read_some b) \<in># outstanding s" using M(1) by simp
  with inv obtain c where c: "heap s q = Some c" by (rule connection_op_live)
  have ok: "manager_ok (m_connection_manager s) (heap s)" using inv by (simp add: server_inv_def)
  define m' where "m' = (m_connection_manager s)\<lparr>m_connections :=
    set_erase q (m_connections (m_connection_manager s))\<rparr>"
  have stop: "manager_stop net q (m_connection_manager s, heap s, cout s) = Inr (m',
      (heap s)(q \<mapsto> closed c), cout s @ opened_line (length (m_connections m')))"
    using c assms(5,6) by (simp add: manager_stop_iff m'_def)
  have ok': "manager_ok m' ((heap s)(q := None))"
    using manager_stop_ok(1) [OF ok stop] by simp
  then have len: "length (m_connections m') = card (dom ((heap s)(q := None)))"
    by (rule manager_ok_length)
  have conns: "set (m_connections m') = set (m_connections (m_connection_manager s)) - {q}"
    using ok by (simp add: m'_def manager_ok_def set_set_erase)
  have "read_some_done q b net er bs (s\<lparr>outstanding := M\<rparr>) =
      Inr (cancel_ops (is_op_of {q}) (s\<lparr>outstanding := M, m_connection_manager := m',
        heap := (heap s)(q := None),
        cout := cout s @ opened_line (card (dom ((heap s)(q := None)))),
        m_packet_logger := logger_flush (m_packet_logger s)\<rparr>))"
    using c assms(3,4) stop len by (simp add: read_some_done_def on_read_some_def load_def
        connection_stopped_def start_ops_def fun_upd_idem)
  then show ?thesis using M(1,3) conns by (simp add: cancel_ops_def [of "is_op_of {q}"] ops_of_def)
qed

text \<open>
  C20. The end of a connection. When a later read of a running connection (\<open>async_read_some\<close>,
  every read but the first of each side, whose failure is ignored) fails for another reason
  than a cancellation, and its sockets can be closed, exactly that connection leaves the
  manager and is destroyed, its other operations are cancelled, the log text written so far is in
  the file, and the number of the remaining connections is printed.
\<close>

theorem server_connection_end:
  assumes "running n s"
    and "asio_ok (Read_some_done q b net er bs, False) s" and "er \<noteq> No_error" "er \<noteq> Operation_aborted"
    and "net_close net q True = None" and "net_close net q False = None"
  shows "\<exists>s'. server_step (Read_some_done q b net er bs, False) s = Inr s' \<and>
           set (m_connections (m_connection_manager s')) =
             set (m_connections (m_connection_manager s)) - {q} \<and>
           heap s' = (heap s)(q := None) \<and>
           outstanding s' = filter_mset (\<lambda>op. \<not> is_op_of {q} op) (outstanding s) \<and>
           cancelled s' = cancelled s + (ops_of q s - {#Connection_op q (Async_read_some b)#}) \<and>
           m_packet_logger s' = logger_flush (m_packet_logger s) \<and>
           cout s' = cout s @ opened_line (card (dom (heap s')))"
  using running_inv [OF assms(1)] assms(2-6) by (rule connection_end_step)

theorem server_connection_end_witness:
  "\<exists>s s'. running 1 s \<and> sample_ptr \<in> dom (heap s) \<and>
     server_step (Read_some_done sample_ptr True reliable_net (Other_error 2) [], False) s = Inr s' \<and>
     sample_ptr \<notin> dom (heap s')"
proof -
  obtain s c where s: "server_step (byte_event, False) connected = Inr s"
    "Connection_op sample_ptr (Async_read_some True) \<in># outstanding s" "heap s sample_ptr = Some c"
    by (rule byte_step)
  have run: "running 1 s"
    using running_step [OF running_connected byte_ok s(1)] by (simp add: byte_event_def)
  have ok: "asio_ok (Read_some_done sample_ptr True reliable_net (Other_error 2) [], False) s"
    using s(2) by (simp add: asio_ok_def)
  from server_connection_end [OF run ok] run s(3) show ?thesis
    by (auto simp: reliable_net_def)
qed

section \<open>Shutdown\<close>

lemma signal_step:
  assumes inv: "server_inv s" and "asio_ok (Signal_done net None, False) s"
    and "\<forall>q \<in> dom (heap s). net_close net q True = None \<and> net_close net q False = None"
  shows "\<exists>s'. server_step (Signal_done net None, False) s = Inr s' \<and> \<not> m_acceptor_open s' \<and>
           m_connections (m_connection_manager s') = [] \<and> heap s' = Map.empty \<and>
           outstanding s' = {#} \<and>
           cancelled s' = cancelled s + (outstanding s - {#Signal_op#}) \<and>
           m_packet_logger s' = logger_flush (m_packet_logger s) \<and> cout s' = cout s @ closed_line"
proof -
  obtain M where M: "outstanding s = add_mset Signal_op M" "m_acceptor_open s"
    "server_step (Signal_done net None, False) s = on_signal net None (s\<lparr>outstanding := M\<rparr>)"
    using step_outstanding [OF inv assms(2)] by auto
  have ok: "manager_ok (m_connection_manager s) (heap s)" using inv by (simp add: server_inv_def)
  then have Q: "set (m_connections (m_connection_manager s)) = dom (heap s)"
    by (simp add: manager_ok_def)
  obtain h' where "fold_res (stop_one net) (m_connections (m_connection_manager s)) (heap s) = Inr h'"
    using stop_one_fold_succeeds [of "m_connections (m_connection_manager s)" "heap s" net] Q assms(3)
    by auto
  then have all: "manager_stop_all net (m_connection_manager s, heap s, cout s) =
      Inr ((m_connection_manager s)\<lparr>m_connections := []\<rparr>, h', cout s @ closed_line)"
    by (simp add: manager_stop_all_def)
  then obtain s' where s': "on_signal net None (s\<lparr>outstanding := M\<rparr>) = Inr s'"
    "m_packet_logger s' = logger_flush (m_packet_logger s)" "cout s' = cout s @ closed_line"
    "m_connections (m_connection_manager s') = []"
    "outstanding s' + cancelled s' = cancelled s + M"
    by (simp add: on_signal_def cancel_ops_def socket_check_def Let_def union_ac
        multiset_partition [symmetric])
  have "server_inv s'" "\<not> m_acceptor_open s'"
    using on_signal_inv [OF inv M(1,2), of net None] s'(1) by simp_all
  then have "outstanding s' = {#}" "heap s' = Map.empty" by (simp_all add: server_inv_def)
  then show ?thesis using M s' \<open>\<not> m_acceptor_open s'\<close> by simp
qed

text \<open>A cancelled operation can always complete.\<close>

lemma cancelled_completes:
  assumes "server_inv s" and "op \<in># cancelled s"
  shows "\<exists>ev. completed_op ev = op \<and> event_error ev = Operation_aborted \<and> event_ok ev s \<and>
           client_bytes ev = 0"
proof (cases op)
  case Accept_op
  then have "heap s = Map.empty" using assms by (auto simp: server_inv_def split: if_splits)
  then show ?thesis
    using Accept_op by (intro exI [of _ "Accept_done reliable_net Operation_aborted client_socket sample_ptr"]) simp
next
  case Signal_op
  then show ?thesis using assms(1,2) by (simp add: server_inv_def)
next
  case (Connection_op q a)
  then show ?thesis
  proof (cases a)
    case (Async_connect ep)
    then show ?thesis
      using Connection_op by (intro exI [of _ "Connect_done q ep Operation_aborted"]) simp
  next
    case (Async_receive b)
    then show ?thesis
      using Connection_op by (intro exI [of _ "Receive_done q b reliable_net Operation_aborted []"]) simp
  next
    case (Async_read_some b)
    then show ?thesis
      using Connection_op by (intro exI [of _ "Read_some_done q b reliable_net Operation_aborted []"]) simp
  qed
qed

lemma closed_loop:
  assumes inv: "server_inv s" and "\<not> m_acceptor_open s" and "runs s xs s'"
  shows "length xs \<le> size (cancelled s) \<and> (run_returns s' \<longleftrightarrow> length xs = size (cancelled s)) \<and>
         (\<not> run_returns s' \<longrightarrow> (\<exists>x s''. asio_ok x s' \<and> server_step x s' = Inr s'')) \<and>
         m_packet_logger s' = m_packet_logger s \<and> cout s' = cout s"
proof -
  obtain M where M: "s' = s\<lparr>cancelled := M\<rparr>" "size M + length xs = size (cancelled s)"
    "server_inv s'"
    using closed_runs [OF assms(3) inv assms(2)] by blast
  have closed: "\<not> m_acceptor_open s'" "outstanding s' = {#}"
    using M(1,3) assms(2) by (simp_all add: server_inv_def)
  have "\<exists>x s''. asio_ok x s' \<and> server_step x s' = Inr s''" if "\<not> run_returns s'"
  proof -
    have "cancelled s' \<noteq> {#}" using that closed(2) by (simp add: run_returns_def)
    then obtain op where op: "op \<in># cancelled s'" by (rule multiset_nonemptyE)
    from cancelled_completes [OF M(3) op]
    obtain ev where "completed_op ev = op" "event_error ev = Operation_aborted" "event_ok ev s'"
      by blast
    then have "asio_ok (ev, True) s'" using op by (simp add: asio_ok_def)
    then show ?thesis using closed_step(1) [OF M(3) closed(1)] by blast
  qed
  then show ?thesis using M(1,2) closed(2) by (auto simp: run_returns_def)
qed

text \<open>
  C21. The shutdown. The handler of the signal, when the sockets can be closed, closes the
  acceptor, stops and destroys every connection, cancels every operation in flight, brings
  the log text to the file, and says so; what is in flight afterwards is only the cancelled
  operations.
\<close>

theorem server_shutdown:
  assumes "running n s" and "asio_ok (Signal_done net None, False) s"
    and "\<forall>q \<in> dom (heap s). net_close net q True = None \<and> net_close net q False = None"
  shows "\<exists>s'. server_step (Signal_done net None, False) s = Inr s' \<and> \<not> m_acceptor_open s' \<and>
           m_connections (m_connection_manager s') = [] \<and> heap s' = Map.empty \<and>
           outstanding s' = {#} \<and>
           cancelled s' = cancelled s + (outstanding s - {#Signal_op#}) \<and>
           m_packet_logger s' = logger_flush (m_packet_logger s) \<and> cout s' = cout s @ closed_line"
  using running_inv [OF assms(1)] assms(2,3) by (rule signal_step)

theorem server_shutdown_witness:
  "\<exists>s'. server_step (Signal_done reliable_net None, False) one_client = Inr s' \<and> heap s' = Map.empty"
proof -
  have ok: "asio_ok (Signal_done reliable_net None, False) one_client" by (simp add: asio_ok_def)
  from server_shutdown [OF running_one_client ok] show ?thesis by (auto simp: reliable_net_def)
qed

text \<open>
  C11. After the signal the loop ends. From a state whose acceptor is closed, every run takes
  at most as many turns as operations were cancelled, changes nothing but the set of these,
  and starts no operation; as long as \<open>run\<close> has not returned some turn is possible, and it
  returns after exactly that many turns.
\<close>

theorem server_shutdown_terminates:
  assumes "running n s" and "\<not> m_acceptor_open s" and "runs s xs s'"
  shows "length xs \<le> size (cancelled s) \<and> (run_returns s' \<longleftrightarrow> length xs = size (cancelled s)) \<and>
         (\<not> run_returns s' \<longrightarrow> (\<exists>x s''. asio_ok x s' \<and> server_step x s' = Inr s'')) \<and>
         m_packet_logger s' = m_packet_logger s \<and> cout s' = cout s"
  using running_inv [OF assms(1)] assms(2,3) by (rule closed_loop)

theorem server_shutdown_terminates_witness:
  "\<exists>s. running 0 s \<and> \<not> m_acceptor_open s \<and> size (cancelled s) = 2 \<and> \<not> run_returns s \<and>
       (\<exists>x s''. asio_ok x s \<and> server_step x s = Inr s'')"
proof -
  let ?x = "(Signal_done reliable_net None, False)"
  have ok: "asio_ok ?x one_client" by (simp add: asio_ok_def)
  obtain s where s: "server_step ?x one_client = Inr s" "\<not> m_acceptor_open s"
    "size (cancelled s) = 2" "outstanding s = {#}"
    by (simp add: server_step_def on_signal_def cancel_ops_def manager_stop_all_def stop_one_def load_def
        connection_stop_def socket_check_def reliable_net_def Let_def)
  have run: "running 0 s" using running_step [OF running_one_client ok s(1)] by simp
  from server_shutdown_terminates [OF run s(2) runs_Nil] show ?thesis using run s by auto
qed

section \<open>What goes wrong\<close>

text \<open>
  C34. A connection whose connect to the MySQL server fails is never removed. The handler does
  nothing on an error: whatever happens afterwards, until the signal, the connection stays in
  the manager with no operation in flight, and the socket of the client is neither read nor
  closed.
\<close>

theorem connect_failure_leaks:
  assumes "running n s" and "asio_ok (Connect_done q ep er, False) s" and "er \<noteq> No_error"
    and "server_step (Connect_done q ep er, False) s = Inr s1" and "runs s1 xs s'"
    and "m_acceptor_open s'"
  shows "q \<in> set (m_connections (m_connection_manager s')) \<and> heap s' q = heap s q \<and> ops_of q s' = {#}"
proof -
  have inv: "server_inv s" using assms(1) by (rule running_inv)
  obtain M where M: "outstanding s = add_mset (Connection_op q (Async_connect ep)) M"
    "server_step (Connect_done q ep er, False) s = connect_done q er (s\<lparr>outstanding := M\<rparr>)"
    using step_outstanding [OF inv assms(2)] by auto
  have s1: "s1 = s\<lparr>outstanding := M\<rparr>" using M(2) assms(3,4) by (simp add: connect_done_def)
  have "Connection_op q (Async_connect ep) \<in># outstanding s" using M(1) by simp
  with inv obtain c where c: "heap s q = Some c" by (rule connection_op_live)
  have "Connection_op q a \<notin># M" for a
  proof
    assume a: "Connection_op q a \<in># M"
    obtain b where "uses_buffer q b (Connection_op q a)" by (cases a) auto
    with a have "filter_mset (uses_buffer q b) M \<noteq> {#}" by (auto simp: filter_mset_eq_conv)
    then have "0 < size (filter_mset (uses_buffer q b) M)" by (simp only: nonempty_has_size)
    moreover have "size (filter_mset (uses_buffer q b) (outstanding s)) =
        Suc (size (filter_mset (uses_buffer q b) M))"
      by (simp add: M(1))
    moreover have "size (filter_mset (uses_buffer q b) (outstanding s)) \<le> 1"
      using inv by (simp add: server_inv_def ops_ok_def)
    ultimately show False by linarith
  qed
  then have "forgotten q c s1" using c by (simp add: forgotten_def s1 ops_of_empty_iff)
  moreover have inv1: "server_inv s1"
    using server_step_inv [OF inv assms(2)] assms(4) by simp
  ultimately have last: "forgotten q c s'"
    using forgotten_runs [OF assms(5) _ _ assms(6)] by blast
  have "server_inv s'"
    using runs_inv [OF assms(5) inv1] .
  then have "set (m_connections (m_connection_manager s')) = dom (heap s')"
    by (simp add: server_inv_def manager_ok_def)
  then show ?thesis using last c by (auto simp: forgotten_def)
qed

theorem connect_failure_leaks_witness:
  "\<exists>s1. server_step (Connect_done sample_ptr server_endpoint (Other_error 111), False) one_client = Inr s1 \<and>
        sample_ptr \<in> set (m_connections (m_connection_manager s1)) \<and> ops_of sample_ptr s1 = {#}"
proof -
  let ?x = "(Connect_done sample_ptr server_endpoint (Other_error 111), False)"
  have ok: "asio_ok ?x one_client" by (simp add: asio_ok_def)
  obtain s1 where s1: "server_step ?x one_client = Inr s1" "m_acceptor_open s1"
    by (simp add: server_step_def connect_done_def)
  from connect_failure_leaks [OF running_one_client ok _ s1(1) runs_Nil s1(2)] s1(1)
  show ?thesis by auto
qed

text \<open>
  The same for the first read of each direction: when it fails, as it does when the client
  or the server closes right after the connect, the handler only drops the operation; the
  connection is not stopped and the other side is not told.
\<close>

theorem first_read_failure_ignored:
  assumes "running n s" and "asio_ok (Receive_done q b net er bs, False) s"
    and "er \<noteq> No_error"
  shows "\<exists>s'. server_step (Receive_done q b net er bs, False) s = Inr s' \<and>
           q \<in> set (m_connections (m_connection_manager s')) \<and> heap s' = heap s \<and>
           outstanding s' = outstanding s - {#Connection_op q (Async_receive b)#} \<and>
           cancelled s' = cancelled s \<and> cout s' = cout s"
proof -
  have inv: "server_inv s" using assms(1) by (rule running_inv)
  have op: "Connection_op q (Async_receive b) \<in># outstanding s" using assms(2) by (simp add: asio_ok_def)
  with inv obtain c where "heap s q = Some c" by (rule connection_op_live)
  then have "q \<in> set (m_connections (m_connection_manager s))"
    using inv by (auto simp: server_inv_def manager_ok_def)
  then show ?thesis using assms(3) by (simp add: server_step_def receive_done_def)
qed

theorem first_read_failure_ignored_witness:
  "\<exists>s'. server_step (Receive_done sample_ptr True reliable_net (Other_error 2) [], False) connected = Inr s' \<and>
        sample_ptr \<in> set (m_connections (m_connection_manager s'))"
proof -
  have ok: "asio_ok (Receive_done sample_ptr True reliable_net (Other_error 2) [], False) connected"
    by (simp add: asio_ok_def connected_def)
  from first_read_failure_ignored [OF running_connected ok] show ?thesis by auto
qed

text \<open>
  Why the promise about cancelled operations is needed: the handlers hold a raw \<open>this\<close>. If
  an operation of a destroyed connection completed in any other way than with
  \<open>operation_aborted\<close>, its handler would access the destroyed object: undefined behaviour.
\<close>

theorem stale_completion_undefined:
  assumes "heap s q = None"
  shows "(er \<noteq> Operation_aborted \<longrightarrow>
           server_step (Read_some_done q b net er bs, w) s = Inl Undefined_behaviour) \<and>
         server_step (Receive_done q b net No_error bs, w) s = Inl Undefined_behaviour \<and>
         server_step (Connect_done q ep No_error, w) s = Inl Undefined_behaviour"
  using assms by (cases w)
    (simp_all add: server_step_def read_some_done_def receive_done_def connect_done_def load_def)

theorem stale_completion_undefined_witness:
  "server_step (Receive_done sample_ptr False reliable_net No_error [7], True)
     (connected\<lparr>heap := Map.empty, outstanding := {#Accept_op, Signal_op#},
        cancelled := {#Connection_op sample_ptr (Async_receive False)#}\<rparr>) = Inl Undefined_behaviour"
  by (rule stale_completion_undefined [THEN conjunct2, THEN conjunct1]) simp

section \<open>Construction\<close>

text \<open>
  The constructor. It succeeds if and only if every call it makes does: the three signals,
  both resolutions, and open, option, bind and listen of the acceptor on the first endpoint
  of the client address; then the server accepts and waits for the signal, with no
  connection and nothing printed. A log file that cannot be opened does not count: the
  server runs all the same. The exceptions it can throw are those of the system.
\<close>

theorem new_Server_spec:
  "case new_Server os ca cp sa sp path of
     Inl e \<Rightarrow> \<exists>code. e = System_error code
   | Inr s \<Rightarrow>
       (\<forall>sig. os_add_signal os sig = None) \<and>
       (\<exists>ep. os_resolve os ca cp = Inr ep \<and> os_acceptor_open os ep = None \<and> os_bind os ep = None) \<and>
       os_reuse_address os = None \<and> os_listen os = None \<and>
       os_resolve os sa sp = Inr (m_target_endpoint s) \<and>
       m_acceptor_open s \<and> outstanding s = {#Accept_op, Signal_op#} \<and> cancelled s = {#} \<and>
       m_connections (m_connection_manager s) = [] \<and> heap s = Map.empty \<and> cout s = [] \<and>
       log_good (m_packet_logger s) = os_open_file os path"
proof (cases "new_Server os ca cp sa sp path")
  case (Inl e)
  then have "\<exists>code. e = System_error code"
    by (auto simp: new_Server_def resolve_def bind_res_iffs Let_def split: sum.splits)
  then show ?thesis using Inl by simp
next
  case (Inr s)
  have sigs: "\<forall>sig. os_add_signal os sig = None"
  proof
    fix sig
    show "os_add_signal os sig = None" using Inr by (cases sig) (auto simp: new_Server_iff)
  qed
  show ?thesis
    unfolding Inr sum.case using Inr sigs
    by (auto simp: new_Server_iff initial_Server_def new_ConnectionManager_def log_good_def
        new_PacketLogger_def ofs_open_def)
qed

end
