(* ===== verification/Proxy_Spec.thy ===== *)
theory Proxy_Spec
  imports Server_Properties
begin

text \<open>
  What a proxy is, without sockets, buffers, packets, operations in flight or a manager: the
  set of its connections, each with the bytes it has passed on in both directions. Shown:
  the server refines this specification, event by event and over every run, as long as the
  sends are not short; so what the class does beside it (collecting packets, logging,
  counting) never disturbs the forwarding, of its own connection or of another.
\<close>

section \<open>The specification\<close>

record proxy =
  px_open :: bool
  px_conns :: "ConnectionPtr \<Rightarrow> (u8 list \<times> u8 list) option"

text \<open>Bytes of one side are passed on to the other: \<open>True\<close> is from the client to the server.\<close>

definition pass_on :: "bool \<Rightarrow> u8 list \<Rightarrow> u8 list \<times> u8 list \<Rightarrow> u8 list \<times> u8 list" where
  "pass_on from_client bs x =
     (case x of (up, down) \<Rightarrow> if from_client then (up @ bs, down) else (up, down @ bs))"

definition px_received :: "ConnectionPtr \<Rightarrow> bool \<Rightarrow> u8 list \<Rightarrow> proxy \<Rightarrow> proxy" where
  "px_received q from_client bs x =
     x\<lparr>px_conns := (px_conns x)(q := map_option (pass_on from_client bs) (px_conns x q))\<rparr>"

fun proxy_step :: "server_event \<Rightarrow> proxy \<Rightarrow> proxy" where
  "proxy_step (Accept_done net er sock q) x =
     (if px_open x \<and> er = No_error
      then x\<lparr>px_conns := (px_conns x)(q \<mapsto> ([], sock_sent sock))\<rparr> else x)"
| "proxy_step (Signal_done net cl) x = \<lparr>px_open = False, px_conns = Map.empty\<rparr>"
| "proxy_step (Connect_done q ep er) x = x"
| "proxy_step (Receive_done q b net er bs) x =
     (if er = No_error then px_received q b bs x else x)"
| "proxy_step (Read_some_done q b net er bs) x =
     (if er = No_error then px_received q b bs x
      else if er = Operation_aborted then x
      else x\<lparr>px_conns := (px_conns x)(q := None)\<rparr>)"

section \<open>The server refines it\<close>

definition passed_on :: "Connection \<Rightarrow> u8 list \<times> u8 list" where
  "passed_on c = (sent_to True c, sent_to False c)"

definition abs_server :: "Server \<Rightarrow> proxy" where
  "abs_server s =
     \<lparr>px_open = m_acceptor_open s, px_conns = (\<lambda>q. map_option passed_on (heap s q))\<rparr>"

fun sends_fully :: "server_event \<Rightarrow> bool" where
  "sends_fully (Receive_done q b net er bs) = sends_all net"
| "sends_fully (Read_some_done q b net er bs) = sends_all net"
| "sends_fully ev = True"

lemma abs_server_fields [simp]:
  "abs_server (s\<lparr>outstanding := M\<rparr>) = abs_server s"
  "abs_server (s\<lparr>cancelled := M\<rparr>) = abs_server s"
  "abs_server (s\<lparr>cout := out\<rparr>) = abs_server s"
  "abs_server (s\<lparr>m_packet_logger := l\<rparr>) = abs_server s"
  "abs_server (s\<lparr>m_connection_manager := m\<rparr>) = abs_server s"
  by (simp_all add: abs_server_def)

lemma abs_server_ops [simp]:
  "abs_server (start_ops q ops s) = abs_server s" "abs_server (cancel_ops P s) = abs_server s"
  "abs_server (do_accept s) = abs_server s"
  by (simp_all add: start_ops_def cancel_ops_def do_accept_def)

lemma abs_server_heap:
  "abs_server (s\<lparr>heap := (heap s)(q \<mapsto> c)\<rparr>) =
     (abs_server s)\<lparr>px_conns := (px_conns (abs_server s))(q \<mapsto> passed_on c)\<rparr>"
  "abs_server (s\<lparr>heap := (heap s)(q := None)\<rparr>) =
     (abs_server s)\<lparr>px_conns := (px_conns (abs_server s))(q := None)\<rparr>"
  by (auto simp: abs_server_def fun_eq_iff)

lemma abs_server_same:
  assumes "m_acceptor_open s' = m_acceptor_open s" and "heap s' = heap s"
  shows "abs_server s' = abs_server s"
  using assms by (simp add: abs_server_def)

lemma conn_feed_passed_on:
  assumes "conn_feed log_func (net, b, bs) (c, l, out) = Inr (c', l', out')" and "sends_all net"
  shows "passed_on c' = pass_on b bs (passed_on c)"
  using conn_feed_sent [OF assms, of True] conn_feed_sent [OF assms, of False]
  by (simp add: passed_on_def pass_on_def)

lemma chunk_refines:
  assumes "receive_done q b net No_error bs s = Inr s' \<or> read_some_done q b net No_error bs s = Inr s'"
    and "sends_all net"
  shows "abs_server s' = px_received q b bs (abs_server s)"
proof -
  obtain c c' l' out' where c: "heap s q = Some c"
    and feed: "conn_feed (Some packet_logger) (net, b, bs) (c, m_packet_logger s, cout s) = Inr (c', l', out')"
    and c': "heap s' q = Some c'"
    using assms(1) by (rule chunk_done)
  have "heap s' = (heap s)(q \<mapsto> c')" "m_acceptor_open s' = m_acceptor_open s"
    using assms(1) c' by (auto simp: receive_done_def read_some_done_def on_receive_conn_feed
        on_read_some_conn_feed bind_res_iffs start_ops_def Let_def)
  then show ?thesis
    using c conn_feed_passed_on [OF feed assms(2)]
    by (auto simp: abs_server_def px_received_def fun_eq_iff)
qed

lemma accept_refines:
  assumes "on_accept net er sock q s = Inr s'"
  shows "abs_server s' = proxy_step (Accept_done net er sock q) (abs_server s)"
  using assms
  by (auto simp: on_accept_def bind_res_iffs manager_start_iff start_ops_def do_accept_def
      abs_server_def fun_eq_iff passed_on_def sent_to_def send_to_socket_def opened_def
      new_Connection_def split: if_splits)

lemma signal_refines:
  assumes "on_signal net cl s = Inr s'" and "manager_ok (m_connection_manager s) (heap s)"
  shows "abs_server s' = proxy_step (Signal_done net cl) (abs_server s)"
proof -
  from assms(1) have "\<exists>h. heap s' = h |` (- set (m_connections (m_connection_manager s))) \<and>
      fold_res (stop_one net) (m_connections (m_connection_manager s)) (heap s) = Inr h \<and>
      \<not> m_acceptor_open s'"
    by (auto simp: on_signal_def bind_res_iffs Let_def cancel_ops_def manager_stop_all_def)
  then obtain h where h: "heap s' = h |` (- set (m_connections (m_connection_manager s)))"
    and stopped: "fold_res (stop_one net) (m_connections (m_connection_manager s)) (heap s) = Inr h"
    and closed: "\<not> m_acceptor_open s'" by blast
  have m: "set (m_connections (m_connection_manager s)) = dom (heap s)"
    "distinct (m_connections (m_connection_manager s))"
    using assms(2) by (auto simp: manager_ok_def set_ok_distinct)
  have "h = (\<lambda>q. if q \<in> dom (heap s) then map_option closed (heap s q) else heap s q)"
    using stop_one_fold(1) [OF stopped m(2)] m(1) by simp
  then have "heap s' = Map.empty" using h m(1) by (auto simp: restrict_map_def fun_eq_iff domIff)
  then show ?thesis using closed by (simp add: abs_server_def)
qed

lemma read_end_refines:
  assumes "read_some_done q b net er bs s = Inr s'" and "er \<noteq> No_error"
  shows "abs_server s' = proxy_step (Read_some_done q b net er bs) (abs_server s)"
proof (cases "er = Operation_aborted")
  case True
  then show ?thesis using assms by (simp add: read_some_done_def)
next
  case False
  then have "heap s' = (heap s)(q := None)" "m_acceptor_open s' = m_acceptor_open s"
    using assms by (auto simp: read_some_done_def on_read_some_def bind_res_iffs Let_def start_ops_def
        connection_stopped_def manager_stop_iff cancel_ops_def)
  then show ?thesis using False assms(2) by (auto simp: abs_server_def fun_eq_iff)
qed

lemma handle_refines:
  assumes "handle ev s = Inr s'" and "sends_fully ev"
    and "manager_ok (m_connection_manager s) (heap s)"
  shows "abs_server s' = proxy_step ev (abs_server s)"
proof (cases ev)
  case (Accept_done net er sock q)
  then show ?thesis using accept_refines assms(1) by simp
next
  case (Signal_done net cl)
  then show ?thesis using signal_refines assms(1,3) by simp
next
  case (Connect_done q ep er)
  have "heap s' = heap s" "m_acceptor_open s' = m_acceptor_open s"
    using assms(1) Connect_done
    by (auto simp: connect_done_def on_connect_def do_receive_def bind_res_iffs start_ops_def
        split: if_splits)
  then show ?thesis using Connect_done by (simp add: abs_server_def)
next
  case (Receive_done q b net er bs)
  then show ?thesis
    using assms(1,2) chunk_refines [of q b net bs s s'] by (auto simp: receive_done_def split: if_splits)
next
  case (Read_some_done q b net er bs)
  then show ?thesis
    using assms(1,2) chunk_refines [of q b net bs s s'] read_end_refines [of q b net er bs s s']
    by (cases "er = No_error") auto
qed

lemma step_refines:
  assumes "server_step (ev, w) s = Inr s'" and "sends_fully ev" and "server_inv s"
  shows "abs_server s' = proxy_step ev (abs_server s)"
proof -
  define s1 where "s1 = (if w then s\<lparr>cancelled := cancelled s - {#completed_op ev#}\<rparr>
    else s\<lparr>outstanding := outstanding s - {#completed_op ev#}\<rparr>)"
  have "handle ev s1 = Inr s'" using assms(1) by (simp add: server_step_def s1_def split: if_splits)
  moreover have "manager_ok (m_connection_manager s1) (heap s1)"
    using assms(3) by (simp add: s1_def server_inv_def)
  moreover have "abs_server s1 = abs_server s" by (simp add: s1_def)
  ultimately show ?thesis using handle_refines [of ev s1 s'] assms(2) by simp
qed

lemma runs_refines:
  assumes "runs s xs s'" and "server_inv s"
    and "\<forall>x \<in> set xs. sends_fully (fst x)"
  shows "abs_server s' = fold proxy_step (map fst xs) (abs_server s)"
  using assms
proof (induction rule: runs.induct)
  case (runs_Nil s)
  then show ?case by simp
next
  case (runs_step s xs s1 x s2)
  obtain ev w where x: "x = (ev, w)" by (cases x)
  have "server_inv s1"
    using runs_inv [OF runs_step.hyps(1) runs_step.prems(1)] .
  then have "abs_server s2 = proxy_step ev (abs_server s1)"
    using runs_step.hyps(3) runs_step.prems(2) by (intro step_refines) (auto simp: x)
  then show ?case using runs_step by (simp add: x)
qed

section \<open>Property\<close>

text \<open>
  C8. The server is a proxy. From its construction and over every run of the event loop in
  which the sends are not short, whatever the clients and the servers send and however their
  operations complete, the state of the server is the one the specification computes from the
  events: which connections there are, and which bytes each has passed on in each direction.
\<close>

theorem server_refines_proxy:
  assumes "new_Server os ca cp sa sp path = Inr s0" and "runs s0 xs s"
    and "\<forall>x \<in> set xs. sends_fully (fst x)"
  shows "abs_server s = fold proxy_step (map fst xs) \<lparr>px_open = True, px_conns = Map.empty\<rparr>"
proof -
  have "abs_server s0 = \<lparr>px_open = True, px_conns = Map.empty\<rparr>"
    using new_Server_inv [OF assms(1)] by (simp add: abs_server_def)
  then show ?thesis
    using runs_refines [OF assms(2) new_Server_inv(1) [OF assms(1)]] assms(3) by simp
qed

theorem server_refines_proxy_witness:
  "\<exists>s. runs fresh_server ((([] @ [(accept_event, False)]) @ [(connect_event, False)]) @ [(byte_event, False)]) s \<and>
       px_conns (abs_server s) sample_ptr = Some ([7], [])"
proof -
  let ?xs = "(([] @ [(accept_event, False)]) @ [(connect_event, False)]) @ [(byte_event, False)]"
  obtain s where s: "server_step (byte_event, False) connected = Inr s"
    by (rule byte_step)
  have run: "runs fresh_server ?xs s"
    by (intro runs_step [OF _ byte_ok s] runs_step [OF _ connect_ok connect_step]
        runs_step [OF _ accept_ok accept_step] runs_Nil)
  have "\<forall>x \<in> set ?xs. sends_fully (fst x)"
    by (simp add: accept_event_def connect_event_def byte_event_def)
  from server_refines_proxy [OF new_sample_server run this] run show ?thesis
    by (auto simp: accept_event_def connect_event_def byte_event_def px_received_def pass_on_def
        client_socket_def)
qed

end
