(* ===== verification/Queued_Loop.thy ===== *)
theory Queued_Loop
  imports Server_Properties
begin

text \<open>
  The event loop with its queue of completed operations. \<open>runs\<close> lets an operation complete
  and its handler run in one turn. In the program the two are apart: an operation that has
  completed waits in the queue of \<open>io_context::run\<close> with its result, and a handler that runs
  before it may close the socket, too late to change that result. The comment in
  \<open>Server::do_accept\<close> provides for this case for the acceptor; the handlers of a connection do
  not. Shown: the states of this loop are states of \<open>runs\<close>, the accept handler is safe, and
  exactly when a handler accesses a destroyed connection.
\<close>

section \<open>The loop\<close>

text \<open>
  An operation counts as in flight until its handler has run. A handler that finds its
  operation among the cancelled ones is late: the socket was closed in the meantime.
\<close>

definition dispatch :: "server_event \<Rightarrow> Server \<Rightarrow> Server result" where
  "dispatch ev s = server_step (ev, completed_op ev \<notin># outstanding s) s"

definition is_queued :: "server_op \<Rightarrow> server_event list \<Rightarrow> bool" where
  "is_queued op R \<longleftrightarrow> op \<in> set (map completed_op R)"

text \<open>The address of a new connection is not one that a queued handler still holds.\<close>

fun fresh_for :: "server_event list \<Rightarrow> server_event \<Rightarrow> bool" where
  "fresh_for R (Accept_done net er sock q) = (\<forall>ev \<in> set R. \<not> is_op_of {q} (completed_op ev))"
| "fresh_for R ev = True"

text \<open>
  \<open>queued n s R\<close>: the server reaches the state \<open>s\<close> with the completions \<open>R\<close> in the queue, after
  its handlers took \<open>n\<close> bytes from clients. Asio promises no order between handlers, so any
  of the queue may be the next. A cancelled operation that is not in the queue completes with
  \<open>operation_aborted\<close>.
\<close>

inductive queued :: "nat \<Rightarrow> Server \<Rightarrow> server_event list \<Rightarrow> bool" where
  queued_start: "new_Server os ca cp sa sp path = Inr s \<Longrightarrow> queued 0 s []"
| queued_complete:
    "queued n s R \<Longrightarrow> completed_op ev \<in># outstanding s \<Longrightarrow> \<not> is_queued (completed_op ev) R \<Longrightarrow>
     queued n s (R @ [ev])"
| queued_handler:
    "queued n s (R1 @ ev # R2) \<Longrightarrow> completed_op ev \<in># outstanding s \<Longrightarrow> event_ok ev s \<Longrightarrow>
     fresh_for (R1 @ R2) ev \<Longrightarrow> dispatch ev s = Inr s' \<Longrightarrow>
     queued (n + client_bytes ev) s' (R1 @ R2)"
| queued_late:
    "queued n s (R1 @ ev # R2) \<Longrightarrow> completed_op ev \<notin># outstanding s \<Longrightarrow> dispatch ev s = Inr s' \<Longrightarrow>
     queued n s' (R1 @ R2)"
| queued_aborted:
    "queued n s R \<Longrightarrow> asio_ok (ev, True) s \<Longrightarrow> \<not> is_queued (completed_op ev) R \<Longrightarrow>
     server_step (ev, True) s = Inr s' \<Longrightarrow> queued (n + client_bytes ev) s' R"

section \<open>What is in the queue\<close>

text \<open>A queued operation is in flight, or was cancelled with its connection destroyed.\<close>

definition pending :: "Server \<Rightarrow> server_op \<Rightarrow> bool" where
  "pending s op \<longleftrightarrow>
     op \<in># outstanding s \<or>
     op \<in># cancelled s \<and> (\<forall>q x. op = Connection_op q x \<longrightarrow> heap s q = None)"

lemma outstanding_update [simp]:
  "outstanding (start_ops q ops s) = outstanding s + image_mset (Connection_op q) (mset ops)"
  "outstanding (do_accept s) = add_mset Accept_op (outstanding s)"
  "cancelled (start_ops q ops s) = cancelled s" "cancelled (do_accept s) = cancelled s"
  "outstanding (cancel_ops P s) = filter_mset (\<lambda>op. \<not> P op) (outstanding s)"
  "cancelled (cancel_ops P s) = cancelled s + filter_mset P (outstanding s)"
  by (simp_all add: start_ops_def do_accept_def cancel_ops_def)

lemma in_remove_other: "x \<noteq> y \<Longrightarrow> x \<in># M - {#y#} \<longleftrightarrow> x \<in># M"
  by (simp add: in_diff_count count_eq_zero_iff [symmetric] flip: count_greater_zero_iff)

lemma handle_cancelled:
  assumes "handle ev s = Inr s'" and "op \<in># cancelled s"
  shows "op \<in># cancelled s'"
  using assms
  by (cases ev) (auto simp: on_accept_def on_signal_def connect_done_def on_connect_def do_receive_def receive_done_def
      read_some_done_def connection_stopped_def bind_res_iffs Let_def split: if_splits)

lemma is_op_of_iff: "is_op_of Q op \<longleftrightarrow> (\<exists>q x. op = Connection_op q x \<and> q \<in> Q)"
  by (cases op) auto

text \<open>A handler cancels the operations of the connections it destroys, and the accept.\<close>

lemma pending_outstanding: "op \<in># outstanding s \<Longrightarrow> pending s op"
  by (simp add: pending_def)

lemma connection_stopped_pending:
  assumes "connection_stopped net q s = Inr s'" and "op \<in># outstanding s"
  shows "pending s' op"
  using assms by (auto simp: pending_def connection_stopped_def bind_res_iffs is_op_of_iff)

lemma handle_outstanding:
  assumes "handle ev s = Inr s'" and "op \<in># outstanding s"
  shows "pending s' op"
proof (cases ev)
  case (Signal_done net cl)
  then show ?thesis
    using assms by (auto simp: pending_def on_signal_def bind_res_iffs Let_def is_op_of_iff)
next
  case (Read_some_done q b net er bs)
  then show ?thesis
    using assms by (auto simp: read_some_done_def bind_res_iffs Let_def split: if_splits
        intro: pending_outstanding elim: connection_stopped_pending)
qed (use assms in \<open>auto simp: on_accept_def connect_done_def on_connect_def do_receive_def
      receive_done_def bind_res_iffs split: if_splits intro!: pending_outstanding\<close>)

lemma step_pending:
  assumes "server_step (ev, False) s = Inr s'" and "pending s op" and "op \<noteq> completed_op ev"
    and "\<forall>q. accepts q ev \<longrightarrow> \<not> is_op_of {q} op"
  shows "pending s' op"
proof (cases "op \<in># outstanding s")
  case True
  then show ?thesis
    using handle_outstanding [of ev _ s' op] assms(1,3)
    by (auto simp: server_step_def in_remove_other)
next
  case False
  then have c: "op \<in># cancelled s" and dead: "\<And>q x. op = Connection_op q x \<Longrightarrow> heap s q = None"
    using assms(2) by (auto simp: pending_def)
  have "op \<in># cancelled s'"
    using handle_cancelled [of ev _ s' op] assms(1) c by (auto simp: server_step_def)
  moreover have "heap s' q = None" if op: "op = Connection_op q x" for q x
  proof (rule ccontr)
    assume "heap s' q \<noteq> None"
    then obtain c where c: "heap s' q = Some c" by blast
    have "\<not> accepts q ev" using assms(4) by (auto simp: op)
    then show False using step_backwards [OF assms(1) c] dead [OF op] by simp
  qed
  ultimately show ?thesis by (simp add: pending_def)
qed

definition queue_ok :: "Server \<Rightarrow> server_event list \<Rightarrow> bool" where
  "queue_ok s R \<longleftrightarrow>
     distinct (map completed_op R) \<and> (\<forall>ev \<in> set R. pending s (completed_op ev))"

lemma queue_ok_remove:
  "queue_ok s (R1 @ ev # R2) \<Longrightarrow>
     queue_ok s (R1 @ R2) \<and> pending s (completed_op ev) \<and> \<not> is_queued (completed_op ev) (R1 @ R2)"
  by (auto simp: queue_ok_def is_queued_def)

lemma pending_late:
  "pending s op \<Longrightarrow> op \<noteq> op' \<Longrightarrow> pending (s\<lparr>cancelled := cancelled s - {#op'#}\<rparr>) op"
  by (auto simp: pending_def in_remove_other)

lemma queue_ok_late:
  assumes "queue_ok s R" and "\<not> is_queued op R"
  shows "queue_ok (s\<lparr>cancelled := cancelled s - {#op#}\<rparr>) R"
  unfolding queue_ok_def
proof (intro conjI ballI)
  show "distinct (map completed_op R)" using assms(1) by (simp add: queue_ok_def)
  fix e assume e: "e \<in> set R"
  then have "completed_op e \<noteq> op" using assms(2) by (auto simp: is_queued_def)
  then show "pending (s\<lparr>cancelled := cancelled s - {#op#}\<rparr>) (completed_op e)"
    using assms(1) e by (intro pending_late) (simp_all add: queue_ok_def)
qed

lemma queue_ok_handler:
  assumes "queue_ok s (R1 @ ev # R2)" and "server_step (ev, False) s = Inr s'"
    and "fresh_for (R1 @ R2) ev"
  shows "queue_ok s' (R1 @ R2)"
  unfolding queue_ok_def
proof (intro conjI ballI)
  show "distinct (map completed_op (R1 @ R2))" using assms(1) by (auto simp: queue_ok_def)
  fix e assume e: "e \<in> set (R1 @ R2)"
  show "pending s' (completed_op e)"
  proof (rule step_pending [OF assms(2)])
    show "pending s (completed_op e)" using assms(1) e by (auto simp: queue_ok_def)
    have "completed_op ev \<notin> completed_op ` set (R1 @ R2)"
      using queue_ok_remove [OF assms(1)] by (simp add: is_queued_def image_Un)
    then show "completed_op e \<noteq> completed_op ev" using e by (metis imageI)
    show "\<forall>q. accepts q ev \<longrightarrow> \<not> is_op_of {q} (completed_op e)" using assms(3) e by (cases ev) auto
  qed
qed

section \<open>Late handlers\<close>

text \<open>The events whose handler accesses its connection.\<close>

fun uses_connection :: "server_event \<Rightarrow> bool" where
  "uses_connection (Accept_done net er sock q) = False"
| "uses_connection (Signal_done net cl) = False"
| "uses_connection (Connect_done q ep er) = (er = No_error)"
| "uses_connection (Receive_done q b net er bs) = (er = No_error)"
| "uses_connection (Read_some_done q b net er bs) = (er \<noteq> Operation_aborted)"

lemma late_dispatch:
  assumes "server_inv s" and "pending s (completed_op ev)" and "completed_op ev \<notin># outstanding s"
  shows "dispatch ev s =
    (if uses_connection ev then Inl Undefined_behaviour
     else Inr (s\<lparr>cancelled := cancelled s - {#completed_op ev#}\<rparr>))"
proof -
  have c: "completed_op ev \<in># cancelled s"
    and dead: "\<And>q x. completed_op ev = Connection_op q x \<Longrightarrow> heap s q = None"
    using assms(2,3) by (auto simp: pending_def)
  show ?thesis
  proof (cases ev)
    case (Accept_done net er sock q)
    then have "\<not> m_acceptor_open s" using assms(1) c by (auto simp: server_inv_def)
    then show ?thesis using assms(3) Accept_done by (simp add: dispatch_def server_step_def on_accept_def)
  next
    case (Signal_done net cl)
    then show ?thesis using assms(1) c by (simp add: server_inv_def)
  qed (use assms(3) dead in \<open>simp_all add: dispatch_def server_step_def connect_done_def
        receive_done_def read_some_done_def load_def\<close>)
qed

text \<open>The state after a late handler is the one after the abort of its operation.\<close>

lemma late_running:
  assumes "running n s" and inv: "server_inv s" and "op \<in># cancelled s"
  shows "running n (s\<lparr>cancelled := cancelled s - {#op#}\<rparr>)"
proof -
  from cancelled_completes [OF inv assms(3)]
  obtain ev where ev: "completed_op ev = op" "event_error ev = Operation_aborted"
    "event_ok ev s" "client_bytes ev = 0"
    by blast
  then have ok: "asio_ok (ev, True) s" using assms(3) by (simp add: asio_ok_def)
  from running_step [OF assms(1) ok step_cancelled [OF inv ok]] ev show ?thesis by simp
qed

section \<open>The queue and the reachable states\<close>

lemma queued_inv:
  assumes "queued n s R"
  shows "running n s \<and> queue_ok s R"
  using assms
proof (induction rule: queued.induct)
  case (queued_start os ca cp sa sp path s)
  have "runs s [] s" by simp
  then have "running 0 s"
    using queued_start.hyps total_client_bytes_simps(1) unfolding running_def by metis
  then show ?case by (simp add: queue_ok_def)
next
  case (queued_complete n s R ev)
  then show ?case by (auto simp: queue_ok_def is_queued_def pending_def)
next
  case (queued_handler n s R1 ev R2 s')
  then have IH: "running n s" "queue_ok s (R1 @ ev # R2)" by simp_all
  have ok: "asio_ok (ev, False) s" using queued_handler.hyps by (simp add: asio_ok_def)
  have step: "server_step (ev, False) s = Inr s'"
    using queued_handler.hyps by (simp add: dispatch_def)
  from queue_ok_handler [OF IH(2) step queued_handler.hyps(4)]
  show ?case using running_step [OF IH(1) ok step] by simp
next
  case (queued_late n s R1 ev R2 s')
  then have IH: "running n s" "queue_ok s (R1 @ ev # R2)" by simp_all
  have inv: "server_inv s" by (rule running_inv [OF IH(1)])
  note rest = queue_ok_remove [OF IH(2)]
  have s': "s' = s\<lparr>cancelled := cancelled s - {#completed_op ev#}\<rparr>"
    using late_dispatch [OF inv _ queued_late.hyps(2)] rest queued_late.hyps(3)
    by (simp split: if_splits)
  have "completed_op ev \<in># cancelled s" using rest queued_late.hyps(2) by (simp add: pending_def)
  then show ?case
    using late_running [OF IH(1) inv] rest queue_ok_late by (simp add: s')
next
  case (queued_aborted n s R ev s')
  then have IH: "running n s" "queue_ok s R" by simp_all
  have "server_inv s" by (rule running_inv [OF IH(1)])
  from step_cancelled [OF this queued_aborted.hyps(2)]
  have "s' = s\<lparr>cancelled := cancelled s - {#completed_op ev#}\<rparr>"
    using queued_aborted.hyps(4) by simp
  then show ?case
    using running_step [OF IH(1) queued_aborted.hyps(2,4)]
      queue_ok_late [OF IH(2) queued_aborted.hyps(3)] by simp
qed

text \<open>A turn of the simple loop: the operation completes and its handler runs next.\<close>

lemma queued_turn:
  assumes "queued n s R" and "asio_ok (ev, False) s" and "\<not> is_queued (completed_op ev) R"
    and "fresh_for R ev" and "server_step (ev, False) s = Inr s'"
  shows "queued (n + client_bytes ev) s' R"
proof -
  have "queued n s (R @ [ev])"
    using assms(1-3) by (intro queued_complete) (simp_all add: asio_ok_def)
  then show ?thesis
    using queued_handler [of n s R ev "[]" s'] assms by (simp add: asio_ok_def dispatch_def)
qed

lemma runs_queued:
  assumes "runs s xs s'" and "queued n s []"
  shows "queued (n + total_client_bytes xs) s' []"
  using assms
proof (induction rule: runs.induct)
  case (runs_Nil s)
  then show ?case by simp
next
  case (runs_step s xs s1 x s2)
  then have IH: "queued (n + total_client_bytes xs) s1 []" by simp
  obtain ev w where x: "x = (ev, w)" by (cases x)
  show ?case
  proof (cases w)
    case True
    then show ?thesis
      using queued_aborted [OF IH, of ev s2] runs_step.hyps(2,3)
      by (simp add: x is_queued_def add.assoc)
  next
    case False
    have "fresh_for [] ev" by (cases ev) simp_all
    then show ?thesis
      using queued_turn [OF IH, of ev s2] runs_step.hyps(2,3) False
      by (simp add: x is_queued_def add.assoc)
  qed
qed

lemma running_queued:
  assumes "running n s"
  shows "queued n s []"
  using assms runs_queued [OF _ queued_start] by (auto simp: running_def)

text \<open>Only the handler of the signal closes the acceptor.\<close>

lemma acceptor_update [simp]:
  "m_acceptor_open (start_ops q ops s) = m_acceptor_open s"
  "m_acceptor_open (do_accept s) = m_acceptor_open s"
  "m_acceptor_open (cancel_ops P s) = m_acceptor_open s"
  by (simp_all add: start_ops_def do_accept_def cancel_ops_def)

lemma handle_acceptor:
  assumes "handle ev s = Inr s'" and "\<forall>net cl. ev \<noteq> Signal_done net cl"
  shows "m_acceptor_open s' = m_acceptor_open s"
proof (cases ev)
  case (Signal_done net cl)
  then show ?thesis using assms(2) by blast
qed (use assms(1) in \<open>auto simp: on_accept_def connect_done_def on_connect_def do_receive_def
      receive_done_def read_some_done_def connection_stopped_def bind_res_iffs Let_def
      split: if_splits\<close>)

lemma step_acceptor:
  assumes "server_step (ev, w) s = Inr s'" and "\<forall>net cl. ev \<noteq> Signal_done net cl"
  shows "m_acceptor_open s' = m_acceptor_open s"
  using assms(1) handle_acceptor [OF _ assms(2), of _ s'] by (cases w) (auto simp: server_step_def)

section \<open>Two late handlers\<close>

text \<open>The signal arrives when a read of the client has completed.\<close>

definition late_byte :: server_event where
  "late_byte = Receive_done sample_ptr True reliable_net No_error [7]"

lemma signal_before_read:
  obtains s where "queued 0 s [late_byte]" and "\<not> m_acceptor_open s" and "heap s sample_ptr = None"
    and "completed_op late_byte \<notin># outstanding s"
proof -
  let ?sig = "Signal_done reliable_net None"
  have inv: "server_inv connected" by (rule running_inv [OF running_connected])
  have ok: "asio_ok (?sig, False) connected" by (simp add: asio_ok_def connected_def)
  obtain s where s: "server_step (?sig, False) connected = Inr s" "\<not> m_acceptor_open s"
    "heap s = Map.empty" "outstanding s = {#}"
    using signal_step [OF inv ok] by (auto simp: reliable_net_def)
  have "queued 0 connected [late_byte]"
    using queued_complete [OF running_queued [OF running_connected], of late_byte]
    by (simp add: late_byte_def connected_def is_queued_def)
  from queued_turn [OF this ok _ _ s(1)] have "queued 0 s [late_byte]"
    by (simp add: is_queued_def late_byte_def)
  then show thesis using that s by simp
qed

text \<open>The client closes its connection when a read of the server has completed.\<close>

definition late_reply :: server_event where
  "late_reply = Receive_done sample_ptr False reliable_net No_error [7]"

lemma close_before_reply:
  obtains s where "queued 1 s [late_reply]" and "m_acceptor_open s" and "heap s sample_ptr = None"
    and "completed_op late_reply \<notin># outstanding s"
proof -
  let ?eof = "Read_some_done sample_ptr True reliable_net (Other_error 2) []"
  obtain s2 c where s2: "server_step (byte_event, False) connected = Inr s2"
    "Connection_op sample_ptr (Async_read_some True) \<in># outstanding s2" "heap s2 sample_ptr = Some c"
    by (rule byte_step)
  have run: "running 1 s2"
    using running_step [OF running_connected byte_ok s2(1)] by (simp add: byte_event_def)
  have inv: "server_inv s2" by (rule running_inv [OF run])
  have "pending s2 (completed_op late_reply)"
    by (rule step_pending [OF s2(1)])
      (simp_all add: pending_def connected_def late_reply_def byte_event_def)
  then have "completed_op late_reply \<in># outstanding s2"
    using s2(3) by (auto simp: pending_def late_reply_def)
  from queued_complete [OF running_queued [OF run] this]
  have q: "queued 1 s2 [late_reply]" by (simp add: is_queued_def)
  have ok: "asio_ok (?eof, False) s2" using s2(2) by (simp add: asio_ok_def)
  obtain s where s: "server_step (?eof, False) s2 = Inr s" "heap s = (heap s2)(sample_ptr := None)"
    "outstanding s = filter_mset (\<lambda>op. \<not> is_op_of {sample_ptr} op) (outstanding s2)"
    using connection_end_step [OF inv ok] by (auto simp: reliable_net_def)
  from queued_turn [OF q ok _ _ s(1)] have late: "queued 1 s [late_reply]"
    by (simp add: is_queued_def late_reply_def)
  have "m_acceptor_open s2" using step_outstanding [OF inv ok] by blast
  then have "m_acceptor_open s" using step_acceptor [OF s(1)] by simp
  then show thesis using that late s(2,3) by (simp add: late_reply_def)
qed

section \<open>The properties of the loop\<close>

text \<open>
  C10. The queue adds no behaviour but the faults of late handlers. The states the server reaches
  when completions wait in a queue, in any order and whatever the handlers before them do,
  are the states of the loop in which every handler runs at once: each property of these
  holds here too.
\<close>

theorem queued_running:
  "(\<exists>R. queued n s R) \<longleftrightarrow> running n s"
  using queued_inv running_queued by blast

text \<open>
  C15. A late handler. A queued completion whose operation is no longer in flight belongs to a
  socket that was closed, and unless its handler uses a connection the handler changes
  nothing: the guard at the head of the accept handler does what its comment says, even when
  the accept succeeded. A handler that uses the connection finds the object destroyed.
\<close>

theorem late_handlers:
  assumes "queued n s (R1 @ ev # R2)" and "completed_op ev \<notin># outstanding s"
  shows "completed_op ev \<in># cancelled s \<and>
         (\<forall>q x. completed_op ev = Connection_op q x \<longrightarrow> heap s q = None) \<and>
         dispatch ev s = (if uses_connection ev then Inl Undefined_behaviour
                          else Inr (s\<lparr>cancelled := cancelled s - {#completed_op ev#}\<rparr>))"
proof -
  have "running n s" and R: "queue_ok s (R1 @ ev # R2)" using queued_inv [OF assms(1)] by simp_all
  then have inv: "server_inv s" by (intro running_inv)
  have "pending s (completed_op ev)" using queue_ok_remove [OF R] by blast
  then show ?thesis using late_dispatch [OF inv _ assms(2)] assms(2) by (simp add: pending_def)
qed

theorem late_handlers_witness:
  "\<exists>s. queued 0 s [accept_event] \<and> Accept_op \<in># cancelled s \<and>
       dispatch accept_event s = Inr (s\<lparr>cancelled := cancelled s - {#Accept_op#}\<rparr>)"
proof -
  let ?sig = "Signal_done reliable_net None"
  have inv: "server_inv fresh_server" by (rule running_inv [OF running_fresh])
  have ok: "asio_ok (?sig, False) fresh_server" by (simp add: asio_ok_def)
  obtain s where s: "server_step (?sig, False) fresh_server = Inr s" "outstanding s = {#}"
    using signal_step [OF inv ok] by auto
  have "queued 0 fresh_server ([] @ [accept_event])"
    using running_queued [OF running_fresh]
    by (rule queued_complete) (simp_all add: accept_event_def is_queued_def)
  from queued_turn [OF this ok _ _ s(1)] have q: "queued 0 s ([] @ accept_event # [])"
    by (simp add: is_queued_def accept_event_def)
  from late_handlers [OF q] s(2)
  have "Accept_op \<in># cancelled s \<and>
      dispatch accept_event s = Inr (s\<lparr>cancelled := cancelled s - {#Accept_op#}\<rparr>)"
    by (simp add: accept_event_def)
  then show ?thesis using q by auto
qed

text \<open>
  C5. What can end the loop with the queue. With a system that keeps its promises a handler
  throws \<open>BAD packet\<close>, the \<open>system_error\<close> of a failing socket call or, when the statement it
  is collecting reaches 671088599 bytes, the \<open>length_error\<close> of the reservation; or it is a
  late handler of a connection that another handler destroyed while its completion waited,
  and accesses the destroyed object.
\<close>

theorem queued_faults:
  assumes "queued n s (R1 @ ev # R2)" and "event_ok ev s" and "dispatch ev s = Inl e"
  shows "e = Runtime_error ''BAD packet'' \<or> (\<exists>code. e = System_error code) \<or>
         e = Length_error \<and>
           (\<exists>q c. subject ev = Some q \<and> heap s q = Some c \<and>
              671088599 \<le> length (client_text c) + client_bytes ev) \<or>
         e = Undefined_behaviour \<and> uses_connection ev \<and>
           (\<exists>q x. completed_op ev = Connection_op q x \<and> Connection_op q x \<in># cancelled s \<and>
                  Connection_op q x \<notin># outstanding s \<and> heap s q = None)"
proof -
  have "running n s" and R: "queue_ok s (R1 @ ev # R2)" using queued_inv [OF assms(1)] by simp_all
  then have inv: "server_inv s" by (intro running_inv)
  have pend: "pending s (completed_op ev)" using queue_ok_remove [OF R] by blast
  show ?thesis
  proof (cases "completed_op ev \<in># outstanding s")
    case True
    then have "asio_ok (ev, False) s" "server_step (ev, False) s = Inl e"
      using assms(2,3) by (simp_all add: asio_ok_def dispatch_def)
    then have "step_fault s ev e" using server_step_inv [OF inv, of "(ev, False)"] by simp
    then show ?thesis by (auto simp: step_fault_def bad_packet_def statement_bound_def)
  next
    case False
    then have "e = Undefined_behaviour" "uses_connection ev"
      using late_dispatch [OF inv pend] assms(3) by (auto split: if_splits)
    then show ?thesis using pend False by (cases ev) (auto simp: pending_def)
  qed
qed

theorem queued_faults_witness:
  "\<exists>s. queued 1 s [late_reply] \<and> dispatch late_reply s = Inl Undefined_behaviour \<and>
       Connection_op sample_ptr (Async_receive False) \<in># cancelled s"
proof -
  obtain s where s: "queued 1 s ([] @ late_reply # [])" "heap s sample_ptr = None"
    "completed_op late_reply \<notin># outstanding s"
    using close_before_reply by auto
  have fault: "dispatch late_reply s = Inl Undefined_behaviour"
    using s(2) by (simp add: dispatch_def server_step_def late_reply_def receive_done_def load_def)
  have "event_ok late_reply s" by (simp add: late_reply_def BUFFER_LENGTH_def)
  from queued_faults [OF s(1) this fault] show ?thesis using fault s(1) by (auto simp: late_reply_def)
qed

text \<open>
  C28. Late handlers occur: two completions in the queue are enough. When the signal arrives
  while a completed read of a client waits for its handler, and when a client closes its
  connection while a completed read of the MySQL server waits, the waiting handler uses the
  destroyed connection.
\<close>

theorem queued_use_after_free:
  "(\<exists>s. queued 0 s [Receive_done sample_ptr True reliable_net No_error [7]] \<and> \<not> m_acceptor_open s \<and>
       dispatch (Receive_done sample_ptr True reliable_net No_error [7]) s = Inl Undefined_behaviour) \<and>
   (\<exists>s. queued 1 s [Receive_done sample_ptr False reliable_net No_error [7]] \<and> m_acceptor_open s \<and>
       dispatch (Receive_done sample_ptr False reliable_net No_error [7]) s = Inl Undefined_behaviour)"
proof -
  have late: "dispatch (Receive_done sample_ptr b reliable_net No_error [7]) s = Inl Undefined_behaviour"
    if "heap s sample_ptr = None" for s b
    using that by (simp add: dispatch_def server_step_def receive_done_def load_def)
  obtain s1 where "queued 0 s1 [late_byte]" "\<not> m_acceptor_open s1" "heap s1 sample_ptr = None"
    by (rule signal_before_read)
  moreover obtain s2 where "queued 1 s2 [late_reply]" "m_acceptor_open s2" "heap s2 sample_ptr = None"
    by (rule close_before_reply)
  ultimately show ?thesis
    unfolding late_byte_def late_reply_def by (intro conjI exI) (assumption | rule late)+
qed

end
