(* ===== verification/Cxx_Vector.thy ===== *)
theory Cxx_Vector
  imports Prelude
begin

text \<open>
  The part of \<open>std::vector\<close> the debug build uses: the elements and the capacity, with \<open>clear\<close>,
  \<open>shrink_to_fit\<close>, \<open>reserve\<close> and \<open>push_back\<close>, under the allocation policy of libstdc++ in GCC 7,
  the compiler of the Ubuntu release README.md names: \<open>reserve\<close> allocates exactly the
  requested capacity (\<open>vector::reserve\<close>, unlike the strings of theory Cxx_String), \<open>push_back\<close>
  into a full vector doubles it up to the maximal size, and \<open>shrink_to_fit\<close> reallocates to
  the size. Shown: a sequence of \<open>push_back\<close> into reserved room fails never and leaves the
  capacity alone.
\<close>

record 'a cxx_vector =
  vec_elems :: "'a list"
  vec_capacity :: nat

definition vec_max_size :: nat where
  "vec_max_size = 18446744073709551615"

definition vec_empty :: "'a cxx_vector" where
  "vec_empty = \<lparr>vec_elems = [], vec_capacity = 0\<rparr>"

definition vec_clear :: "'a cxx_vector \<Rightarrow> 'a cxx_vector" where
  "vec_clear v = v\<lparr>vec_elems := []\<rparr>"

definition vec_shrink_to_fit :: "'a cxx_vector \<Rightarrow> 'a cxx_vector" where
  "vec_shrink_to_fit v = v\<lparr>vec_capacity := length (vec_elems v)\<rparr>"

definition vec_reserve :: "u64 \<Rightarrow> 'a cxx_vector \<Rightarrow> 'a cxx_vector result" where
  "vec_reserve n v =
     (if vec_max_size < unat n then Inl Length_error
      else Inr (v\<lparr>vec_capacity := max (vec_capacity v) (unat n)\<rparr>))"

definition vec_push_back :: "'a \<Rightarrow> 'a cxx_vector \<Rightarrow> 'a cxx_vector result" where
  "vec_push_back x v =
     (if vec_max_size \<le> length (vec_elems v) then Inl Length_error
      else Inr (v\<lparr>vec_elems := vec_elems v @ [x],
                  vec_capacity :=
                    (if length (vec_elems v) < vec_capacity v then vec_capacity v
                     else min vec_max_size (max 1 (2 * length (vec_elems v))))\<rparr>))"

lemmas vec_defs = vec_clear_def vec_shrink_to_fit_def vec_reserve_def vec_push_back_def

text \<open>A vector that never holds more than its capacity.\<close>

definition vec_ok :: "'a cxx_vector \<Rightarrow> bool" where
  "vec_ok v \<longleftrightarrow> length (vec_elems v) \<le> vec_capacity v"

lemma vec_ok_empty [simp]: "vec_ok vec_empty"
  by (simp add: vec_ok_def vec_empty_def)

lemma vec_ok_shrink_to_fit [simp]: "vec_ok (vec_shrink_to_fit v)"
  by (simp add: vec_ok_def vec_defs)

lemma vec_ok_reserve: "vec_ok v \<Longrightarrow> vec_reserve n v = Inr w \<Longrightarrow> vec_ok w"
  by (auto simp: vec_ok_def vec_defs split: if_splits)

lemma vec_ok_push_back: "vec_ok v \<Longrightarrow> vec_push_back x v = Inr w \<Longrightarrow> vec_ok w"
  by (auto simp: vec_ok_def vec_defs split: if_splits)

lemma vec_cleared [simp]:
  "vec_elems (vec_shrink_to_fit (vec_clear v)) = []"
  "vec_capacity (vec_shrink_to_fit (vec_clear v)) = 0"
  by (simp_all add: vec_defs)

lemma vec_reserve_Inr:
  assumes "vec_reserve n v = Inr w"
  shows "vec_elems w = vec_elems v" and "vec_capacity w = max (vec_capacity v) (unat n)"
  using assms by (auto simp: vec_defs split: if_splits)

lemma vec_reserve_total:
  assumes "unat n \<le> vec_max_size"
  shows "vec_reserve n v = Inr (v\<lparr>vec_capacity := max (vec_capacity v) (unat n)\<rparr>)"
  using assms by (simp add: vec_reserve_def)

lemma vec_push_back_Inr:
  assumes "vec_push_back x v = Inr w"
  shows "vec_elems w = vec_elems v @ [x]"
  using assms by (auto simp: vec_defs split: if_splits)

text \<open>Within the capacity \<open>push_back\<close> neither fails nor allocates.\<close>

lemma vec_push_back_reserved:
  assumes "length (vec_elems v) < vec_capacity v" and "vec_capacity v \<le> vec_max_size"
  shows "vec_push_back x v = Inr (v\<lparr>vec_elems := vec_elems v @ [x]\<rparr>)"
  using assms by (simp add: vec_push_back_def)

end
