(* ===== verification/Debug_Packet.thy ===== *)
theory Debug_Packet
  imports Client_Packet Server_Packet Cxx_Vector
begin

text \<open>
  The packet collector of the debug build (\<open>PROXY_PACKET_DEBUG\<close>, packet.hpp and packet.cpp):
  \<open>MySqlPacket\<close> with the further member \<open>m_payload\<close>, which keeps the whole payload for the
  debug printers. Shown: within the reserved room \<open>push_back\<close> never allocates, so up to
  \<open>payload_bound\<close> bytes the debug collector does exactly what the release collector does,
  its faults included; and after any message \<open>payload()\<close> is the payload that was sent.
\<close>

section \<open>State and operations\<close>

text \<open>A packet object of the debug build: the members of the release build and the payload.\<close>

record 'p DebugPacket =
  dbg_base :: 'p
  m_payload :: "u8 cxx_vector"

definition new_DebugPacket :: "'p \<Rightarrow> 'p DebugPacket" where
  "new_DebugPacket p = \<lparr>dbg_base = p, m_payload = vec_empty\<rparr>"

definition payload_length :: "'a MySqlPacket_scheme DebugPacket \<Rightarrow> u64" where
  "payload_length d = m_payload_length (dbg_base d)"

definition sequence_id :: "'a MySqlPacket_scheme DebugPacket \<Rightarrow> u8" where
  "sequence_id d = m_sequence_id (dbg_base d)"

definition payload :: "'a MySqlPacket_scheme DebugPacket \<Rightarrow> u8 cxx_vector" where
  "payload d = m_payload d"

type_synonym 'a debug_ctx = "'a MySqlPacket_scheme DebugPacket \<times> MySqlConnectionState \<times> string"

text \<open>The preparation of \<open>m_payload\<close> when the header of a packet is complete.\<close>

definition reserve_payload :: "bool \<Rightarrow> u64 \<Rightarrow> u8 cxx_vector \<Rightarrow> u8 cxx_vector result" where
  "reserve_payload first_part n v =
     (if first_part then vec_reserve n (vec_shrink_to_fit (vec_clear v))
      else vec_reserve (word_of_nat (vec_capacity v) + n) v)"

definition debug_collect ::
  "'a MySqlPacket_scheme packet_vtable \<Rightarrow> u8 \<Rightarrow> 'a debug_ctx \<Rightarrow> 'a debug_ctx result" where
  "debug_collect vt b ctx =
     (case ctx of (d, cs, out) \<Rightarrow>
      let p = dbg_base d in
      (case m_packet_state p of
         PAYLOAD_LENGTH_0 \<Rightarrow>
           Inr (d\<lparr>dbg_base := p\<lparr>m_payload_is_received := False, m_received_bytes := 0,
                  m_payload_length := ucast b, m_packet_state := PAYLOAD_LENGTH_1\<rparr>\<rparr>, cs, out)
       | PAYLOAD_LENGTH_1 \<Rightarrow>
           Inr (d\<lparr>dbg_base := p\<lparr>m_payload_length := m_payload_length p + shift_byte b 8,
                  m_packet_state := PAYLOAD_LENGTH_2\<rparr>\<rparr>, cs, out)
       | PAYLOAD_LENGTH_2 \<Rightarrow>
           Inr (d\<lparr>dbg_base := p\<lparr>m_payload_length := m_payload_length p + shift_byte b 16,
                  m_packet_state := SEQUENCE_ID\<rparr>\<rparr>, cs, out)
       | SEQUENCE_ID \<Rightarrow>
           (let p' = p\<lparr>m_sequence_id := b,
                       m_payload_not_ended := (MAX_PAYLOAD_LENGTH = m_payload_length p)\<rparr> in
            bind_res (reserve_payload (m_payload_first_part p') (m_payload_length p') (m_payload d))
              (\<lambda>v.
            if 0 = m_payload_length p'
            then Inr (\<lparr>dbg_base = p'\<lparr>m_payload_is_received := True, m_payload_first_part := True,
                         m_packet_state := PAYLOAD_LENGTH_0\<rparr>, m_payload = v\<rparr>, cs, out)
            else Inr (\<lparr>dbg_base = p'\<lparr>m_packet_state := PAYLOAD\<rparr>, m_payload = v\<rparr>, cs, out)))
       | PAYLOAD \<Rightarrow>
           bind_res (vec_push_back b (m_payload d)) (\<lambda>v.
           bind_res (analyse_first_byte vt b (p, cs, out)) (\<lambda>(p1, cs1, out1).
           bind_res (if 0 < m_received_bytes p1 \<or> \<not> m_payload_first_part p1
                     then v_collect_data vt b p1 else Inr p1) (\<lambda>p2.
           Inr (\<lparr>dbg_base = finish_byte vt p2, m_payload = v\<rparr>, cs1, out1))))))"

definition debug_collect_all ::
  "'a MySqlPacket_scheme packet_vtable \<Rightarrow> u8 list \<Rightarrow> 'a debug_ctx \<Rightarrow> 'a debug_ctx result" where
  "debug_collect_all vt bs ctx = fold_res (debug_collect vt) bs ctx"

lemma debug_collect_all_Nil [simp]: "debug_collect_all vt [] ctx = Inr ctx"
  by (simp add: debug_collect_all_def)

lemma debug_collect_all_Cons:
  "debug_collect_all vt (b # bs) ctx = bind_res (debug_collect vt b ctx) (debug_collect_all vt bs)"
  by (simp add: debug_collect_all_def [abs_def])

lemma debug_collect_all_append:
  "debug_collect_all vt (as @ bs) ctx =
     bind_res (debug_collect_all vt as ctx) (debug_collect_all vt bs)"
  by (simp add: debug_collect_all_def [abs_def] fold_res_append)

section \<open>The release build inside the debug build\<close>

text \<open>
  The number of bytes for which the two builds are compared: 2^60, far from the 2^64 at which
  the capacity asked for would wrap.
\<close>

definition payload_bound :: nat where
  "payload_bound = 1152921504606846976"

text \<open>
  What holds after \<open>n\<close> bytes of any stream: the payload is within its capacity, also with
  what is still to come of the packet, and the capacity is no more than the bytes received
  and announced.
\<close>

definition payload_inv :: "nat \<Rightarrow> 'a MySqlPacket_scheme DebugPacket \<Rightarrow> bool" where
  "payload_inv n d \<longleftrightarrow>
     frame_inv (dbg_base d) \<and>
     (let announced = (if m_packet_state (dbg_base d) = PAYLOAD
                       then unat (m_payload_length (dbg_base d)) -
                            unat (m_received_bytes (dbg_base d)) else 0)
      in length (vec_elems (m_payload d)) + announced \<le> vec_capacity (m_payload d) \<and>
         vec_capacity (m_payload d) \<le> n + announced)"

lemma payload_inv_new: "frame_inv p \<Longrightarrow> m_packet_state p \<noteq> PAYLOAD \<Longrightarrow> payload_inv 0 (new_DebugPacket p)"
  by (simp add: payload_inv_def new_DebugPacket_def vec_empty_def)

lemma reserve_payload_total:
  assumes "vec_capacity v \<le> payload_bound" and "unat n \<le> full_length"
  shows "reserve_payload first_part n v =
           Inr (if first_part then \<lparr>vec_elems = [], vec_capacity = unat n\<rparr>
                else v\<lparr>vec_capacity := vec_capacity v + unat n\<rparr>)"
proof -
  have small: "unat n \<le> vec_max_size" using assms(2) by (simp add: vec_max_size_def)
  have cap: "vec_capacity v + unat n < 2 ^ 64" "vec_capacity v + unat n \<le> vec_max_size"
    using assms by (simp_all add: payload_bound_def vec_max_size_def)
  then have "unat (word_of_nat (vec_capacity v) + n) = vec_capacity v + unat n"
    by (simp add: unat_word_ariths unat_of_nat)
  then show ?thesis
    using small cap by (simp add: reserve_payload_def vec_reserve_total vec_defs)
qed

text \<open>
  A result of the debug collector against one of the release collector: the same fault, or
  the same packet, phase and output, with the invariant of the payload.
\<close>

definition payload_sim ::
  "nat \<Rightarrow> 'a debug_ctx result \<Rightarrow> 'a packet_ctx result \<Rightarrow> bool" where
  "payload_sim n r r' \<longleftrightarrow>
     (case r of
        Inl e \<Rightarrow> r' = Inl e
      | Inr (d, cs, out) \<Rightarrow> r' = Inr (dbg_base d, cs, out) \<and> payload_inv n d)"

lemma payload_sim_simps [simp]:
  "payload_sim n (Inl e) r' \<longleftrightarrow> r' = Inl e"
  "payload_sim n (Inr (d, cs, out)) r' \<longleftrightarrow> r' = Inr (dbg_base d, cs, out) \<and> payload_inv n d"
  by (simp_all add: payload_sim_def)

context packet_class
begin

lemma finish_byte_payload:
  assumes "frame q = frame p" and "m_packet_state p = PAYLOAD" and "frame_inv p"
  shows "if Suc (unat (m_received_bytes p)) = unat (m_payload_length p)
         then m_packet_state (finish_byte vt q) = PAYLOAD_LENGTH_0
         else m_packet_state (finish_byte vt q) = PAYLOAD \<and>
              unat (m_payload_length (finish_byte vt q)) = unat (m_payload_length p) \<and>
              unat (m_received_bytes (finish_byte vt q)) = Suc (unat (m_received_bytes p))"
proof -
  have "abs_frame (finish_byte vt q) = rx_step b (abs_frame p)" for b
    by (rule finish_byte_refines [OF assms])
  then show ?thesis
    using assms(2)
    by (auto simp: abs_frame_def rx_step_def split: if_splits PacketState.splits)
qed

text \<open>One byte: the same effect and the same faults as in the release build.\<close>

lemma debug_collect_header:
  assumes "payload_inv n d" and "n \<le> payload_bound" and "m_packet_state (dbg_base d) \<noteq> PAYLOAD"
  shows "payload_sim (Suc n) (debug_collect vt b (d, cs, out)) (collect vt b (dbg_base d, cs, out))"
proof (cases "m_packet_state (dbg_base d) = SEQUENCE_ID")
  case False
  then obtain q where q: "collect vt b (dbg_base d, cs, out) = Inr (q, cs, out)"
    "debug_collect vt b (d, cs, out) = Inr (d\<lparr>dbg_base := q\<rparr>, cs, out)" "m_packet_state q \<noteq> PAYLOAD"
    using assms(3) by (cases "m_packet_state (dbg_base d)") (auto simp: debug_collect_def collect_def)
  moreover have "frame_inv q"
    using collect_refines [OF q(1)] assms(1) by (simp add: payload_inv_def)
  ultimately show ?thesis using assms(1,3) by (auto simp: payload_inv_def)
next
  case True
  let ?p = "dbg_base d"
  have l: "unat (m_payload_length ?p) \<le> full_length" and zero: "m_received_bytes ?p = 0"
    and v: "length (vec_elems (m_payload d)) \<le> vec_capacity (m_payload d)"
      "vec_capacity (m_payload d) \<le> n"
    using assms(1) True by (auto simp: payload_inv_def frame_inv_def)
  define w where "w = (if m_payload_first_part ?p
     then \<lparr>vec_elems = [], vec_capacity = unat (m_payload_length ?p)\<rparr>
     else (m_payload d)\<lparr>vec_capacity := vec_capacity (m_payload d) + unat (m_payload_length ?p)\<rparr>)"
  have reserve: "reserve_payload (m_payload_first_part ?p) (m_payload_length ?p) (m_payload d) = Inr w"
    using reserve_payload_total [OF order_trans [OF v(2) assms(2)] l] by (simp add: w_def)
  obtain q where q: "collect vt b (?p, cs, out) = Inr (q, cs, out)"
    "debug_collect vt b (d, cs, out) = Inr (\<lparr>dbg_base = q, m_payload = w\<rparr>, cs, out)"
    "m_received_bytes q = 0" "m_payload_length q = m_payload_length ?p"
    "m_packet_state q \<noteq> PAYLOAD \<Longrightarrow> m_payload_length ?p = 0"
    using True zero reserve
    by (cases "m_payload_length ?p = 0") (auto simp: debug_collect_def collect_def Let_def)
  moreover have "frame_inv q"
    using collect_refines [OF q(1)] assms(1) by (simp add: payload_inv_def)
  ultimately show ?thesis using v by (auto simp: payload_inv_def w_def)
qed

lemma debug_collect_payload:
  assumes "payload_inv n d" and "n \<le> payload_bound" and "m_packet_state (dbg_base d) = PAYLOAD"
  shows "payload_sim (Suc n) (debug_collect vt b (d, cs, out)) (collect vt b (dbg_base d, cs, out))"
proof -
  let ?p = "dbg_base d"
  let ?l = "unat (m_payload_length ?p)" and ?k = "unat (m_received_bytes ?p)"
  have kl: "?k < ?l" "?l \<le> full_length" and inv: "frame_inv ?p"
    and v: "length (vec_elems (m_payload d)) + (?l - ?k) \<le> vec_capacity (m_payload d)"
      "vec_capacity (m_payload d) \<le> n + (?l - ?k)"
    using assms(1,3) by (auto simp: payload_inv_def frame_inv_def)
  let ?v = "(m_payload d)\<lparr>vec_elems := vec_elems (m_payload d) @ [b]\<rparr>"
  have push: "vec_push_back b (m_payload d) = Inr ?v"
    by (rule vec_push_back_reserved)
      (use kl v assms(2) in \<open>simp_all add: payload_bound_def vec_max_size_def\<close>)
  show ?thesis
  proof (cases "collect vt b (?p, cs, out)")
    case (Inl e)
    then show ?thesis
      using assms(3) push by (auto simp: debug_collect_def collect_def bind_res_iffs)
  next
    case (Inr x)
    then obtain p1 p2 cs1 out1 where an: "analyse_first_byte vt b (?p, cs, out) = Inr (p1, cs1, out1)"
      and data: "(if 0 < m_received_bytes p1 \<or> \<not> m_payload_first_part p1
                  then v_collect_data vt b p1 else Inr p1) = Inr p2"
      and x: "x = (finish_byte vt p2, cs1, out1)"
      using assms(3) by (cases x) (auto simp: collect_def bind_res_iffs)
    have run: "debug_collect vt b (d, cs, out) =
        Inr (\<lparr>dbg_base = finish_byte vt p2, m_payload = ?v\<rparr>, cs1, out1)"
      using assms(3) push an data by (simp add: debug_collect_def Let_def)
    have "frame p2 = frame p1" using data by (auto split: if_splits dest: frame_data)
    also have "\<dots> = frame ?p" using an by (rule frame_analyse)
    finally have f: "frame p2 = frame ?p" .
    show ?thesis
      using finish_byte_payload [OF f assms(3) inv] finish_byte_refines(1) [OF f assms(3) inv] kl v
      by (cases "Suc ?k = ?l") (auto simp: run Inr x payload_inv_def)
  qed
qed

lemma debug_collect_all_sim:
  assumes "payload_inv n d" and "n + length bs \<le> payload_bound"
  shows "payload_sim (n + length bs) (debug_collect_all vt bs (d, cs, out))
           (collect_all vt bs (dbg_base d, cs, out))"
  using assms
proof (induction bs arbitrary: n d cs out)
  case Nil
  then show ?case by simp
next
  case (Cons b bs)
  have n: "n \<le> payload_bound" and rest: "Suc n + length bs \<le> payload_bound"
    using Cons.prems by simp_all
  have "payload_sim (Suc n) (debug_collect vt b (d, cs, out)) (collect vt b (dbg_base d, cs, out))"
    using debug_collect_header [OF Cons.prems(1) n] debug_collect_payload [OF Cons.prems(1) n] by blast
  then show ?case
    using Cons.IH [OF _ rest]
    by (cases "debug_collect vt b (d, cs, out)") (auto simp: debug_collect_all_Cons collect_all_Cons)
qed

text \<open>The payload that is kept, whenever the debug collector accepts the bytes.\<close>

lemma debug_collect_Inr:
  assumes "debug_collect vt b (d, cs, out) = Inr (d', cs', out')"
  shows "collect vt b (dbg_base d, cs, out) = Inr (dbg_base d', cs', out')"
    and "vec_elems (m_payload d') = rx_store b (abs_frame (dbg_base d)) (vec_elems (m_payload d))"
  using assms
  by (cases "m_packet_state (dbg_base d)";
      auto simp: debug_collect_def collect_def Let_def bind_res_iffs abs_frame_def rx_store_def
        reserve_payload_def split: if_splits dest: vec_reserve_Inr vec_push_back_Inr)+

lemma debug_collect_all_Inr:
  assumes "debug_collect_all vt bs (d, cs, out) = Inr (d', cs', out')" and "frame_inv (dbg_base d)"
  shows "collect_all vt bs (dbg_base d, cs, out) = Inr (dbg_base d', cs', out') \<and>
         vec_elems (m_payload d') =
           rx_stored bs (abs_frame (dbg_base d)) (vec_elems (m_payload d))"
  using assms
proof (induction bs arbitrary: d cs out)
  case Nil
  then show ?case by simp
next
  case (Cons b bs)
  from Cons.prems(1) obtain d1 cs1 out1
    where one: "debug_collect vt b (d, cs, out) = Inr (d1, cs1, out1)"
      and rest: "debug_collect_all vt bs (d1, cs1, out1) = Inr (d', cs', out')"
    by (auto simp: debug_collect_all_Cons bind_res_eq_Inr)
  note step = debug_collect_Inr [OF one]
  have "frame_inv (dbg_base d1) \<and> abs_frame (dbg_base d1) = rx_step b (abs_frame (dbg_base d))"
    using collect_refines [OF step(1) Cons.prems(2)] .
  then show ?case using Cons.IH [OF rest] step by (simp add: collect_all_Cons)
qed

lemma debug_collect_all_base:
  assumes "debug_collect_all vt bs (d, cs, out) = Inr (d', cs', out')"
  shows "collect_all vt bs (dbg_base d, cs, out) = Inr (dbg_base d', cs', out')"
  using assms
proof (induction bs arbitrary: d cs out)
  case Nil
  then show ?case by simp
next
  case (Cons b bs)
  then obtain d1 cs1 out1 where one: "debug_collect vt b (d, cs, out) = Inr (d1, cs1, out1)"
    and rest: "debug_collect_all vt bs (d1, cs1, out1) = Inr (d', cs', out')"
    by (auto simp: debug_collect_all_Cons bind_res_eq_Inr)
  show ?case using debug_collect_Inr(1) [OF one] Cons.IH [OF rest] by (simp add: collect_all_Cons)
qed

lemma debug_message_payload:
  assumes "m_packet_state (dbg_base d) = PAYLOAD_LENGTH_0" and "m_payload_first_part (dbg_base d)"
    and "payload_inv n d" and "n + length (encode_message s pl) \<le> payload_bound"
    and "collect_all vt (encode_message s pl) (dbg_base d, cs, out) = Inr (q, cs', out')"
  shows "\<exists>d'. debug_collect_all vt (encode_message s pl) (d, cs, out) = Inr (d', cs', out') \<and>
              dbg_base d' = q \<and> vec_elems (payload d') = pl \<and>
              sequence_id d' = s + word_of_nat (length pl div full_length)"
proof -
  have sim: "payload_sim (n + length (encode_message s pl))
      (debug_collect_all vt (encode_message s pl) (d, cs, out)) (Inr (q, cs', out'))"
    using debug_collect_all_sim [OF assms(3,4), of cs out] assms(5) by simp
  then obtain d' where d': "debug_collect_all vt (encode_message s pl) (d, cs, out) = Inr (d', cs', out')"
    "dbg_base d' = q"
    by (cases "debug_collect_all vt (encode_message s pl) (d, cs, out)") auto
  have inv: "frame_inv (dbg_base d)" and idle: "rx_phase (abs_frame (dbg_base d)) = Rx_len0"
    and first: "rx_first (abs_frame (dbg_base d))"
    using assms(1-3) by (simp_all add: payload_inv_def abs_frame_def)
  have "vec_elems (m_payload d') = pl"
    using debug_collect_all_Inr [OF d'(1) inv] rx_stored_message [OF idle] first by simp
  moreover have "rx_seq (abs_frame q) = s + word_of_nat (length pl div full_length)"
    using collect_all_refines [OF assms(5) inv] rx_message [OF idle] by simp
  ultimately show ?thesis using d' by (simp add: payload_def sequence_id_def abs_frame_def)
qed

end

section \<open>Property\<close>

text \<open>
  C31. The payload kept for the debug printers. Whenever the release build accepts a client
  message, of any length and cut into any number of packets, the debug build accepts it too,
  leaves the same packet behind and \<open>payload()\<close> is exactly the payload that was sent, however
  many messages came before; the sequence id is the one of the message's last packet.
\<close>

theorem debug_client_payload:
  assumes "m_packet_state (dbg_base d) = PAYLOAD_LENGTH_0" and "m_payload_first_part (dbg_base d)"
    and "payload_inv n d" and "n + length (encode_message s pl) \<le> payload_bound"
    and "collect_all client_vtable (encode_message s pl) (dbg_base d, cs, out) = Inr (q, cs', out')"
  shows "\<exists>d'. debug_collect_all client_vtable (encode_message s pl) (d, cs, out) = Inr (d', cs', out') \<and>
              dbg_base d' = q \<and> vec_elems (payload d') = pl \<and>
              sequence_id d' = s + word_of_nat (length pl div full_length)"
  using assms by (rule client.debug_message_payload)

theorem debug_client_payload_witness:
  "\<exists>d' cs' out'. debug_collect_all client_vtable (encode_message 7 [3, 65, 66])
       (new_DebugPacket new_FromClientPacket, CONNECTION_PHASE, []) = Inr (d', cs', out') \<and>
     vec_elems (payload d') = [3, 65, 66] \<and> sequence_id d' = 7"
proof -
  let ?d = "new_DebugPacket new_FromClientPacket"
  have bound: "0 + length (encode_message 7 [3, 65, 66]) \<le> payload_bound"
    by (simp add: encode_message_short payload_bound_def)
  have idle: "m_packet_state (dbg_base ?d) = PAYLOAD_LENGTH_0" "m_payload_first_part (dbg_base ?d)"
    and inv: "payload_inv 0 ?d"
    by (simp_all add: new_DebugPacket_def payload_inv_def vec_empty_def frame_inv_def)
  have "\<exists>x. collect_all client_vtable (encode_message 7 [3, 65, 66])
      (dbg_base ?d, CONNECTION_PHASE, []) = Inr x"
    by (simp add: encode_message_short encode_packet_def le24_def collect_all_Cons collect_defs
        client_defs new_DebugPacket_def Let_def shift_byte_def MAX_PAYLOAD_LENGTH_def)
  then obtain q cs' out' where "collect_all client_vtable (encode_message 7 [3, 65, 66])
      (dbg_base ?d, CONNECTION_PHASE, []) = Inr (q, cs', out')" by auto
  from debug_client_payload [OF idle inv bound this] show ?thesis by auto
qed

end
