(* ===== verification/Ostream.thy ===== *)
theory Ostream
  imports Prelude "HOL-Library.Char_ord"
begin

text \<open>
  The part of \<open>std::ostream\<close> the debug build uses of \<open>std::cout\<close>: the text written so far
  and the formatting state, the base (\<open>std::hex\<close>), the fill character and the field width.
  As in C++ the base and the fill character stay until they are changed, and the width is
  reset to 0 by every formatted output. Shown: the digits of a number can be read back in
  any base up to sixteen, and a dump of bytes as two digits each can be read back.
\<close>

section \<open>Numbers as text\<close>

definition digit_char :: "nat \<Rightarrow> char" where
  "digit_char d = (if d < 10 then char_of (48 + d) else char_of (87 + d))"

definition digit_value :: "char \<Rightarrow> nat" where
  "digit_value c = (if of_char c < (58 :: nat) then of_char c - 48 else of_char c - 87)"

lemma digit_value_char [simp]: "d < 16 \<Longrightarrow> digit_value (digit_char d) = d"
  by (simp add: digit_value_def digit_char_def)

function digits :: "nat \<Rightarrow> nat \<Rightarrow> string" where
  "digits base n =
     (if n < base \<or> base < 2 then [digit_char n]
      else digits base (n div base) @ [digit_char (n mod base)])"
  by pat_completeness auto
termination
  by (relation "measure snd") auto

declare digits.simps [simp del]

lemma digits_small: "n < base \<Longrightarrow> digits base n = [digit_char n]"
  by (simp add: digits.simps)

lemma digits_large:
  "base \<le> n \<Longrightarrow> 2 \<le> base \<Longrightarrow> digits base n = digits base (n div base) @ [digit_char (n mod base)]"
  by (subst digits.simps) simp

definition read_digits :: "nat \<Rightarrow> string \<Rightarrow> nat" where
  "read_digits base t = fold (\<lambda>c v. v * base + digit_value c) t 0"

lemma read_digits_snoc: "read_digits base (t @ [c]) = read_digits base t * base + digit_value c"
  by (simp add: read_digits_def)

lemma read_digits_digits:
  assumes "2 \<le> base" and "base \<le> 16"
  shows "read_digits base (digits base n) = n"
proof (induction n rule: less_induct)
  case (less n)
  show ?case
  proof (cases "n < base")
    case True
    then show ?thesis using assms by (simp add: digits_small read_digits_def)
  next
    case False
    have "n mod base < 16" using assms by (intro less_le_trans [OF mod_less_divisor]) auto
    moreover have "n div base < n" using False assms by (intro div_less_dividend) auto
    ultimately show ?thesis
      using False assms less.IH [of "n div base"] by (simp add: digits_large read_digits_snoc)
  qed
qed

section \<open>The stream\<close>

record ostream =
  os_text :: string
  os_hex :: bool
  os_fill :: char
  os_width :: nat

text \<open>\<open>std::cout\<close> when the program starts.\<close>

definition initial_cout :: ostream where
  "initial_cout = \<lparr>os_text = [], os_hex = False, os_fill = CHR '' '', os_width = 0\<rparr>"

text \<open>The manipulators \<open>std::hex\<close>, \<open>std::setfill\<close> and \<open>std::setw\<close>.\<close>

definition set_hex :: "ostream \<Rightarrow> ostream" where
  "set_hex os = os\<lparr>os_hex := True\<rparr>"

definition set_fill :: "char \<Rightarrow> ostream \<Rightarrow> ostream" where
  "set_fill c os = os\<lparr>os_fill := c\<rparr>"

definition set_width :: "nat \<Rightarrow> ostream \<Rightarrow> ostream" where
  "set_width w os = os\<lparr>os_width := w\<rparr>"

text \<open>
  Formatted output: the text is filled up on the left to the width. The output of a
  character, a string and an unsigned number differ only in the text.
\<close>

definition put_text :: "string \<Rightarrow> ostream \<Rightarrow> ostream" where
  "put_text t os =
     os\<lparr>os_text := os_text os @ replicate (os_width os - length t) (os_fill os) @ t,
        os_width := 0\<rparr>"

definition put_char :: "char \<Rightarrow> ostream \<Rightarrow> ostream" where
  "put_char c os = put_text [c] os"

definition put_unsigned :: "nat \<Rightarrow> ostream \<Rightarrow> ostream" where
  "put_unsigned n os = put_text (digits (if os_hex os then 16 else 10) n) os"

lemmas manip_defs = set_hex_def set_fill_def set_width_def

lemmas put_defs = manip_defs put_text_def put_char_def put_unsigned_def

text \<open>A stream as the debug printers leave it: hexadecimal, filled with zeros, no width.\<close>

definition debug_format :: "ostream \<Rightarrow> bool" where
  "debug_format os \<longleftrightarrow> os_hex os \<and> os_fill os = CHR ''0'' \<and> os_width os = 0"

lemma debug_format_put_text [simp]: "debug_format os \<Longrightarrow> debug_format (put_text t os)"
  by (simp add: debug_format_def put_text_def)

lemma put_text_plain [simp]: "os_width os = 0 \<Longrightarrow> put_text t os = os\<lparr>os_text := os_text os @ t\<rparr>"
  by (simp add: put_text_def)

section \<open>Dumps of bytes\<close>

text \<open>\<open>std::setw(2) << +byte << " "\<close>.\<close>

definition put_byte :: "u8 \<Rightarrow> ostream \<Rightarrow> ostream" where
  "put_byte b os = put_text '' '' (put_unsigned (unat b) (set_width 2 os))"

definition hex2 :: "u8 \<Rightarrow> string" where
  "hex2 b = [digit_char (unat b div 16), digit_char (unat b mod 16)]"

definition hex_dump :: "u8 list \<Rightarrow> string" where
  "hex_dump bs = concat (map (\<lambda>b. hex2 b @ '' '') bs)"

lemma hex_dump_simps [simp]:
  "hex_dump [] = []"
  "hex_dump (b # bs) = hex2 b @ '' '' @ hex_dump bs"
  by (simp_all add: hex_dump_def)

lemma hex2_digits:
  "replicate (2 - length (digits 16 (unat (b :: u8)))) CHR ''0'' @ digits 16 (unat b) = hex2 b"
proof (cases "unat b < 16")
  case True
  moreover have "digit_char 0 = CHR ''0''" by code_simp
  ultimately show ?thesis by (simp add: hex2_def digits_small)
next
  case False
  moreover have "unat b div 16 < 16" using unat_u8_less [of b] by (simp add: less_mult_imp_div_less)
  ultimately show ?thesis by (simp add: hex2_def digits_large digits_small)
qed

lemma put_byte_hex:
  assumes "debug_format os"
  shows "put_byte b os = os\<lparr>os_text := os_text os @ hex2 b @ '' ''\<rparr>"
  using assms hex2_digits [of b]
  by (simp add: put_byte_def put_unsigned_def set_width_def put_text_def debug_format_def)

lemma put_bytes_hex:
  assumes "debug_format os"
  shows "fold put_byte bs os = os\<lparr>os_text := os_text os @ hex_dump bs\<rparr>"
  using assms
proof (induction bs arbitrary: os)
  case Nil
  then show ?case by simp
next
  case (Cons b bs)
  moreover have "debug_format (os\<lparr>os_text := os_text os @ hex2 b @ '' ''\<rparr>)"
    using Cons.prems by (simp add: debug_format_def)
  ultimately show ?case by (simp add: put_byte_hex)
qed

text \<open>Reading a dump: triples of two digits and a space, up to the first other text.\<close>

definition hex_value :: "char \<Rightarrow> char \<Rightarrow> u8" where
  "hex_value c d = word_of_nat (digit_value c * 16 + digit_value d)"

fun read_dump :: "string \<Rightarrow> u8 list" where
  "read_dump (c # d # e # t) = (if e = CHR '' '' then hex_value c d # read_dump t else [])"
| "read_dump t = []"

lemma hex_value_hex2: "hex_value (digit_char (unat b div 16)) (digit_char (unat b mod 16)) = b"
proof -
  have "unat b div 16 < 16" using unat_u8_less [of b] by (simp add: less_mult_imp_div_less)
  then have "hex_value (digit_char (unat b div 16)) (digit_char (unat b mod 16)) =
      word_of_nat (unat b div 16 * 16 + unat b mod 16)"
    by (simp add: hex_value_def)
  then show ?thesis by (simp only: div_mult_mod_eq) simp
qed

lemma read_hex_dump [simp]: "read_dump (hex_dump bs @ t) = bs @ read_dump t"
  by (induction bs) (simp_all add: hex2_def hex_value_hex2)

section \<open>Property\<close>

text \<open>
  The printed bytes can be read back. On a stream in the debug format the loop of the
  debug printers (\<open>std::setw(2) << +byte << " "\<close>) appends a text from which the bytes can be
  recovered, two hexadecimal digits each, also with the closing text of the line behind it.
\<close>

theorem dump_reads_back:
  assumes "debug_format os" and "end_text = ''---+++'' \<or> end_text = ''===|||'' \<or> end_text = '' ]]]''"
  shows "\<exists>t. os_text (put_text end_text (fold put_byte bs os)) = os_text os @ t \<and>
             read_dump t = bs \<and> length t = 3 * length bs + length end_text"
proof -
  have "length (hex_dump bs) = 3 * length bs" by (induction bs) (simp_all add: hex2_def)
  moreover have "read_dump end_text = []" using assms(2) by auto
  ultimately show ?thesis using assms(1) by (simp add: put_bytes_hex debug_format_def)
qed

theorem dump_reads_back_witness:
  "\<exists>t. os_text (put_text ''---+++'' (fold put_byte [3, 255] (set_fill CHR ''0'' (set_hex initial_cout)))) = t \<and>
     read_dump t = [3, 255] \<and> length t = 12"
proof -
  have "debug_format (set_fill CHR ''0'' (set_hex initial_cout))"
    by (simp add: debug_format_def manip_defs initial_cout_def)
  from dump_reads_back [OF this, of "''---+++''" "[3, 255]"] show ?thesis
    by (simp add: manip_defs initial_cout_def)
qed

end
