(* ===== verification/Debug_Connection.thy ===== *)
theory Debug_Connection
  imports Connection_Manager Debug_Packet Ostream
begin

text \<open>
  The connections of the debug build (\<open>PROXY_PACKET_DEBUG\<close>, connection.hpp, connection.cpp and
  packet_logger.cpp): buffers of 60 bytes, packets that keep their payload, and the debug
  printers on \<open>std::cout\<close>, a stream with formatting state. Shown: over any chunks the debug
  build keeps the same packets, phase, sockets and log as the release build, with the same
  faults; what it prints, and that the printed bytes can be read back; and that the number
  of connections is printed in hexadecimal once a chunk was printed.
\<close>

section \<open>State\<close>

definition debug_BUFFER_LENGTH :: nat where
  "debug_BUFFER_LENGTH = 60"

text \<open>A connection with the member \<open>m_payload\<close> of each of its two packets.\<close>

record DebugConnection =
  dbg_conn :: Connection
  m_client_payload :: "u8 cxx_vector"
  m_server_payload :: "u8 cxx_vector"

definition new_DebugConnection :: "socket \<Rightarrow> endpoint \<Rightarrow> DebugConnection" where
  "new_DebugConnection t_client_socket t_server_endpoint =
     \<lparr>dbg_conn = (new_Connection t_client_socket t_server_endpoint)
        \<lparr>m_client_buffer := replicate debug_BUFFER_LENGTH 0,
         m_server_buffer := replicate debug_BUFFER_LENGTH 0\<rparr>,
      m_client_payload = vec_empty, m_server_payload = vec_empty\<rparr>"

definition client_debug_packet :: "DebugConnection \<Rightarrow> FromClientPacket DebugPacket" where
  "client_debug_packet c =
     \<lparr>dbg_base = m_client_packet (dbg_conn c), m_payload = m_client_payload c\<rparr>"

definition server_debug_packet :: "DebugConnection \<Rightarrow> FromServerPacket DebugPacket" where
  "server_debug_packet c =
     \<lparr>dbg_base = m_server_packet (dbg_conn c), m_payload = m_server_payload c\<rparr>"

type_synonym 'l debug_log_func = "(any_packet \<Rightarrow> bool \<Rightarrow> 'l \<times> ostream \<Rightarrow> 'l \<times> ostream) option"

type_synonym 'l debug_conn_ctx = "DebugConnection \<times> 'l \<times> ostream"

section \<open>The debug printers\<close>

definition begin_str :: "bool \<Rightarrow> string" where
  "begin_str from_client = (if from_client then ''--->>>'' else ''<<<==='')"

definition end_str :: "bool \<Rightarrow> string" where
  "end_str from_client = (if from_client then ''---+++'' else ''===|||'')"

text \<open>The whole buffer, also the part behind the received bytes, as numbers and as text.\<close>

definition print_buffer :: "bool \<Rightarrow> u8 list \<Rightarrow> ostream \<Rightarrow> ostream" where
  "print_buffer from_client buffer os =
     (let os1 = set_fill CHR ''0'' (set_hex os);
          os2 = put_text ''BUFFER: '' (put_text (begin_str from_client) os1);
          os3 = put_text [CHR 0x0A] (put_text (end_str from_client) (fold put_byte buffer os2));
          os4 = put_text ''BUFFER AS STRING: '' (put_text (begin_str from_client) os3)
      in put_text [CHR 0x0A] (put_text (end_str from_client)
           (put_text (map char_of_byte buffer) os4)))"

text \<open>The collected packet; the sequence id is an \<open>unsigned char\<close>, so it is put as a character.\<close>

definition print_packet :: "bool \<Rightarrow> 'a MySqlPacket_scheme DebugPacket \<Rightarrow> ostream \<Rightarrow> ostream" where
  "print_packet from_client d os =
     (let os1 = put_text ''PACKET: '' (put_text (begin_str from_client) os);
          os2 = put_unsigned (unat (payload_length d)) (set_width 2 (put_text '' [[[ length: '' os1));
          os3 = put_char (char_of_byte (sequence_id d))
                  (set_width 2 (put_text '', sequence_id: '' os2));
          os4 = fold put_byte (vec_elems (payload d)) (put_text '', payload: '' os3)
      in put_text ('' ]]]'' @ [CHR 0x0A]) os4)"

text \<open>\<open>PacketLogger::packet_logger\<close>, which also prints what it writes.\<close>

definition debug_packet_logger ::
  "any_packet \<Rightarrow> bool \<Rightarrow> PacketLogger \<times> ostream \<Rightarrow> PacketLogger \<times> ostream" where
  "debug_packet_logger t_packet t_from_client_to_server ctx =
     (case ctx of (l, os) \<Rightarrow>
        if t_from_client_to_server then
          (case as_client_packet t_packet of
             None \<Rightarrow> (l, os)
           | Some client_packet \<Rightarrow>
               (let command_string = get_command_string client_packet in
                if command_string \<noteq> [] then
                  (let os1 = put_text command_string os;
                       l1 = log_out command_string l;
                       (l2, os2) =
                         (if has_sql_string client_packet then
                            (let sql_str = get_sql_string client_packet in
                             (log_out sql_str (log_out '', SQL: '' l1),
                              put_text sql_str (put_text '', SQL: '' os1)))
                          else (l1, os1))
                   in (log_out [CHR 0x0A] l2, put_text [CHR 0x0A] os2))
                else (l, os)))
        else (l, os))"

section \<open>Operations\<close>

definition debug_collect_chunk ::
  "bool \<Rightarrow> u8 list \<Rightarrow> DebugConnection \<times> ostream \<Rightarrow> (DebugConnection \<times> ostream) result" where
  "debug_collect_chunk from_client bs ctx =
     (case ctx of (c, os) \<Rightarrow>
        if from_client then
          bind_res (debug_collect_all client_vtable bs
                      (client_debug_packet c, m_connection_state (dbg_conn c), os_text os))
            (\<lambda>(d, cs, out).
               Inr (c\<lparr>dbg_conn := (dbg_conn c)\<lparr>m_client_packet := dbg_base d, m_connection_state := cs\<rparr>,
                      m_client_payload := m_payload d\<rparr>, os\<lparr>os_text := out\<rparr>))
        else
          bind_res (debug_collect_all server_vtable bs
                      (server_debug_packet c, m_connection_state (dbg_conn c), os_text os))
            (\<lambda>(d, cs, out).
               Inr (c\<lparr>dbg_conn := (dbg_conn c)\<lparr>m_server_packet := dbg_base d, m_connection_state := cs\<rparr>,
                      m_server_payload := m_payload d\<rparr>, os\<lparr>os_text := out\<rparr>)))"

definition print_packet_of :: "bool \<Rightarrow> DebugConnection \<Rightarrow> ostream \<Rightarrow> ostream" where
  "print_packet_of from_client c os =
     (if from_client then print_packet from_client (client_debug_packet c) os
      else print_packet from_client (server_debug_packet c) os)"

definition debug_do_packet_logging ::
  "'l debug_log_func \<Rightarrow> bool \<Rightarrow> nat \<Rightarrow> 'l debug_conn_ctx \<Rightarrow> 'l debug_conn_ctx result" where
  "debug_do_packet_logging log_func from_client n ctx =
     (case ctx of (c, l, os) \<Rightarrow>
        let buffer = read_buffer from_client (dbg_conn c) in
        if length buffer < n then Inl Undefined_behaviour
        else
          bind_res (debug_collect_chunk from_client (take n buffer)
                      (c, print_buffer from_client buffer os))
            (\<lambda>(c', os1).
               if packet_received from_client (dbg_conn c') then
                 (let os2 = print_packet_of from_client c' os1 in
                  case log_func of
                    None \<Rightarrow> Inr (c', l, os2)
                  | Some f \<Rightarrow> Inr (c', f (packet_of from_client (dbg_conn c')) from_client (l, os2)))
               else Inr (c', l, os1)))"

definition debug_do_transfer ::
  "asio_calls \<Rightarrow> 'l debug_log_func \<Rightarrow> bool \<Rightarrow> nat \<Rightarrow> 'l debug_conn_ctx \<Rightarrow>
     ('l debug_conn_ctx \<times> async_op list) result" where
  "debug_do_transfer net log_func from_client n ctx =
     bind_res (debug_do_packet_logging log_func from_client n ctx) (\<lambda>(c, l, os).
     bind_res (socket_send net (take n (read_buffer from_client (dbg_conn c)))
                 (send_to_socket from_client (dbg_conn c)))
       (\<lambda>s. Inr ((c\<lparr>dbg_conn := set_send_to_socket from_client s (dbg_conn c)\<rparr>, l, os),
                 [Async_read_some from_client])))"

text \<open>Delivery of a chunk and its transfer, as \<open>conn_feed\<close> for the release build.\<close>

definition debug_conn_feed ::
  "'l debug_log_func \<Rightarrow> asio_calls \<times> bool \<times> u8 list \<Rightarrow> 'l debug_conn_ctx \<Rightarrow>
     'l debug_conn_ctx result" where
  "debug_conn_feed log_func ev ctx =
     (case (ev, ctx) of ((net, from_client, bs), (c, l, os)) \<Rightarrow>
        bind_res (debug_do_transfer net log_func from_client (length bs)
                    (c\<lparr>dbg_conn := deliver from_client bs (dbg_conn c)\<rparr>, l, os))
          (\<lambda>(ctx', ops). Inr ctx'))"

text \<open>\<open>ConnectionManager::start\<close> and \<open>stop\<close> print the number of connections on the same stream.\<close>

definition print_opened :: "nat \<Rightarrow> ostream \<Rightarrow> ostream" where
  "print_opened n os =
     put_text [CHR 0x0A] (put_unsigned n (put_text ''Opened connections: '' os))"

section \<open>The release build inside the debug build\<close>

text \<open>
  A connection of the debug build against one of the release build: they agree on everything
  but the buffers, whose lengths differ, and the payloads are within their bounds.
\<close>

definition same_conn :: "Connection \<Rightarrow> Connection \<Rightarrow> bool" where
  "same_conn c c' \<longleftrightarrow>
     m_client_socket c = m_client_socket c' \<and> m_server_endpoint c = m_server_endpoint c' \<and>
     m_server_socket c = m_server_socket c' \<and> m_connection_state c = m_connection_state c' \<and>
     m_client_packet c = m_client_packet c' \<and> m_server_packet c = m_server_packet c'"

definition debug_sim :: "nat \<Rightarrow> Connection \<Rightarrow> DebugConnection \<Rightarrow> bool" where
  "debug_sim n c dc \<longleftrightarrow>
     same_conn c (dbg_conn dc) \<and>
     payload_inv n (client_debug_packet dc) \<and> payload_inv n (server_debug_packet dc)"

lemma payload_inv_mono: "payload_inv n d \<Longrightarrow> n \<le> k \<Longrightarrow> payload_inv k d"
  by (auto simp: payload_inv_def Let_def)

lemma debug_sim_new: "debug_sim 0 (new_Connection s ep) (new_DebugConnection s ep)"
  by (simp add: debug_sim_def same_conn_def new_DebugConnection_def new_Connection_def
      client_debug_packet_def server_debug_packet_def payload_inv_def vec_empty_def frame_inv_def
      new_FromServerPacket_def new_MySqlPacket_def)

lemma debug_sim_deliver:
  "debug_sim n c dc \<Longrightarrow>
     debug_sim n (deliver b bs c) (dc\<lparr>dbg_conn := deliver b bs (dbg_conn dc)\<rparr>)"
  by (simp add: debug_sim_def same_conn_def deliver_def client_debug_packet_def
      server_debug_packet_def)

lemma debug_sim_send:
  "debug_sim n c dc \<Longrightarrow>
     debug_sim n (set_send_to_socket b s c) (dc\<lparr>dbg_conn := set_send_to_socket b s (dbg_conn dc)\<rparr>)"
  by (simp add: debug_sim_def same_conn_def set_send_to_socket_def client_debug_packet_def
      server_debug_packet_def)

lemma debug_packet_surjective [simp]: "\<lparr>dbg_base = dbg_base d, m_payload = m_payload d\<rparr> = d"
  by simp

lemma debug_collect_chunk_sim:
  assumes "debug_sim n c dc" and "n + length bs \<le> payload_bound"
  shows "case debug_collect_chunk b bs (dc, os) of
           Inl e \<Rightarrow> collect_chunk b bs (c, os_text os) = Inl e
         | Inr (dc', os') \<Rightarrow>
             \<exists>c'. collect_chunk b bs (c, os_text os) = Inr (c', os_text os') \<and>
                  debug_sim (n + length bs) c' dc'"
proof (cases b)
  case True
  have inv: "payload_inv n (client_debug_packet dc)" using assms(1) by (simp add: debug_sim_def)
  have other: "payload_inv (n + length bs) (server_debug_packet dc)"
    using assms(1) by (auto simp: debug_sim_def intro: payload_inv_mono)
  show ?thesis
    using client.debug_collect_all_sim [OF inv assms(2),
        of "m_connection_state (dbg_conn dc)" "os_text os"] assms(1) other True
    by (cases "debug_collect_all client_vtable bs
          (client_debug_packet dc, m_connection_state (dbg_conn dc), os_text os)")
      (auto simp: debug_collect_chunk_def collect_chunk_def debug_sim_def same_conn_def
        client_debug_packet_def server_debug_packet_def)
next
  case False
  have inv: "payload_inv n (server_debug_packet dc)" using assms(1) by (simp add: debug_sim_def)
  have other: "payload_inv (n + length bs) (client_debug_packet dc)"
    using assms(1) by (auto simp: debug_sim_def intro: payload_inv_mono)
  show ?thesis
    using server.debug_collect_all_sim [OF inv assms(2),
        of "m_connection_state (dbg_conn dc)" "os_text os"] assms(1) other False
    by (cases "debug_collect_all server_vtable bs
          (server_debug_packet dc, m_connection_state (dbg_conn dc), os_text os)")
      (auto simp: debug_collect_chunk_def collect_chunk_def debug_sim_def same_conn_def
        client_debug_packet_def server_debug_packet_def)
qed

text \<open>The handling of a delivered chunk.\<close>

lemma debug_collect_chunk_buffer:
  assumes "debug_collect_chunk b bs (dc, os) = Inr (dc', os')"
  shows "read_buffer d (dbg_conn dc') = read_buffer d (dbg_conn dc)"
    and "send_to_socket d (dbg_conn dc') = send_to_socket d (dbg_conn dc)"
  using assms
  by (cases b; auto simp: debug_collect_chunk_def bind_res_iffs read_buffer_def send_to_socket_def)+

definition debug_logged ::
  "'l debug_log_func \<Rightarrow> bool \<Rightarrow> DebugConnection \<Rightarrow> 'l \<times> ostream \<Rightarrow> 'l \<times> ostream" where
  "debug_logged log_func b c ctx =
     (case ctx of (l, os) \<Rightarrow>
        if packet_received b (dbg_conn c) then
          (case log_func of
             None \<Rightarrow> (l, print_packet_of b c os)
           | Some f \<Rightarrow> f (packet_of b (dbg_conn c)) b (l, print_packet_of b c os))
        else (l, os))"

lemma debug_conn_feed_eq:
  "debug_conn_feed log_func (net, b, bs) (dc, l, os) =
     bind_res (debug_collect_chunk b bs
                 (dc\<lparr>dbg_conn := deliver b bs (dbg_conn dc)\<rparr>,
                  print_buffer b (read_buffer b (deliver b bs (dbg_conn dc))) os)) (\<lambda>(c1, os1).
     bind_res (socket_send net bs (send_to_socket b (dbg_conn dc))) (\<lambda>s.
     Inr (c1\<lparr>dbg_conn := set_send_to_socket b s (dbg_conn c1)\<rparr>, debug_logged log_func b c1 (l, os1))))"
proof (cases "debug_collect_chunk b bs (dc\<lparr>dbg_conn := deliver b bs (dbg_conn dc)\<rparr>,
    print_buffer b (read_buffer b (deliver b bs (dbg_conn dc))) os)")
  case (Inl e)
  then show ?thesis
    by (simp add: debug_conn_feed_def debug_do_transfer_def debug_do_packet_logging_def Let_def)
next
  case (Inr x)
  obtain c1 os1 where x: "x = (c1, os1)" by (cases x)
  have same: "read_buffer b (dbg_conn c1) = read_buffer b (deliver b bs (dbg_conn dc))"
    "send_to_socket b (dbg_conn c1) = send_to_socket b (dbg_conn dc)"
    using debug_collect_chunk_buffer [OF Inr [unfolded x]] by (simp_all add: send_to_socket_def)
  show ?thesis
    using Inr x same
    by (cases "socket_send net bs (send_to_socket b (dbg_conn dc))")
      (simp_all add: debug_conn_feed_def debug_do_transfer_def debug_do_packet_logging_def Let_def
        debug_logged_def split: option.splits prod.splits)
qed

text \<open>A logger that prints as well, against the logger that does not.\<close>

locale printing_log =
  fixes log :: "any_packet \<Rightarrow> bool \<Rightarrow> 'l \<Rightarrow> 'l"
    and plog :: "any_packet \<Rightarrow> bool \<Rightarrow> 'l \<times> ostream \<Rightarrow> 'l \<times> ostream"
  assumes plog_log: "fst (plog p b (l, os)) = log p b l"
    and plog_format: "debug_format os \<Longrightarrow> debug_format (snd (plog p b (l, os)))"
begin

lemma debug_feed_sim:
  assumes "debug_sim n c dc" and "n + length bs \<le> payload_bound"
  shows "case debug_conn_feed (Some plog) (net, b, bs) (dc, l, os) of
           Inl e \<Rightarrow> conn_feed (Some log) (net, b, bs) (c, l, out) = Inl e
         | Inr (dc', l', os') \<Rightarrow>
             \<exists>c' out'. conn_feed (Some log) (net, b, bs) (c, l, out) = Inr (c', l', out') \<and>
                       debug_sim (n + length bs) c' dc'"
proof -
  let ?dc = "dc\<lparr>dbg_conn := deliver b bs (dbg_conn dc)\<rparr>"
  let ?os = "print_buffer b (read_buffer b (deliver b bs (dbg_conn dc))) os"
  note sim = debug_collect_chunk_sim [OF debug_sim_deliver [OF assms(1)] assms(2), of b b bs ?os]
  show ?thesis
  proof (cases "debug_collect_chunk b bs (?dc, ?os)")
    case (Inl e)
    then have "collect_chunk b bs (deliver b bs c, out) = Inl e"
      using sim by (auto intro: collect_chunk_any_out)
    then show ?thesis using Inl by (simp add: debug_conn_feed_eq conn_feed_eq)
  next
    case (Inr x)
    obtain c1 os1 where x: "x = (c1, os1)" by (cases x)
    obtain c' where c': "collect_chunk b bs (deliver b bs c, os_text ?os) = Inr (c', os_text os1)"
      and rel: "debug_sim (n + length bs) c' c1"
      using sim Inr x by auto
    obtain out1 where out1: "collect_chunk b bs (deliver b bs c, out) = Inr (c', out1)"
      using collect_chunk_any_out(2) [OF c'] by blast
    have sock: "send_to_socket b c' = send_to_socket b (dbg_conn dc)"
      using rel debug_collect_chunk_buffer(2) [OF Inr [unfolded x], of b]
      by (cases b) (simp_all add: debug_sim_def same_conn_def send_to_socket_def)
    have logged: "fst (debug_logged (Some plog) b c1 (l, os1)) =
        (if packet_received b c' then log (packet_of b c') b l else l)"
      using rel by (simp add: debug_logged_def plog_log debug_sim_def same_conn_def
          packet_received_def packet_of_def)
    show ?thesis
      using Inr x out1 sock logged debug_sim_send [OF rel, of b]
      by (cases "socket_send net bs (send_to_socket b (dbg_conn dc))")
        (auto simp: debug_conn_feed_eq conn_feed_eq split: prod.splits)
  qed
qed

text \<open>The packet logging alone, for a chunk whose transfer fails after it.\<close>

lemma debug_logging_sim:
  assumes "debug_sim n c dc" and "n + length bs \<le> payload_bound"
  shows "rel_sum (=) (\<lambda>(c', l', out') (dc', dl', os'). dl' = l')
           (do_packet_logging (Some log) b (length bs) (deliver b bs c, l, out))
           (debug_do_packet_logging (Some plog) b (length bs)
              (dc\<lparr>dbg_conn := deliver b bs (dbg_conn dc)\<rparr>, l, os))"
proof -
  let ?dc = "dc\<lparr>dbg_conn := deliver b bs (dbg_conn dc)\<rparr>"
  let ?os = "print_buffer b (read_buffer b (deliver b bs (dbg_conn dc))) os"
  note sim = debug_collect_chunk_sim [OF debug_sim_deliver [OF assms(1)] assms(2), of b b bs ?os]
  show ?thesis
  proof (cases "debug_collect_chunk b bs (?dc, ?os)")
    case (Inl e)
    then have "collect_chunk b bs (deliver b bs c, out) = Inl e"
      using sim by (auto intro: collect_chunk_any_out)
    then show ?thesis using Inl by (simp add: do_packet_logging_def debug_do_packet_logging_def Let_def)
  next
    case (Inr x)
    obtain c1 os1 where x: "x = (c1, os1)" by (cases x)
    obtain c' where c': "collect_chunk b bs (deliver b bs c, os_text ?os) = Inr (c', os_text os1)"
      and rel: "debug_sim (n + length bs) c' c1"
      using sim Inr x by auto
    obtain out1 where "collect_chunk b bs (deliver b bs c, out) = Inr (c', out1)"
      using collect_chunk_any_out(2) [OF c'] by blast
    moreover have "packet_received b (dbg_conn c1) = packet_received b c'"
      "packet_of b (dbg_conn c1) = packet_of b c'"
      using rel by (simp_all add: debug_sim_def same_conn_def packet_received_def packet_of_def)
    ultimately show ?thesis
      using Inr x plog_log [of "packet_of b c'" b l "print_packet_of b c1 os1"]
      by (auto simp: do_packet_logging_def debug_do_packet_logging_def Let_def split: prod.splits)
  qed
qed

lemma debug_run_sim:
  assumes "debug_sim n c dc" and "n + length (concat (map (\<lambda>ev. snd (snd ev)) evs)) \<le> payload_bound"
  shows "case fold_res (debug_conn_feed (Some plog)) evs (dc, l, os) of
           Inl e \<Rightarrow> fold_res (conn_feed (Some log)) evs (c, l, out) = Inl e
         | Inr (dc', l', os') \<Rightarrow>
             \<exists>c' out'. fold_res (conn_feed (Some log)) evs (c, l, out) = Inr (c', l', out') \<and>
                       same_conn c' (dbg_conn dc')"
  using assms
proof (induction evs arbitrary: n c dc l os out)
  case Nil
  then show ?case by (simp add: debug_sim_def)
next
  case (Cons ev evs)
  obtain net b bs where ev: "ev = (net, b, bs)" by (cases ev)
  have n: "n + length bs \<le> payload_bound"
    and rest: "n + length bs + length (concat (map (\<lambda>ev. snd (snd ev)) evs)) \<le> payload_bound"
    using Cons.prems(2) by (simp_all add: ev)
  note one = debug_feed_sim [OF Cons.prems(1) n, where net = net and b = b and l = l and os = os and out = out]
  show ?case
  proof (cases "debug_conn_feed (Some plog) (net, b, bs) (dc, l, os)")
    case (Inl e)
    then show ?thesis using one by (simp add: ev)
  next
    case (Inr x)
    obtain dc1 l1 os1 where x: "x = (dc1, l1, os1)" by (cases x)
    obtain c1 out1 where c1: "conn_feed (Some log) (net, b, bs) (c, l, out) = Inr (c1, l1, out1)"
      "debug_sim (n + length bs) c1 dc1"
      using one Inr x by auto
    show ?thesis using Cons.IH [OF c1(2) rest, where l = l1 and os = os1 and out = out1] Inr x c1(1)
      by (auto simp: ev split: sum.splits prod.splits)
  qed
qed

end

interpretation printing: printing_log packet_logger debug_packet_logger
  by unfold_locales
    (auto simp: debug_packet_logger_def packet_logger_def Let_def split: option.splits)

section \<open>What is printed\<close>

definition buffer_text :: "bool \<Rightarrow> u8 list \<Rightarrow> string" where
  "buffer_text b buffer =
     begin_str b @ ''BUFFER: '' @ hex_dump buffer @ end_str b @ [CHR 0x0A] @
     begin_str b @ ''BUFFER AS STRING: '' @ map char_of_byte buffer @ end_str b @ [CHR 0x0A]"

text \<open>A number in two places at least, as \<open>std::setw(2)\<close> and the fill character \<open>0\<close> give it.\<close>

definition two_places :: "string \<Rightarrow> string" where
  "two_places t = replicate (2 - length t) CHR ''0'' @ t"

definition packet_text :: "bool \<Rightarrow> 'a MySqlPacket_scheme DebugPacket \<Rightarrow> string" where
  "packet_text b d =
     begin_str b @ ''PACKET: '' @ '' [[[ length: '' @
     two_places (digits 16 (unat (payload_length d))) @
     '', sequence_id: '' @ two_places [char_of_byte (sequence_id d)] @
     '', payload: '' @ hex_dump (vec_elems (payload d)) @ '' ]]]'' @ [CHR 0x0A]"

lemma debug_format_width: "debug_format os \<Longrightarrow> os_width os = 0"
  by (simp add: debug_format_def)

lemma debug_format_more [simp]: "debug_format (os\<lparr>os_text := t\<rparr>) = debug_format os"
  by (simp add: debug_format_def)

lemma print_buffer_text:
  assumes "os_width os = 0"
  shows "print_buffer b buffer os =
           os\<lparr>os_text := os_text os @ buffer_text b buffer, os_hex := True, os_fill := CHR ''0''\<rparr>"
  using assms
  by (simp add: print_buffer_def Let_def manip_defs put_bytes_hex debug_format_def buffer_text_def)

lemma print_packet_text:
  assumes "debug_format os"
  shows "print_packet b d os = os\<lparr>os_text := os_text os @ packet_text b d\<rparr>"
  using assms
  by (simp add: put_bytes_hex print_packet_def Let_def put_unsigned_def put_char_def set_width_def put_text_def
      packet_text_def two_places_def debug_format_def)

lemma debug_packet_logger_text:
  assumes "debug_format os"
  shows "snd (debug_packet_logger (Client_packet p) True (l, os)) =
           os\<lparr>os_text := os_text os @ log_line (get_command_string p) (get_sql_string p)\<rparr>"
  using assms
  by (simp add: debug_packet_logger_def Let_def log_line_def has_sql_string_def get_sql_string_def
      debug_format_def)

lemma debug_collect_chunk_client:
  assumes "debug_collect_chunk True bs (dc, os) = Inr (dc', os')"
  shows "os' = os"
proof -
  obtain d cs out where d: "debug_collect_all client_vtable bs
      (client_debug_packet dc, m_connection_state (dbg_conn dc), os_text os) = Inr (d, cs, out)"
    and os': "os' = os\<lparr>os_text := out\<rparr>"
    using assms by (auto simp: debug_collect_chunk_def bind_res_eq_Inr)
  have "out = os_text os"
    using client_collect_context [OF client.debug_collect_all_base [OF d]] by simp
  then show ?thesis by (simp add: os')
qed

lemma debug_collect_chunk_format:
  "debug_collect_chunk b bs (dc, os) = Inr (dc', os') \<Longrightarrow> debug_format os' = debug_format os"
  by (cases b) (auto simp: debug_collect_chunk_def bind_res_eq_Inr)

lemma decimal_digits: "decimal n = digits 10 n"
proof (induction n rule: decimal.induct)
  case (1 n)
  then show ?case
    by (cases "n < 10") (simp_all add: decimal.simps [of n] digits_small digits_large digit_char_def)
qed

text \<open>After any chunk the stream stays in the debug format.\<close>

lemma debug_feed_format:
  assumes "debug_conn_feed (Some debug_packet_logger) (net, b, bs) (dc, l, os) = Inr (dc', l', os')"
    and "os_width os = 0"
  shows "debug_format os'"
proof -
  let ?buffer = "read_buffer b (deliver b bs (dbg_conn dc))"
  have start: "debug_format (print_buffer b ?buffer os)"
    using assms(2) by (simp add: print_buffer_text debug_format_def)
  from assms(1) obtain c1 os1 where "debug_collect_chunk b bs
      (dc\<lparr>dbg_conn := deliver b bs (dbg_conn dc)\<rparr>, print_buffer b ?buffer os) = Inr (c1, os1)"
    and logged: "debug_logged (Some debug_packet_logger) b c1 (l, os1) = (l', os')"
    by (auto simp: debug_conn_feed_eq bind_res_eq_Inr)
  with start have os1: "debug_format os1" using debug_collect_chunk_format by blast
  then have "debug_format (print_packet_of b c1 os1)"
    by (simp add: print_packet_of_def print_packet_text)
  then show ?thesis
    using printing.plog_format [of "print_packet_of b c1 os1" "packet_of b (dbg_conn c1)" b l]
      logged os1
    by (auto simp: debug_logged_def split: if_splits)
qed

section \<open>Properties\<close>

text \<open>
  C14. Turning the debug printers on changes nothing but the output. From a new connection and
  over any chunks of the two sides, up to 2^60 bytes, the debug build fails where the release
  build fails and with the same exception, and otherwise ends with the same log, the same
  bytes sent to both sides, the same phase and the same packets.
\<close>

theorem debug_run_equivalent:
  assumes "length (concat (map (\<lambda>ev. snd (snd ev)) evs)) \<le> payload_bound"
  shows "case fold_res (debug_conn_feed (Some debug_packet_logger)) evs
                (new_DebugConnection sock ep, l, os) of
           Inl e \<Rightarrow>
             fold_res (conn_feed (Some packet_logger)) evs (new_Connection sock ep, l, out) = Inl e
         | Inr (dc', l', os') \<Rightarrow>
             \<exists>c' out'. fold_res (conn_feed (Some packet_logger)) evs
                          (new_Connection sock ep, l, out) = Inr (c', l', out') \<and>
                        same_conn c' (dbg_conn dc')"
  by (rule printing.debug_run_sim [OF debug_sim_new]) (use assms in simp)

theorem debug_run_equivalent_witness:
  "case fold_res (debug_conn_feed (Some debug_packet_logger))
          [(reliable_net, True, [1, 0]), (reliable_net, False, [7]), (reliable_net, True, [0, 1, 133])]
          (new_DebugConnection client_socket server_endpoint, new_PacketLogger True, initial_cout) of
     Inl e \<Rightarrow> False
   | Inr (dc', l', os') \<Rightarrow> l' = new_PacketLogger True"
proof -
  let ?evs = "[(reliable_net, True, [1, 0]), (reliable_net, False, [7]), (reliable_net, True, [0, 1, 133])]"
  have bound: "length (concat (map (\<lambda>ev. snd (snd ev)) ?evs)) \<le> payload_bound"
    by (simp add: payload_bound_def)
  have "\<exists>c' out'. fold_res (conn_feed (Some packet_logger)) ?evs
      (new_Connection client_socket server_endpoint, new_PacketLogger True, []) =
      Inr (c', new_PacketLogger True, out')"
    by (simp add: conn_feed_eq collect_chunk_def collect_all_Cons collect_defs client_defs server_defs
        new_Connection_def new_FromServerPacket_def new_MySqlPacket_def socket_send_def Let_def
        packet_received_def packet_of_def is_received_def set_send_to_socket_def send_to_socket_def
        deliver_def shift_byte_def MAX_PAYLOAD_LENGTH_def packet_logger_def get_command_string_def)
  then show ?thesis
    using debug_run_equivalent [OF bound, where sock = client_socket and ep = server_endpoint and
        l = "new_PacketLogger True" and os = initial_cout and out = "[]"]
    by (auto split: sum.splits)
qed

text \<open>
  C32. What the debug build prints for a chunk of the client, in full: the whole buffer twice
  (as numbers and as text), stale bytes of earlier chunks behind the received ones included;
  and, when the chunk ends a packet, that packet and the line of the log.
\<close>

theorem debug_chunk_printed:
  assumes "debug_conn_feed (Some debug_packet_logger) (net, True, bs) (dc, l, os) = Inr (dc', l', os')"
    and "os_width os = 0"
  shows "os_text os' = os_text os @
           buffer_text True (bs @ drop (length bs) (m_client_buffer (dbg_conn dc))) @
           (if is_received (m_client_packet (dbg_conn dc'))
            then packet_text True (client_debug_packet dc') @
                 log_line (get_command_string (m_client_packet (dbg_conn dc')))
                   (get_sql_string (m_client_packet (dbg_conn dc')))
            else [])"
proof -
  let ?buffer = "bs @ drop (length bs) (m_client_buffer (dbg_conn dc))"
  let ?os = "print_buffer True ?buffer os"
  have buffer: "read_buffer True (deliver True bs (dbg_conn dc)) = ?buffer"
    by (simp add: read_buffer_def deliver_def)
  from assms(1) obtain c1 s os1 where c1: "debug_collect_chunk True bs
      (dc\<lparr>dbg_conn := deliver True bs (dbg_conn dc)\<rparr>, ?os) = Inr (c1, os1)"
    and dc': "dc' = c1\<lparr>dbg_conn := set_send_to_socket True s (dbg_conn c1)\<rparr>"
    and logged: "debug_logged (Some debug_packet_logger) True c1 (l, os1) = (l', os')"
    by (auto simp: debug_conn_feed_eq bind_res_eq_Inr buffer)
  have os1: "os1 = ?os" using c1 by (rule debug_collect_chunk_client)
  have format: "debug_format ?os" using assms(2) by (simp add: print_buffer_text debug_format_def)
  have same: "m_client_packet (dbg_conn dc') = m_client_packet (dbg_conn c1)"
    "client_debug_packet dc' = client_debug_packet c1"
    by (simp_all add: dc' set_send_to_socket_def client_debug_packet_def)
  have os': "os' = snd (debug_logged (Some debug_packet_logger) True c1 (l, ?os))"
    using logged by (simp add: os1)
  let ?os2 = "?os\<lparr>os_text := os_text ?os @ packet_text True (client_debug_packet c1)\<rparr>"
  have packet: "print_packet_of True c1 ?os = ?os2"
    using print_packet_text [OF format] by (simp add: print_packet_of_def)
  have "debug_format ?os2" using format by simp
  note line = debug_packet_logger_text [OF this, of "m_client_packet (dbg_conn c1)" l]
  have printed: "os_text ?os = os_text os @ buffer_text True ?buffer"
    using assms(2) by (simp add: print_buffer_text)
  show ?thesis
    unfolding os' same using line printed
    by (simp add: debug_logged_def packet_received_def packet_of_def packet)
qed

text \<open>For the witnesses: an empty client packet, in one chunk, as the first thing received.\<close>

lemma sample_debug_feed:
  "\<exists>dc' l' os'. debug_conn_feed (Some debug_packet_logger) (reliable_net, True, [0, 0, 0, 9])
     (new_DebugConnection client_socket server_endpoint, new_PacketLogger True, initial_cout) =
     Inr (dc', l', os') \<and> is_received (m_client_packet (dbg_conn dc'))"
  by (simp add: debug_conn_feed_eq debug_collect_chunk_def debug_collect_all_Cons debug_collect_def
      new_DebugConnection_def new_Connection_def client_debug_packet_def reserve_payload_def
      vec_defs vec_empty_def socket_send_def Let_def is_received_def set_send_to_socket_def
      send_to_socket_def deliver_def shift_byte_def MAX_PAYLOAD_LENGTH_def vec_max_size_def)

theorem debug_chunk_printed_witness:
  "\<exists>dc' l' os' t. debug_conn_feed (Some debug_packet_logger) (reliable_net, True, [0, 0, 0, 9])
     (new_DebugConnection client_socket server_endpoint, new_PacketLogger True, initial_cout) =
     Inr (dc', l', os') \<and>
     os_text os' = buffer_text True ([0, 0, 0, 9] @ replicate 56 0) @
                   packet_text True (client_debug_packet dc') @ t"
proof -
  obtain dc' l' os' where feed: "debug_conn_feed (Some debug_packet_logger)
      (reliable_net, True, [0, 0, 0, 9])
      (new_DebugConnection client_socket server_endpoint, new_PacketLogger True, initial_cout) =
      Inr (dc', l', os')" and received: "is_received (m_client_packet (dbg_conn dc'))"
    using sample_debug_feed by blast
  have "os_width initial_cout = 0" by (simp add: initial_cout_def)
  from debug_chunk_printed [OF feed this] received
  have "os_text os' = buffer_text True ([0, 0, 0, 9] @ replicate 56 0) @
      packet_text True (client_debug_packet dc') @
      log_line (get_command_string (m_client_packet (dbg_conn dc')))
        (get_sql_string (m_client_packet (dbg_conn dc')))"
    by (simp add: new_DebugConnection_def new_Connection_def debug_BUFFER_LENGTH_def initial_cout_def)
  then show ?thesis using feed by blast
qed

text \<open>
  The number of connections in the debug build. Before anything is printed for debugging,
  the manager's line on \<open>std::cout\<close> is the one of the release build; but \<open>std::hex\<close> stays set,
  so after the first chunk of any connection the number is printed in hexadecimal.
\<close>

theorem debug_count_is_hex:
  assumes "debug_conn_feed (Some debug_packet_logger) (net, b, bs) (dc, l, os) = Inr (dc', l', os')"
    and "os_width os = 0"
  shows "os_text (print_opened n initial_cout) = opened_line n \<and>
         os_text (print_opened n os') =
           os_text os' @ ''Opened connections: '' @ digits 16 n @ [CHR 0x0A]"
  using debug_feed_format [OF assms]
  by (simp add: print_opened_def put_unsigned_def initial_cout_def opened_line_def
      decimal_digits debug_format_def)

theorem debug_count_is_hex_witness:
  "\<exists>dc' l' os'. debug_conn_feed (Some debug_packet_logger) (reliable_net, True, [0, 0, 0, 9])
     (new_DebugConnection client_socket server_endpoint, new_PacketLogger True, initial_cout) =
     Inr (dc', l', os') \<and>
     os_text (print_opened 18 os') = os_text os' @ ''Opened connections: 12'' @ [CHR 0x0A]"
proof -
  obtain dc' l' os' where feed: "debug_conn_feed (Some debug_packet_logger)
      (reliable_net, True, [0, 0, 0, 9])
      (new_DebugConnection client_socket server_endpoint, new_PacketLogger True, initial_cout) =
      Inr (dc', l', os')"
    using sample_debug_feed by blast
  have width: "os_width initial_cout = 0" by (simp add: initial_cout_def)
  have "digits 16 18 = ''12''" by code_simp
  then show ?thesis using debug_count_is_hex [OF feed width, of 18] feed by auto
qed

end
