(* ===== verification/Server_Log.thy ===== *)
theory Server_Log
  imports Server_Properties
begin

text \<open>
  The log of the whole server. Every connection writes to the same file; shown is that what a
  connection contributes is what it would write alone, so that the result on a single session
  holds for each connection of a running server, with any other connections around it.
\<close>

section \<open>A chunk alone and in the server\<close>

text \<open>What a chunk adds to the log depends only on the connection.\<close>

definition chunk_text :: "bool \<Rightarrow> Connection \<Rightarrow> string" where
  "chunk_text b c' =
     (if b \<and> is_received (m_client_packet c') then packet_line (m_client_packet c') else [])"

lemma conn_feed_text:
  assumes "conn_feed (Some packet_logger) (net, b, bs) (c, l, out) = Inr (c', l', out')"
    and "log_good l"
  shows "log_good l' \<and> log_text l' = log_text l @ chunk_text b c'"
proof -
  from assms(1) obtain c1 s where c': "c' = set_send_to_socket b s c1"
    and l': "l' = (if packet_received b c1 then packet_logger (packet_of b c1) b l else l)"
    by (rule conn_feed_Inr) simp
  show ?thesis
    using assms(2) by (cases b) (simp_all add: c' l' packet_received_def packet_of_def
        set_send_to_socket_def chunk_text_def packet_line_def log_text_packet_logger
        packet_logger_server)
qed

lemma conn_feed_alone:
  assumes "conn_feed (Some f) (net, b, bs) (c, l, out) = Inr (c', l', out')"
  shows "\<exists>l2' out2'. conn_feed (Some f) (net, b, bs) (c, l2, out2) = Inr (c', l2', out2')"
proof -
  from assms obtain c1 s where run: "collect_chunk b bs (deliver b bs c, out) = Inr (c1, out')"
    and frame: "set_collected b (deliver b bs c) c1"
    and send: "socket_send net bs (send_to_socket b c) = Inr s" and c': "c' = set_send_to_socket b s c1"
    by (rule conn_feed_Inr) blast
  obtain out2' where "collect_chunk b bs (deliver b bs c, out2) = Inr (c1, out2')"
    using collect_chunk_any_out(2) [OF run] by blast
  moreover have "send_to_socket b c1 = send_to_socket b c"
    using frame by (simp add: set_collected_def send_to_socket_def)
  ultimately show ?thesis using send c' by (simp add: conn_feed_eq)
qed

text \<open>A run of one connection alone adds the texts of its chunks.\<close>

lemma conn_run_good:
  assumes "fold_res (conn_feed (Some packet_logger)) evs (c, l, out) = Inr (c', l', out')" and "log_good l"
  shows "log_good l'"
  using assms
proof (induction evs arbitrary: c l out)
  case (Cons ev evs)
  obtain net b bs where ev: "ev = (net, b, bs)" by (cases ev)
  from Cons.prems(1) obtain c1 l1 out1
    where one: "conn_feed (Some packet_logger) (net, b, bs) (c, l, out) = Inr (c1, l1, out1)"
      and rest: "fold_res (conn_feed (Some packet_logger)) evs (c1, l1, out1) = Inr (c', l', out')"
    by (auto simp: ev bind_res_eq_Inr)
  then show ?case using Cons.IH [OF rest] conn_feed_text [OF one Cons.prems(2)] by simp
qed simp

section \<open>The log under one event\<close>

lemma connection_stopped_log:
  assumes "connection_stopped net q s = Inr s'"
  shows "m_packet_logger s' = logger_flush (m_packet_logger s)"
  using assms by (auto simp: connection_stopped_def bind_res_iffs cancel_ops_def)

text \<open>
  What an event does to the log: it stays writable and a text is appended, nothing by an
  event without a chunk, the text of the chunk by one with a chunk.
\<close>

definition event_logged :: "server_event \<Rightarrow> Server \<Rightarrow> Server \<Rightarrow> string \<Rightarrow> bool" where
  "event_logged ev s s' t \<longleftrightarrow>
     log_good (m_packet_logger s') \<and>
     log_text (m_packet_logger s') = log_text (m_packet_logger s) @ t \<and>
     ((\<forall>q. chunk_of q ev = []) \<longrightarrow> t = []) \<and>
     (\<forall>q net b bs. chunk_of q ev = [(net, b, bs)] \<longrightarrow>
        (\<exists>c c' l l' out out'. heap s q = Some c \<and> heap s' q = Some c' \<and> t = chunk_text b c' \<and>
           conn_feed (Some packet_logger) (net, b, bs) (c, l, out) = Inr (c', l', out')))"

lemma event_logged_silent:
  assumes "m_packet_logger s' = m_packet_logger s \<or> m_packet_logger s' = logger_flush (m_packet_logger s)"
    and "log_good (m_packet_logger s)" and "\<forall>q. chunk_of q ev = []"
  shows "event_logged ev s s' []"
  using assms by (auto simp: event_logged_def)

lemma event_logged_chunk:
  assumes "receive_done q b net No_error bs s = Inr s' \<or> read_some_done q b net No_error bs s = Inr s'"
    and "log_good (m_packet_logger s)"
    and "ev = Receive_done q b net No_error bs \<or> ev = Read_some_done q b net No_error bs"
  shows "\<exists>t. event_logged ev s s' t"
proof -
  obtain c c' l' out' where c: "heap s q = Some c"
    and feed: "conn_feed (Some packet_logger) (net, b, bs) (c, m_packet_logger s, cout s) = Inr (c', l', out')"
    and s': "m_packet_logger s' = l'" "heap s' q = Some c'"
    using assms(1) by (rule chunk_done)
  have "\<exists>l l' out out'. conn_feed (Some packet_logger) (net, b, bs) (c, l, out) = Inr (c', l', out')"
    using feed by blast
  then show ?thesis
    using conn_feed_text [OF feed assms(2)] c s' assms(3)
    by (intro exI [of _ "chunk_text b c'"]) (elim disjE; force simp: event_logged_def split: if_splits)
qed

lemma handle_log:
  assumes "handle ev s = Inr s'" and "log_good (m_packet_logger s)"
  shows "\<exists>t. event_logged ev s s' t"
proof (cases "\<forall>q. chunk_of q ev = []")
  case True
  have "m_packet_logger s' = m_packet_logger s \<or> m_packet_logger s' = logger_flush (m_packet_logger s)"
    using assms(1) True
    by (cases ev) (auto simp: on_accept_def on_signal_def connect_done_def on_connect_def do_receive_def
        receive_done_def read_some_done_def on_read_some_def bind_res_iffs do_accept_def start_ops_def
        cancel_ops_def Let_def split: if_splits dest!: connection_stopped_log)
  then show ?thesis using event_logged_silent [OF _ assms(2) True] by blast
next
  case False
  then obtain q b net bs where "ev = Receive_done q b net No_error bs \<or> ev = Read_some_done q b net No_error bs"
    by (cases ev) (auto split: if_splits)
  moreover from this have "receive_done q b net No_error bs s = Inr s' \<or>
      read_some_done q b net No_error bs s = Inr s'"
    using assms(1) by auto
  ultimately show ?thesis using event_logged_chunk [OF _ assms(2)] by blast
qed

lemma step_log:
  assumes "server_step (ev, w) s = Inr s'" and "log_good (m_packet_logger s)"
  obtains t where "log_good (m_packet_logger s')"
    and "log_text (m_packet_logger s') = log_text (m_packet_logger s) @ t"
    and "(\<forall>q. chunk_of q ev = []) \<Longrightarrow> t = []"
    and "\<And>q net b bs. chunk_of q ev = [(net, b, bs)] \<Longrightarrow>
           \<exists>c c' l l' out out'. heap s q = Some c \<and> heap s' q = Some c' \<and> t = chunk_text b c' \<and>
             conn_feed (Some packet_logger) (net, b, bs) (c, l, out) = Inr (c', l', out')"
proof -
  define s1 where "s1 = (if w then s\<lparr>cancelled := cancelled s - {#completed_op ev#}\<rparr>
    else s\<lparr>outstanding := outstanding s - {#completed_op ev#}\<rparr>)"
  have same: "m_packet_logger s1 = m_packet_logger s" "heap s1 = heap s" by (simp_all add: s1_def)
  have "handle ev s1 = Inr s'" using assms(1) by (simp add: server_step_def s1_def split: if_splits)
  from handle_log [OF this] assms(2) show thesis
    using that unfolding event_logged_def same by blast
qed

section \<open>The log under a run\<close>

text \<open>
  \<open>ts\<close> holds, event by event, what was appended to the log; \<open>lines_of\<close> picks the texts of the
  events of one connection.
\<close>

definition lines_of :: "ConnectionPtr \<Rightarrow> (server_event \<times> bool) list \<Rightarrow> string list \<Rightarrow> string" where
  "lines_of q xs ts = concat (map snd (filter (\<lambda>(x, t). concerns q (fst x)) (zip xs ts)))"

lemma lines_of_Nil [simp]: "lines_of q [] ts = []"
  by (simp add: lines_of_def)

lemma lines_of_snoc [simp]:
  "length ts = length xs \<Longrightarrow>
     lines_of q (xs @ [x]) (ts @ [t]) = lines_of q xs ts @ (if concerns q (fst x) then t else [])"
  by (simp add: lines_of_def)

lemma alive_not_signalled:
  assumes "server_inv s" and "asio_ok (ev, w) s" and "server_step (ev, w) s = Inr s'"
    and "heap s' q = Some c'"
  shows "\<forall>net cl. ev \<noteq> Signal_done net cl"
proof (intro allI notI)
  fix net cl assume ev: "ev = Signal_done net cl"
  have w: "\<not> w" using assms(2) by (auto simp: ev asio_ok_def)
  obtain M where M: "outstanding s = add_mset Signal_op M" "m_acceptor_open s"
    "server_step (ev, False) s = handle ev (s\<lparr>outstanding := M\<rparr>)"
    using step_outstanding [OF assms(1), of ev] assms(2) w by (auto simp: ev)
  then have "server_inv s' \<and> \<not> m_acceptor_open s'"
    using on_signal_inv [OF assms(1) M(1,2), of net cl] assms(3) w by (simp add: ev)
  then show False using assms(4) by (simp add: server_inv_def)
qed

text \<open>One event of the server, seen by a connection that is alive before and after it.\<close>

lemma step_alone:
  assumes step: "server_step (ev, w) s = Inr s'" and c: "heap s q = Some c" "heap s' q = Some c'"
    and acc: "\<not> accepts q ev" and nosig: "\<forall>net cl. ev \<noteq> Signal_done net cl"
    and "log_good (m_packet_logger s)" and "log_good l"
  shows "\<exists>t l' out'. log_good (m_packet_logger s') \<and>
           log_text (m_packet_logger s') = log_text (m_packet_logger s) @ t \<and>
           fold_res (conn_feed (Some packet_logger)) (chunk_of q ev) (c, l, out) = Inr (c', l', out') \<and>
           log_text l' = log_text l @ (if concerns q ev then t else [])"
proof -
  obtain t where t: "log_good (m_packet_logger s')"
    "log_text (m_packet_logger s') = log_text (m_packet_logger s) @ t"
    "(\<forall>q. chunk_of q ev = []) \<Longrightarrow> t = []"
    "\<And>q net b bs. chunk_of q ev = [(net, b, bs)] \<Longrightarrow>
       \<exists>c c' l l' out out'. heap s q = Some c \<and> heap s' q = Some c' \<and> t = chunk_text b c' \<and>
         conn_feed (Some packet_logger) (net, b, bs) (c, l, out) = Inr (c', l', out')"
    using step_log [OF step assms(6)] by metis
  show ?thesis
  proof (cases "chunk_of q ev")
    case Nil
    have "c' = c" using step c acc nosig Nil by (rule step_silent)
    moreover have "concerns q ev \<Longrightarrow> t = []"
      using Nil acc nosig by (intro t(3)) (cases ev; auto split: if_splits)
    ultimately show ?thesis using t(1,2) Nil by (intro exI [of _ t]) simp
  next
    case (Cons chunk rest)
    then obtain net b bs where chunk: "chunk_of q ev = [(net, b, bs)]" "concerns q ev"
      by (cases ev) (auto split: if_splits)
    obtain l2 l3 out2 out3 where feed: "t = chunk_text b c'"
      "conn_feed (Some packet_logger) (net, b, bs) (c, l2, out2) = Inr (c', l3, out3)"
      using t(4) [OF chunk(1)] c by auto
    obtain l' out' where alone: "conn_feed (Some packet_logger) (net, b, bs) (c, l, out) = Inr (c', l', out')"
      using conn_feed_alone [OF feed(2)] by blast
    then have "log_text l' = log_text l @ chunk_text b c'"
      using conn_feed_text [OF alone assms(7)] by blast
    then show ?thesis using t(1,2) alone chunk feed(1) by (intro exI [of _ t]) simp
  qed
qed

lemma runs_log:
  assumes "runs s xs s'" and "server_inv s"
    and "log_good (m_packet_logger s)" and "heap s q = Some c" and "heap s' q = Some c'"
    and "\<forall>x \<in> set xs. \<not> accepts q (fst x)" and "log_good l0"
  shows "\<exists>ts l out'. length ts = length xs \<and> log_good (m_packet_logger s') \<and>
           log_text (m_packet_logger s') = log_text (m_packet_logger s) @ concat ts \<and>
           fold_res (conn_feed (Some packet_logger)) (chunks_of q xs) (c, l0, []) = Inr (c', l, out') \<and>
           log_text l = log_text l0 @ lines_of q xs ts"
  using assms
proof (induction arbitrary: c' rule: runs.induct)
  case (runs_Nil s)
  then show ?case by (intro exI [of _ "[]"]) simp
next
  case (runs_step s xs s1 x s2)
  obtain ev w where x: "x = (ev, w)" by (cases x)
  have acc: "\<not> accepts q ev" using runs_step.prems(5) by (simp add: x)
  have inv: "server_inv s1"
    using runs_inv [OF runs_step.hyps(1) runs_step.prems(1)] .
  have step: "server_step (ev, w) s1 = Inr s2" using runs_step.hyps(3) by (simp add: x)
  have nosig: "\<forall>net cl. ev \<noteq> Signal_done net cl"
    using inv runs_step.hyps(2) [unfolded x] step runs_step.prems(4) by (rule alive_not_signalled)
  obtain c1 where c1: "heap s1 q = Some c1"
    using step_backwards [OF step runs_step.prems(4) acc] by blast
  obtain ts l out1 where ih: "length ts = length xs" "log_good (m_packet_logger s1)"
    "log_text (m_packet_logger s1) = log_text (m_packet_logger s) @ concat ts"
    and run: "fold_res (conn_feed (Some packet_logger)) (chunks_of q xs) (c, l0, []) = Inr (c1, l, out1)"
    and l: "log_text l = log_text l0 @ lines_of q xs ts"
    using runs_step.IH [OF runs_step.prems(1-3) c1 _ runs_step.prems(6)]
      runs_step.prems(5) by auto
  have good: "log_good l" using run runs_step.prems(6) by (rule conn_run_good)
  obtain t l' out' where t: "log_good (m_packet_logger s2)"
    "log_text (m_packet_logger s2) = log_text (m_packet_logger s1) @ t"
    "fold_res (conn_feed (Some packet_logger)) (chunk_of q ev) (c1, l, out1) = Inr (c', l', out')"
    "log_text l' = log_text l @ (if concerns q ev then t else [])"
    using step_alone [OF step c1 runs_step.prems(4) acc nosig ih(2) good, of out1] by blast
  then show ?case
    using ih l run by (intro exI [of _ "ts @ [t]"]) (auto simp: x fold_res_append)
qed

text \<open>A session of one connection among the events of all.\<close>

lemma session_in_server:
  assumes "running n s" and "asio_ok (Accept_done net No_error sock q, False) s"
    and "server_step (Accept_done net No_error sock q, False) s = Inr s1"
    and "runs s1 xs s'"
    and "heap s' q = Some c'" and "\<forall>x \<in> set xs. \<not> accepts q (fst x)"
    and "log_good (m_packet_logger s1)"
    and "chunks_of q xs = evs1 @ evs2 @ concat evss" and "handshake evs1 evs2"
    and "\<forall>m \<in> set msgs. clean_message m"
    and "list_all2 (\<lambda>m evs. message_events (encode_message 0 m) evs) msgs evss"
  shows "\<exists>ts. length ts = length xs \<and>
           log_text (m_packet_logger s') = log_text (m_packet_logger s1) @ concat ts \<and>
           lines_of q xs ts = concat (map (\<lambda>m. message_line (hd m) (tl m)) msgs)"
proof -
  have inv: "server_inv s" using assms(1) by (rule running_inv)
  have "m_acceptor_open s" using step_outstanding [OF inv assms(2)] by blast
  then have h1: "heap s1 q = Some (opened (new_Connection sock (m_target_endpoint s)))"
    using assms(3) by (auto simp: server_step_def on_accept_def bind_res_iffs manager_start_iff)
  have inv1: "server_inv s1" using server_step_inv [OF inv assms(2)] assms(3) by simp
  have good: "log_good (new_PacketLogger True)" by simp
  obtain ts l out' where ts: "length ts = length xs"
    "log_text (m_packet_logger s') = log_text (m_packet_logger s1) @ concat ts"
    and alone: "fold_res (conn_feed (Some packet_logger)) (evs1 @ evs2 @ concat evss)
      (opened (new_Connection sock (m_target_endpoint s)), new_PacketLogger True, []) = Inr (c', l, out')"
    and l: "log_text l = lines_of q xs ts"
    using runs_log [OF assms(4) inv1 assms(7) h1 assms(5,6) good] assms(8) by auto
  have "\<exists>c2 l2 out2. fold_res (conn_feed (Some packet_logger)) (evs1 @ evs2 @ concat evss)
      (opened (new_Connection sock (m_target_endpoint s)), new_PacketLogger True, []) =
      Inr (c2, l2, out2) \<and>
      log_text l2 = log_text (new_PacketLogger True) @
        concat (map (\<lambda>m. message_line (hd m) (tl m)) msgs)"
    using assms(9-11) good by (rule file_log.session_run_from) (simp_all add: opened_def new_Connection_def)
  then show ?thesis using ts alone l by auto
qed

section \<open>A sample session in the server\<close>

definition ping_event :: server_event where
  "ping_event = Receive_done sample_ptr True reliable_net No_error (encode_message 0 [14])"

definition ping_session :: "(server_event \<times> bool) list" where
  "ping_session = [(connect_event, False), (ok_event, False), (ping_event, False)]"

lemma ping_run:
  obtains s' c' p where "runs one_client ping_session s'" and "heap s' sample_ptr = Some c'"
    and "m_packet_state (m_client_packet c') = PAYLOAD_LENGTH_0"
    and "m_payload_first_part (m_client_packet c')" and "m_connection_state c' = COMMAND_PHASE"
proof -
  obtain s c where s: "server_step (ok_event, False) connected = Inr s" "heap s sample_ptr = Some c"
    "m_client_packet c = new_FromClientPacket" "m_connection_state c = COMMAND_PHASE"
    "Connection_op sample_ptr (Async_receive True) \<in># outstanding s"
    by (rule ok_event_step)
  have valid: "\<not> (is_valid (command_of_byte 14) \<and> (0 :: u8) \<noteq> 0)" by simp
  obtain p where p: "collect_all client_vtable (encode_message 0 [14])
      (m_client_packet c, m_connection_state c, cout s) = Inr (p, m_connection_state c, cout s)"
    using client_message_general [OF _ _ sample_bounds(1) valid, of new_FromClientPacket "cout s"] s(3,4)
    by auto
  have idle: "m_packet_state p = PAYLOAD_LENGTH_0 \<and> m_payload_first_part p"
    using client.message_ends_idle [OF _ p] s(3) by simp
  obtain c' l where c': "conn_feed (Some packet_logger) (reliable_net, True, encode_message 0 [14])
      (c, m_packet_logger s, cout s) = Inr (c', l, cout s)"
    "m_client_packet c' = p" "m_connection_state c' = m_connection_state c"
    using conn_feed_client [OF p reliable_net_sends(1), of packet_logger "m_packet_logger s"] by blast
  then have "\<exists>s'. server_step (ping_event, False) s = Inr s' \<and> heap s' sample_ptr = Some c'"
    using s(2) by (simp add: ping_event_def server_step_def receive_done_def on_receive_conn_feed load_def)
  then obtain s' where s': "server_step (ping_event, False) s = Inr s'" "heap s' sample_ptr = Some c'"
    by blast
  have ok: "asio_ok (ping_event, False) s"
    using s(5) by (simp add: ping_event_def asio_ok_def BUFFER_LENGTH_def encode_message_short
        encode_packet_def le24_def)
  have "runs one_client ((([] @ [(connect_event, False)]) @ [(ok_event, False)]) @ [(ping_event, False)]) s'"
    by (intro runs_step [OF _ ok s'(1)] runs_step [OF _ ok_event_ok s(1)]
        runs_step [OF _ connect_ok connect_step] runs_Nil)
  then show thesis using that s'(2) c' idle s(4) by (simp add: ping_session_def)
qed

lemma ping_session_facts:
  "chunks_of sample_ptr ping_session =
     [] @ [(reliable_net, False, encode_message 0 [0, 0, 0, 2])] @
     concat [[(reliable_net, True, encode_message 0 [14])]]"
  "handshake [] [(reliable_net, False, encode_message 0 [0, 0, 0, 2])]"
  "\<forall>m \<in> set [[14 :: u8]]. clean_message m"
  "list_all2 (\<lambda>m evs. message_events (encode_message 0 m) evs) [[14]]
     [[(reliable_net, True, encode_message 0 [14])]]"
  "\<forall>x \<in> set ping_session. \<not> accepts sample_ptr (fst x)"
proof -
  have snoc: "ping_session = (([] @ [(connect_event, False)]) @ [(ok_event, False)]) @ [(ping_event, False)]"
    by (simp add: ping_session_def)
  show "chunks_of sample_ptr ping_session = [] @ [(reliable_net, False, encode_message 0 [0, 0, 0, 2])] @
      concat [[(reliable_net, True, encode_message 0 [14])]]"
    by (simp only: snoc chunks_of_simps fst_conv)
      (simp add: connect_event_def ok_event_def ping_event_def)
  show "handshake [] [(reliable_net, False, encode_message 0 [0, 0, 0, 2])]"
    by (rule handshakeI [where cms = "[]" and sms = "[]" and s = 0 and ok = "[0, 0, 0, 2]"])
      (simp_all add: is_ok_payload_def)
  show "\<forall>m \<in> set [[14 :: u8]]. clean_message m"
    by (simp add: clean_message_def sample_bounds message_bound_def statement_bound_def str_max_size_def)
  show "list_all2 (\<lambda>m evs. message_events (encode_message 0 m) evs) [[14]]
      [[(reliable_net, True, encode_message 0 [14])]]"
    by (simp add: message_events_def)
  show "\<forall>x \<in> set ping_session. \<not> accepts sample_ptr (fst x)"
    by (simp add: ping_session_def connect_event_def ok_event_def ping_event_def)
qed

section \<open>Properties\<close>

text \<open>
  C2. The log of the server. From the state after a client was accepted on, for a connection
  that is alive at the end and whose chunks are a session as in the property of a single
  connection (connection phase, then messages whose chunks end at their ends): whatever the
  other connections do, the log grows by pieces, one per event, and the pieces of the events
  of this connection are exactly the lines of its messages, in order.
\<close>

theorem server_session_logged:
  assumes "running n s" and "asio_ok (Accept_done net No_error sock q, False) s"
    and "server_step (Accept_done net No_error sock q, False) s = Inr s1"
    and "runs s1 xs s'"
    and "heap s' q = Some c'" and "\<forall>x \<in> set xs. \<not> accepts q (fst x)"
    and "log_good (m_packet_logger s1)"
    and "chunks_of q xs = evs1 @ evs2 @ concat evss" and "handshake evs1 evs2"
    and "\<forall>m \<in> set msgs. clean_message m"
    and "list_all2 (\<lambda>m evs. message_events (encode_message 0 m) evs) msgs evss"
  shows "\<exists>ts. length ts = length xs \<and>
           log_text (m_packet_logger s') = log_text (m_packet_logger s1) @ concat ts \<and>
           lines_of q xs ts = concat (map (\<lambda>m. message_line (hd m) (tl m)) msgs)"
  using assms by (rule session_in_server)

theorem server_session_logged_witness:
  "\<exists>s' ts. runs one_client ping_session s' \<and> log_text (m_packet_logger s') = concat ts \<and>
     lines_of sample_ptr ping_session ts = message_line 14 []"
proof -
  obtain s' c' where run: "runs one_client ping_session s'" "heap s' sample_ptr = Some c'"
    by (rule ping_run)
  have good: "log_good (m_packet_logger one_client)" by simp
  from server_session_logged [OF running_fresh accept_ok [unfolded accept_event_def]
      accept_step [unfolded accept_event_def] run(1) run(2) ping_session_facts(5) good
      ping_session_facts(1-4)]
  obtain ts where "log_text (m_packet_logger s') = log_text (m_packet_logger one_client) @ concat ts"
    "lines_of sample_ptr ping_session ts = concat (map (\<lambda>m. message_line (hd m) (tl m)) [[14]])"
    by blast
  then show ?thesis using run(1) by (intro exI [of _ s'] exI [of _ ts] conjI) simp_all
qed

end
