(* ===== verification/Main_Program.thy ===== *)
theory Main_Program
  imports Server_Log
begin

text \<open>
  The program (\<open>main\<close> of main.cpp): the check of the arguments, the server, the event loop
  over a schedule of completions, and the exception handler. Shown: the exit codes, the
  regular shutdown from any running state, and that one client can stop the proxy of all.
\<close>

section \<open>The program\<close>

text \<open>
  \<open>what()\<close> of a caught exception; the texts of the exceptions of the library are an argument.
\<close>

fun exception_what :: "(cxx_fault \<Rightarrow> string) \<Rightarrow> cxx_fault \<Rightarrow> string" where
  "exception_what library_text (Runtime_error t) = t"
| "exception_what library_text e = library_text e"

text \<open>
  The outcome: an exit code with the text on standard error, an event loop that has not
  returned, or undefined behaviour.
\<close>

datatype program_result = Exits int string | Still_running | Undefined

definition usage :: string where
  "usage = ''Usage: boost-asio-mysql-proxy'' @
     '' <client ip> <port> <mysql server ip> <port> <log file>'' @ [CHR 0x0A]"

definition server_run :: "(server_event \<times> bool) list \<Rightarrow> Server \<Rightarrow> Server result" where
  "server_run xs s = fold_res server_step xs s"

definition caught :: "(cxx_fault \<Rightarrow> string) \<Rightarrow> cxx_fault \<Rightarrow> program_result" where
  "caught library_text e =
     (if e = Undefined_behaviour then Undefined
      else Exits 0 (''Server stopped with exception: '' @ exception_what library_text e @ [CHR 0x0A]))"

definition program_main ::
  "os_calls \<Rightarrow> (cxx_fault \<Rightarrow> string) \<Rightarrow> string list \<Rightarrow> (server_event \<times> bool) list \<Rightarrow> program_result" where
  "program_main os library_text t_argv xs =
     (if length t_argv \<noteq> 6 then Exits 1 usage
      else
        (case new_Server os (t_argv ! 1) (t_argv ! 2) (t_argv ! 3) (t_argv ! 4) (t_argv ! 5) of
           Inl e \<Rightarrow> caught library_text e
         | Inr proxy_server \<Rightarrow>
             (case server_run xs proxy_server of
                Inl e \<Rightarrow> caught library_text e
              | Inr s \<Rightarrow> if run_returns s then Exits 0 [] else Still_running)))"

section \<open>Schedules\<close>

lemma runs_server_run: "runs s xs s' \<Longrightarrow> server_run xs s = Inr s'"
  by (induction rule: runs.induct) (simp_all add: server_run_def fold_res_append)

lemma server_run_snoc:
  "runs s xs s' \<Longrightarrow> server_run (xs @ [x]) s = server_step x s'"
  using runs_server_run [of s xs s']
  by (cases "server_step x s'") (simp_all add: server_run_def fold_res_append)

lemma runs_append: "runs s1 ys s2 \<Longrightarrow> runs s xs s1 \<Longrightarrow> runs s (xs @ ys) s2"
proof (induction rule: runs.induct)
  case (runs_Nil s1)
  then show ?case by simp
next
  case (runs_step s1 ys s2 x s3)
  then have "runs s (xs @ ys) s2" by simp
  then have "runs s ((xs @ ys) @ [x]) s3" using runs_step.hyps(2,3) by (rule runs.runs_step)
  then show ?case by simp
qed

text \<open>After the signal the cancelled operations can all complete, and then \<open>run\<close> returns.\<close>

lemma closed_completion:
  assumes "running n s" and "\<not> m_acceptor_open s"
  shows "\<exists>ys s'. runs s ys s' \<and> run_returns s'"
proof -
  have inv: "server_inv s" using assms(1) by (rule running_inv)
  have "\<exists>ys s'. runs s ys s' \<and> length ys = k" if "k \<le> size (cancelled s)" for k
    using that
  proof (induction k)
    case 0
    then show ?case using runs_Nil by force
  next
    case (Suc k)
    then obtain ys s1 where ys: "runs s ys s1" "length ys = k" by auto
    have "\<not> run_returns s1"
      using closed_loop [OF inv assms(2) ys(1)] ys(2) Suc.prems by simp
    then obtain x s2 where "asio_ok x s1" "server_step x s1 = Inr s2"
      using closed_loop [OF inv assms(2) ys(1)] by blast
    with ys(1) have "runs s (ys @ [x]) s2" by (rule runs_step)
    moreover have "length (ys @ [x]) = Suc k" using ys(2) by simp
    ultimately show ?case by blast
  qed
  then obtain ys s' where "runs s ys s'" "length ys = size (cancelled s)" by blast
  then show ?thesis using closed_loop [OF inv assms(2)] by blast
qed

section \<open>A bad packet\<close>

lemma bad_packet_ends_program:
  assumes "length t_argv = 6"
    and "new_Server os (t_argv ! 1) (t_argv ! 2) (t_argv ! 3) (t_argv ! 4) (t_argv ! 5) = Inr s0"
    and "runs s0 xs s" and "heap s q = Some c"
    and "m_packet_state (m_client_packet c) = PAYLOAD_LENGTH_0"
    and "m_payload_first_part (m_client_packet c)" and "m_connection_state c = COMMAND_PHASE"
    and "is_valid (command_of_byte b)" and "k \<noteq> 0"
    and "ev = Receive_done q True net No_error (encode_message k (b # bs)) \<or>
         ev = Read_some_done q True net No_error (encode_message k (b # bs))"
  shows "program_main os library_text t_argv (xs @ [(ev, False)]) =
           Exits 0 (''Server stopped with exception: BAD packet'' @ [CHR 0x0A])"
proof -
  let ?bs = "encode_message k (b # bs)"
  have feed: "conn_feed (Some packet_logger) (net, True, ?bs) (c, l, out) = Inl bad_packet" for l out
    using client_bad_message [OF assms(5,6,8,9), of bs out] assms(7)
    by (simp add: conn_feed_eq collect_chunk_def)
  have "server_step (ev, False) s = Inl bad_packet"
    using assms(4,10) feed by (auto simp: server_step_def receive_done_def read_some_done_def
        on_receive_conn_feed on_read_some_conn_feed load_def)
  then have "server_run (xs @ [(ev, False)]) s0 = Inl bad_packet"
    using server_run_snoc [OF assms(3)] by simp
  then show ?thesis using assms(1,2) by (simp add: program_main_def caught_def bad_packet_def)
qed

section \<open>Properties\<close>

text \<open>
  C36. Exit codes. The program exits with 1 and the usage exactly when it does not get five
  arguments; in every other case in which it exits, the code is 0, also after an exception,
  which can only be told from standard error.
\<close>

theorem program_exit_code:
  assumes "program_main os library_text t_argv xs = Exits code err"
  shows "(length t_argv \<noteq> 6 \<longrightarrow> code = 1 \<and> err = usage) \<and> (length t_argv = 6 \<longrightarrow> code = 0)"
  using assms by (auto simp: program_main_def caught_def split: if_splits sum.splits)

theorem program_exit_code_witness:
  "\<exists>code err. program_main (sample_os\<lparr>os_listen := Some 98\<rparr>) (\<lambda>_. ''in use'')
       [''proxy'', [], [], [], [], []] [] = Exits code err \<and> code = 0 \<and> err \<noteq> []"
proof -
  have run: "program_main (sample_os\<lparr>os_listen := Some 98\<rparr>) (\<lambda>_. ''in use'')
       [''proxy'', [], [], [], [], []] [] =
      Exits 0 (''Server stopped with exception: '' @ ''in use'' @ [CHR 0x0A])"
    by (simp add: program_main_def new_Server_def resolve_def sample_os_def socket_check_def
        caught_def Let_def)
  from program_exit_code [OF run] run show ?thesis by simp
qed

text \<open>
  C22. The regular end of the program: from any state the server reaches, when the signal
  arrives and the sockets can be closed, the cancelled operations complete and the program
  exits with code 0 and an empty standard error.
\<close>

theorem program_shutdown:
  assumes "length t_argv = 6"
    and "new_Server os (t_argv ! 1) (t_argv ! 2) (t_argv ! 3) (t_argv ! 4) (t_argv ! 5) = Inr s0"
    and "runs s0 xs s" and "asio_ok (Signal_done net None, False) s"
    and "\<forall>q \<in> dom (heap s). net_close net q True = None \<and> net_close net q False = None"
  shows "\<exists>ys. program_main os library_text t_argv (xs @ [(Signal_done net None, False)] @ ys) = Exits 0 []"
proof -
  have run: "running (total_client_bytes xs) s" using assms(2,3) unfolding running_def by blast
  have inv: "server_inv s" using run by (rule running_inv)
  obtain s1 where s1: "server_step (Signal_done net None, False) s = Inr s1" "\<not> m_acceptor_open s1"
    using signal_step [OF inv assms(4,5)] by blast
  have "running (total_client_bytes xs) s1" using running_step [OF run assms(4) s1(1)] by simp
  from closed_completion [OF this s1(2)] obtain ys s2 where
    ys: "runs s1 ys s2" "run_returns s2" by blast
  have "runs s0 (xs @ [(Signal_done net None, False)]) s1"
    using assms(3,4) s1(1) by (rule runs_step)
  then have "runs s0 ((xs @ [(Signal_done net None, False)]) @ ys) s2" using ys(1) by (rule runs_append [rotated])
  from runs_server_run [OF this] ys(2) assms(1,2)
  have "program_main os library_text t_argv ((xs @ [(Signal_done net None, False)]) @ ys) = Exits 0 []"
    by (simp add: program_main_def)
  then show ?thesis by auto
qed

theorem program_shutdown_witness:
  "\<exists>ys. program_main sample_os (\<lambda>_. []) [''proxy'', [], [], [], [], ''log'']
     ([(accept_event, False)] @ [(Signal_done reliable_net None, False)] @ ys) = Exits 0 []"
proof -
  have run: "runs fresh_server ([] @ [(accept_event, False)]) one_client"
    using runs_Nil accept_ok accept_step by (rule runs_step)
  have ok: "asio_ok (Signal_done reliable_net None, False) one_client" by (simp add: asio_ok_def)
  have new: "new_Server sample_os ([''proxy'', [], [], [], [], ''log''] ! 1)
      ([''proxy'', [], [], [], [], ''log''] ! 2) ([''proxy'', [], [], [], [], ''log''] ! 3)
      ([''proxy'', [], [], [], [], ''log''] ! 4) ([''proxy'', [], [], [], [], ''log''] ! 5) =
      Inr fresh_server"
    using new_sample_server by simp
  from program_shutdown [OF _ new run ok, of "\<lambda>_. []"] show ?thesis
    by (simp add: reliable_net_def)
qed

text \<open>
  C29. One client stops the proxy of all. Whatever other connections the server has: when one
  client in the command phase sends a command with a sequence id other than 0, as the first
  message of a read, the exception leaves the handler and the event loop, and the program
  ends, with exit code 0.
\<close>

theorem bad_client_stops_proxy:
  assumes "length t_argv = 6"
    and "new_Server os (t_argv ! 1) (t_argv ! 2) (t_argv ! 3) (t_argv ! 4) (t_argv ! 5) = Inr s0"
    and "runs s0 xs s" and "heap s q = Some c"
    and "m_packet_state (m_client_packet c) = PAYLOAD_LENGTH_0"
    and "m_payload_first_part (m_client_packet c)" and "m_connection_state c = COMMAND_PHASE"
    and "is_valid (command_of_byte b)" and "k \<noteq> 0"
    and "ev = Receive_done q True net No_error (encode_message k (b # bs)) \<or>
         ev = Read_some_done q True net No_error (encode_message k (b # bs))"
  shows "program_main os library_text t_argv (xs @ [(ev, False)]) =
           Exits 0 (''Server stopped with exception: BAD packet'' @ [CHR 0x0A])"
  using assms by (rule bad_packet_ends_program)

theorem bad_client_stops_proxy_witness:
  "program_main sample_os (\<lambda>_. []) [''proxy'', [], [], [], [], ''log'']
     ([(accept_event, False), (connect_event, False), (ok_event, False)] @
      [(Receive_done sample_ptr True reliable_net No_error (encode_message 1 [14]), False)]) =
     Exits 0 (''Server stopped with exception: BAD packet'' @ [CHR 0x0A])"
proof -
  obtain s c where s: "server_step (ok_event, False) connected = Inr s" "heap s sample_ptr = Some c"
    "m_client_packet c = new_FromClientPacket" "m_connection_state c = COMMAND_PHASE"
    by (rule ok_event_step)
  have run: "runs fresh_server ((([] @ [(accept_event, False)]) @ [(connect_event, False)]) @
      [(ok_event, False)]) s"
    by (intro runs_step [OF _ ok_event_ok s(1)] runs_step [OF _ connect_ok connect_step]
        runs_step [OF _ accept_ok accept_step] runs_Nil)
  have new: "new_Server sample_os ([''proxy'', [], [], [], [], ''log''] ! 1)
      ([''proxy'', [], [], [], [], ''log''] ! 2) ([''proxy'', [], [], [], [], ''log''] ! 3)
      ([''proxy'', [], [], [], [], ''log''] ! 4) ([''proxy'', [], [], [], [], ''log''] ! 5) =
      Inr fresh_server"
    using new_sample_server by simp
  have ping: "is_valid (command_of_byte 14)" by (simp add: sample_commands)
  from bad_client_stops_proxy [OF _ new run s(2) _ _ s(4) ping _ disjI1 [OF refl],
      where k = 1 and net = reliable_net and bs = "[]" and library_text = "\<lambda>_. []"] s(3)
  show ?thesis by simp
qed

end
