(* ===== verification/Program_Log.thy ===== *)
theory Program_Log
  imports Main_Program
begin

text \<open>
  The log file the program leaves behind, however it ends. \<open>main\<close> destroys the server when it
  leaves the block of the \<open>try\<close>, after \<open>run\<close> returned and also when an exception unwinds the
  stack; the destructor of the \<open>std::ofstream\<close> closes the file and so writes what is still
  buffered. A handler that throws may have written before: the line of a message is in the
  buffer when the \<open>send\<close> that follows throws. Shown: the lines of a completed session are in
  the file whatever happens afterwards.
\<close>

section \<open>What a handler that throws leaves in the log\<close>

definition transfer_log ::
  "'l log_func \<Rightarrow> bool \<Rightarrow> nat \<Rightarrow> 'l conn_ctx \<Rightarrow> 'l" where
  "transfer_log log_func from_client n ctx =
     (case ctx of (c, l, out) \<Rightarrow>
        (case do_packet_logging log_func from_client n ctx of
           Inl e \<Rightarrow> l
         | Inr (c', l', out') \<Rightarrow> l'))"

definition received_log :: "ConnectionPtr \<Rightarrow> bool \<Rightarrow> error_code \<Rightarrow> u8 list \<Rightarrow> Server \<Rightarrow> PacketLogger" where
  "received_log q from_client l_error bs s =
     (case heap s q of
        None \<Rightarrow> m_packet_logger s
      | Some c \<Rightarrow>
          if l_error = No_error
          then transfer_log (Some packet_logger) from_client (length bs)
                 (deliver from_client bs c, m_packet_logger s, cout s)
          else m_packet_logger s)"

fun thrown_log :: "server_event \<Rightarrow> Server \<Rightarrow> PacketLogger" where
  "thrown_log (Receive_done q b net er bs) s = received_log q b er bs s"
| "thrown_log (Read_some_done q b net er bs) s = received_log q b er bs s"
| "thrown_log (Accept_done net er sock q) s = m_packet_logger s"
| "thrown_log (Signal_done net cl) s = m_packet_logger s"
| "thrown_log (Connect_done q ep er) s = m_packet_logger s"

text \<open>The logger after one turn of the loop, and after a run that may end with an exception.\<close>

definition step_log_after :: "server_event \<times> bool \<Rightarrow> Server \<Rightarrow> PacketLogger" where
  "step_log_after x s =
     (case server_step x s of
        Inl e \<Rightarrow> thrown_log (fst x) s
      | Inr s' \<Rightarrow> m_packet_logger s')"

fun run_log_after :: "(server_event \<times> bool) list \<Rightarrow> Server \<Rightarrow> PacketLogger" where
  "run_log_after [] s = m_packet_logger s"
| "run_log_after (x # xs) s =
     (case server_step x s of
        Inl e \<Rightarrow> step_log_after x s
      | Inr s' \<Rightarrow> run_log_after xs s')"

section \<open>The file at the end of the program\<close>

text \<open>The destructor of the stream: \<open>close\<close> writes the buffer and closes the file.\<close>

definition ofs_destroy :: "ofstream \<Rightarrow> string" where
  "ofs_destroy f = ofs_file (ofs_flush f)"

definition destroyed_log :: "PacketLogger \<Rightarrow> string" where
  "destroyed_log l = ofs_destroy (m_log_file l)"

text \<open>
  The contents of the log file when the program has exited; \<open>None\<close> when it has not, or when it
  did not get as far as to open the file. A server whose constructor throws destroys the
  members it has constructed, the logger among them.
\<close>

definition program_log_file ::
  "os_calls \<Rightarrow> string list \<Rightarrow> (server_event \<times> bool) list \<Rightarrow> string option" where
  "program_log_file os t_argv xs =
     (if length t_argv \<noteq> 6 then None
      else
        (case new_Server os (t_argv ! 1) (t_argv ! 2) (t_argv ! 3) (t_argv ! 4) (t_argv ! 5) of
           Inl e \<Rightarrow> Some (destroyed_log (m_packet_logger (initial_Server os (t_argv ! 5))))
         | Inr proxy_server \<Rightarrow>
             (case server_run xs proxy_server of
                Inl e \<Rightarrow>
                  if e = Undefined_behaviour then None
                  else Some (destroyed_log (run_log_after xs proxy_server))
              | Inr s \<Rightarrow> if run_returns s then Some (destroyed_log (m_packet_logger s)) else None)))"

section \<open>The log only grows\<close>

definition log_extends :: "PacketLogger \<Rightarrow> PacketLogger \<Rightarrow> bool" where
  "log_extends l l' \<longleftrightarrow>
     (log_good l \<longrightarrow> log_good l' \<and> (\<exists>t. log_text l' = log_text l @ t))"

lemma log_extends_refl [simp]: "log_extends l l"
  by (simp add: log_extends_def)

lemma log_extends_trans: "log_extends l l' \<Longrightarrow> log_extends l' l'' \<Longrightarrow> log_extends l l''"
  by (auto simp: log_extends_def)

lemma log_extends_packet_logger: "log_extends l (packet_logger p b l)"
proof (cases p)
  case (Client_packet c)
  then show ?thesis
    by (cases b) (auto simp: log_extends_def log_text_packet_logger packet_logger_server)
next
  case (Server_packet c)
  then show ?thesis by (simp add: packet_logger_other)
qed

lemma log_extends_transfer: "log_extends l (transfer_log (Some packet_logger) b n (c, l, out))"
  by (auto simp: transfer_log_def do_packet_logging_def bind_res_def log_extends_packet_logger
      split: sum.splits if_splits)

lemma log_extends_thrown: "log_extends (m_packet_logger s) (thrown_log ev s)"
  by (cases ev) (auto simp: received_log_def log_extends_transfer split: option.splits)

lemma log_extends_step_Inr:
  assumes "server_step x s = Inr s'"
  shows "log_extends (m_packet_logger s) (m_packet_logger s')"
proof -
  have "log_good (m_packet_logger s') \<and>
      (\<exists>t. log_text (m_packet_logger s') = log_text (m_packet_logger s) @ t)"
    if "log_good (m_packet_logger s)"
    using step_log [of "fst x" "snd x" s s'] assms that by (metis prod.collapse)
  then show ?thesis by (simp add: log_extends_def)
qed

lemma log_extends_step: "log_extends (m_packet_logger s) (step_log_after x s)"
  by (auto simp: step_log_after_def log_extends_thrown split: sum.splits
      intro: log_extends_step_Inr)

lemma log_extends_run: "log_extends (m_packet_logger s) (run_log_after xs s)"
proof (induction xs arbitrary: s)
  case Nil
  show ?case by simp
next
  case (Cons x xs)
  then show ?case
    by (auto split: sum.splits intro: log_extends_step log_extends_trans [OF log_extends_step_Inr])
qed

lemma run_log_after_Inr: "server_run xs s = Inr s' \<Longrightarrow> run_log_after xs s = m_packet_logger s'"
  by (induction xs arbitrary: s) (auto simp: server_run_def bind_res_eq_Inr)

lemma run_log_after_append:
  "server_run xs s = Inr s' \<Longrightarrow> run_log_after (xs @ ys) s = run_log_after ys s'"
  by (induction xs arbitrary: s) (auto simp: server_run_def bind_res_eq_Inr)

lemma destroyed_log_text: "log_good l \<Longrightarrow> destroyed_log l = log_text l"
  by (simp add: destroyed_log_def ofs_destroy_def log_good_def log_text_def ofs_flush_def)

text \<open>Whenever the program exits, the file is what the run left in the log.\<close>

lemma program_log_file_run:
  assumes "program_main os library_text t_argv xs = Exits code err" and "length t_argv = 6"
    and "new_Server os (t_argv ! 1) (t_argv ! 2) (t_argv ! 3) (t_argv ! 4) (t_argv ! 5) = Inr s0"
  shows "program_log_file os t_argv xs = Some (destroyed_log (run_log_after xs s0))"
  using assms
  by (auto simp: program_main_def program_log_file_def caught_def run_log_after_Inr
      split: sum.splits if_splits)

lemma program_log_extends:
  assumes "program_main os library_text t_argv (xs @ ys) = Exits code err" and "length t_argv = 6"
    and "new_Server os (t_argv ! 1) (t_argv ! 2) (t_argv ! 3) (t_argv ! 4) (t_argv ! 5) = Inr s0"
    and "runs s0 xs s" and "log_good (m_packet_logger s)"
  shows "\<exists>t. program_log_file os t_argv (xs @ ys) = Some (log_text (m_packet_logger s) @ t)"
proof -
  have "run_log_after (xs @ ys) s0 = run_log_after ys s"
    by (rule run_log_after_append [OF runs_server_run [OF assms(4)]])
  then show ?thesis
    using program_log_file_run [OF assms(1-3)] log_extends_run [of s ys] assms(5)
    by (auto simp: log_extends_def destroyed_log_text)
qed

section \<open>Properties\<close>

text \<open>
  C3. The log file is complete when the program is over. A client is accepted and runs a
  session (connection phase, then messages whose chunks end at their ends) among any other
  clients; whatever happens next, and however the program ends, by the signal or by an
  exception in any handler, the file it leaves contains the lines of all messages of the
  session, in order, in the pieces written by the events of that connection.
\<close>

theorem program_session_logged:
  assumes "length t_argv = 6" and "os_open_file os (t_argv ! 5)"
    and "new_Server os (t_argv ! 1) (t_argv ! 2) (t_argv ! 3) (t_argv ! 4) (t_argv ! 5) = Inr s0"
    and "runs s0 xs0 s" and "asio_ok (Accept_done net No_error sock q, False) s"
    and "server_step (Accept_done net No_error sock q, False) s = Inr s1"
    and "runs s1 xs s'"
    and "heap s' q = Some c'" and "\<forall>x \<in> set xs. \<not> accepts q (fst x)"
    and "chunks_of q xs = evs1 @ evs2 @ concat evss" and "handshake evs1 evs2"
    and "\<forall>m \<in> set msgs. clean_message m"
    and "list_all2 (\<lambda>m evs. message_events (encode_message 0 m) evs) msgs evss"
    and "program_main os library_text t_argv
           (xs0 @ [(Accept_done net No_error sock q, False)] @ xs @ ys) = Exits code err"
  shows "\<exists>before ts after. length ts = length xs \<and>
           program_log_file os t_argv (xs0 @ [(Accept_done net No_error sock q, False)] @ xs @ ys) =
             Some (before @ concat ts @ after) \<and>
           lines_of q xs ts = concat (map (\<lambda>m. message_line (hd m) (tl m)) msgs)"
proof -
  let ?acc = "(Accept_done net No_error sock q, False)"
  have run1: "runs s0 (xs0 @ [?acc]) s1" by (rule runs_step [OF assms(4-6)])
  have run': "runs s0 ((xs0 @ [?acc]) @ xs) s'" by (rule runs_append [OF assms(7) run1])
  have "log_good (m_packet_logger s0)"
    using assms(2,3) by (auto simp: new_Server_iff initial_Server_def new_PacketLogger_def
        log_good_def ofs_open_def)
  then have good: "log_good (m_packet_logger s1)" "log_good (m_packet_logger s')"
    using log_extends_run [of s0] run_log_after_Inr [OF runs_server_run [OF run1]]
      run_log_after_Inr [OF runs_server_run [OF run']] by (metis log_extends_def)+
  have running: "running (total_client_bytes xs0) s"
    using assms(3,4) unfolding running_def by blast
  obtain ts where ts: "length ts = length xs"
    "log_text (m_packet_logger s') = log_text (m_packet_logger s1) @ concat ts"
    "lines_of q xs ts = concat (map (\<lambda>m. message_line (hd m) (tl m)) msgs)"
    using session_in_server [OF running assms(5-9) good(1) assms(10-13)] by blast
  obtain t where "program_log_file os t_argv (((xs0 @ [?acc]) @ xs) @ ys) =
      Some (log_text (m_packet_logger s') @ t)"
    using program_log_extends [OF _ assms(1,3) run' good(2), of library_text ys code err] assms(14)
    by auto
  then show ?thesis using ts by auto
qed

theorem program_session_logged_witness:
  "\<exists>before ts after. length ts = 3 \<and>
     program_log_file sample_os [''proxy'', [], [], [], [], ''log'']
       ([] @ [(accept_event, False)] @ ping_session @
        [(Read_some_done sample_ptr True reliable_net No_error (encode_message 1 [14]), False)]) =
       Some (before @ concat ts @ after) \<and>
     lines_of sample_ptr ping_session ts = message_line 14 []"
proof -
  let ?argv = "[''proxy'', [], [], [], [], ''log'']"
  let ?bad = "Read_some_done sample_ptr True reliable_net No_error (encode_message 1 [14])"
  obtain s' c' where s': "runs one_client ping_session s'" "heap s' sample_ptr = Some c'"
    "m_packet_state (m_client_packet c') = PAYLOAD_LENGTH_0"
    "m_payload_first_part (m_client_packet c')" "m_connection_state c' = COMMAND_PHASE"
    by (rule ping_run)
  have new: "new_Server sample_os (?argv ! 1) (?argv ! 2) (?argv ! 3) (?argv ! 4) (?argv ! 5) =
      Inr fresh_server"
    using new_sample_server by simp
  have "runs fresh_server ([] @ [(accept_event, False)]) one_client"
    using runs_Nil accept_ok accept_step by (rule runs_step)
  then have all: "runs fresh_server (([] @ [(accept_event, False)]) @ ping_session) s'"
    by (rule runs_append [OF s'(1)])
  have ping: "is_valid (command_of_byte 14)" by (simp add: sample_commands)
  have exits: "program_main sample_os (\<lambda>_. []) ?argv
      ([] @ [(accept_event, False)] @ ping_session @ [(?bad, False)]) =
      Exits 0 (''Server stopped with exception: BAD packet'' @ [CHR 0x0A])"
    using bad_packet_ends_program [OF _ new all s'(2-5) ping _ disjI2 [OF refl], where k = 1 and
        net = reliable_net and bs = "[]" and library_text = "\<lambda>_. []"] by simp
  have opens: "os_open_file sample_os (?argv ! 5)" by (simp add: sample_os_def)
  have three: "length ping_session = 3" by (simp add: ping_session_def)
  from program_session_logged [OF _ opens new runs_Nil accept_ok [unfolded accept_event_def]
      accept_step [unfolded accept_event_def] s'(1) s'(2) ping_session_facts(5)
      ping_session_facts(1-4) exits [unfolded accept_event_def]]
  obtain before ts after where "length ts = length ping_session"
    "program_log_file sample_os ?argv
       ([] @ [(accept_event, False)] @ ping_session @ [(?bad, False)]) =
       Some (before @ concat ts @ after)"
    "lines_of sample_ptr ping_session ts = concat (map (\<lambda>m. message_line (hd m) (tl m)) [[14]])"
    unfolding accept_event_def by auto
  then show ?thesis
    unfolding three by (intro exI [of _ before] exI [of _ ts] exI [of _ after]) simp
qed

end
