(* ===== verification/Debug_Server.thy ===== *)
theory Debug_Server
  imports Debug_Connection Program_Log
begin

text \<open>
  The whole program in the debug build: the manager, the server, its handlers and the event
  loop over the connections of the debug build, with one formatted \<open>std::cout\<close> for all of
  them, and \<open>main\<close>. Shown: over any schedule of completions the debug build ends as the
  release build does, with the same exit code and text on standard error, and leaves the same
  log file. Only the type of the connections and the output stream differ, so the members of
  the server that do not hold them are those of the record \<open>Server\<close>.
\<close>

section \<open>State\<close>

type_synonym debug_heap = "ConnectionPtr \<Rightarrow> DebugConnection option"

text \<open>
  The members of the class and the operations in flight are in \<open>d_server\<close>, whose own heap and
  text of standard output stay empty.
\<close>

record DebugServer =
  d_server :: Server
  d_heap :: debug_heap
  d_cout :: ostream

definition debug_load :: "debug_heap \<Rightarrow> ConnectionPtr \<Rightarrow> DebugConnection result" where
  "debug_load h q = (case h q of None \<Rightarrow> Inl Undefined_behaviour | Some c \<Rightarrow> Inr c)"

section \<open>The connection manager\<close>

definition debug_manager_start ::
  "asio_calls \<Rightarrow> ConnectionPtr \<Rightarrow> ConnectionManager \<times> debug_heap \<times> ostream \<Rightarrow>
     ((ConnectionManager \<times> debug_heap \<times> ostream) \<times> async_op list) result" where
  "debug_manager_start net t_connection st =
     (case st of (m, h, os) \<Rightarrow>
        let m' = m\<lparr>m_connections := set_insert t_connection (m_connections m)\<rparr> in
        bind_res (debug_load h t_connection) (\<lambda>c.
        bind_res (connection_start net (dbg_conn c)) (\<lambda>(c', ops).
        Inr ((m', h(t_connection \<mapsto> c\<lparr>dbg_conn := c'\<rparr>),
              print_opened (length (m_connections m')) os), ops))))"

definition debug_manager_stop ::
  "asio_calls \<Rightarrow> ConnectionPtr \<Rightarrow> ConnectionManager \<times> debug_heap \<times> ostream \<Rightarrow>
     (ConnectionManager \<times> debug_heap \<times> ostream) result" where
  "debug_manager_stop net t_connection st =
     (case st of (m, h, os) \<Rightarrow>
        bind_res (debug_load h t_connection) (\<lambda>c.
        bind_res (connection_stop (net_close net t_connection) (dbg_conn c)) (\<lambda>c'.
        let m' = m\<lparr>m_connections := set_erase t_connection (m_connections m)\<rparr> in
        Inr (m', h(t_connection \<mapsto> c\<lparr>dbg_conn := c'\<rparr>),
             print_opened (length (m_connections m')) os))))"

definition debug_stop_one :: "asio_calls \<Rightarrow> ConnectionPtr \<Rightarrow> debug_heap \<Rightarrow> debug_heap result" where
  "debug_stop_one net q h =
     bind_res (debug_load h q) (\<lambda>c.
     bind_res (connection_stop (net_close net q) (dbg_conn c)) (\<lambda>c'.
     Inr (h(q \<mapsto> c\<lparr>dbg_conn := c'\<rparr>))))"

definition debug_manager_stop_all ::
  "asio_calls \<Rightarrow> ConnectionManager \<times> debug_heap \<times> ostream \<Rightarrow>
     (ConnectionManager \<times> debug_heap \<times> ostream) result" where
  "debug_manager_stop_all net st =
     (case st of (m, h, os) \<Rightarrow>
        bind_res (fold_res (debug_stop_one net) (m_connections m) h) (\<lambda>h'.
        Inr (m\<lparr>m_connections := []\<rparr>, h', put_text closed_line os)))"

section \<open>The handlers\<close>

definition debug_connection_stopped ::
  "asio_calls \<Rightarrow> ConnectionPtr \<Rightarrow> DebugServer \<Rightarrow> DebugServer result" where
  "debug_connection_stopped net l_connection ds =
     (let s = d_server ds in
      bind_res (debug_manager_stop net l_connection (m_connection_manager s, d_heap ds, d_cout ds))
        (\<lambda>(m', h', os').
           Inr \<lparr>d_server = cancel_ops (is_op_of {l_connection})
                  (s\<lparr>m_connection_manager := m', m_packet_logger := logger_flush (m_packet_logger s)\<rparr>),
                d_heap = h'(l_connection := None), d_cout = os'\<rparr>))"

definition debug_on_accept ::
  "asio_calls \<Rightarrow> error_code \<Rightarrow> socket \<Rightarrow> ConnectionPtr \<Rightarrow> DebugServer \<Rightarrow> DebugServer result" where
  "debug_on_accept net l_error l_client_socket q ds =
     (let s = d_server ds in
      if \<not> m_acceptor_open s then Inr ds
      else
        bind_res
          (if l_error = No_error then
             bind_res
               (debug_manager_start net q
                  (m_connection_manager s,
                   (d_heap ds)(q \<mapsto> new_DebugConnection l_client_socket (m_target_endpoint s)),
                   d_cout ds))
               (\<lambda>((m', h', os'), ops).
                  Inr \<lparr>d_server = start_ops q ops (s\<lparr>m_connection_manager := m'\<rparr>),
                       d_heap = h', d_cout = os'\<rparr>)
           else Inr ds)
          (\<lambda>ds'. Inr (ds'\<lparr>d_server := do_accept (d_server ds')\<rparr>)))"

definition debug_on_signal :: "asio_calls \<Rightarrow> int option \<Rightarrow> DebugServer \<Rightarrow> DebugServer result" where
  "debug_on_signal net acceptor_close ds =
     bind_res (socket_check acceptor_close) (\<lambda>_.
     let s1 = cancel_ops (\<lambda>op. op = Accept_op) ((d_server ds)\<lparr>m_acceptor_open := False\<rparr>);
         Q = set (m_connections (m_connection_manager s1)) in
     bind_res (debug_manager_stop_all net (m_connection_manager s1, d_heap ds, d_cout ds))
       (\<lambda>(m', h', os').
     Inr \<lparr>d_server = cancel_ops (is_op_of Q)
            (s1\<lparr>m_connection_manager := m', m_packet_logger := logger_flush (m_packet_logger s1)\<rparr>),
          d_heap = h' |` (- Q), d_cout = os'\<rparr>))"

definition debug_connect_done :: "ConnectionPtr \<Rightarrow> error_code \<Rightarrow> DebugServer \<Rightarrow> DebugServer result" where
  "debug_connect_done q l_error ds =
     (if l_error = No_error then
        bind_res (debug_load (d_heap ds) q) (\<lambda>c.
        case on_connect l_error (dbg_conn c) of (c', ops) \<Rightarrow>
          Inr (ds\<lparr>d_server := start_ops q ops (d_server ds),
                  d_heap := (d_heap ds)(q \<mapsto> c\<lparr>dbg_conn := c'\<rparr>)\<rparr>))
      else Inr ds)"

text \<open>
  The transfer of a received chunk, the same for the first read and for the later reads; the
  chunk is delivered to the buffer first.
\<close>

definition debug_chunk_done ::
  "ConnectionPtr \<Rightarrow> bool \<Rightarrow> asio_calls \<Rightarrow> u8 list \<Rightarrow> DebugServer \<Rightarrow> DebugServer result" where
  "debug_chunk_done q from_client net bs ds =
     bind_res (debug_load (d_heap ds) q) (\<lambda>c.
     bind_res
       (debug_do_transfer net (Some debug_packet_logger) from_client (length bs)
          (c\<lparr>dbg_conn := deliver from_client bs (dbg_conn c)\<rparr>,
           m_packet_logger (d_server ds), d_cout ds))
       (\<lambda>((c', l', os'), ops).
          Inr \<lparr>d_server = start_ops q ops ((d_server ds)\<lparr>m_packet_logger := l'\<rparr>),
               d_heap = (d_heap ds)(q \<mapsto> c'), d_cout = os'\<rparr>))"

definition debug_receive_done ::
  "ConnectionPtr \<Rightarrow> bool \<Rightarrow> asio_calls \<Rightarrow> error_code \<Rightarrow> u8 list \<Rightarrow> DebugServer \<Rightarrow> DebugServer result" where
  "debug_receive_done q from_client net l_error bs ds =
     (if l_error = No_error then debug_chunk_done q from_client net bs ds else Inr ds)"

definition debug_read_some_done ::
  "ConnectionPtr \<Rightarrow> bool \<Rightarrow> asio_calls \<Rightarrow> error_code \<Rightarrow> u8 list \<Rightarrow> DebugServer \<Rightarrow> DebugServer result" where
  "debug_read_some_done q from_client net l_error bs ds =
     (if l_error = No_error then debug_chunk_done q from_client net bs ds
      else if l_error \<noteq> Operation_aborted then
        bind_res (debug_load (d_heap ds) q) (\<lambda>c. debug_connection_stopped net q ds)
      else Inr ds)"

fun debug_handle :: "server_event \<Rightarrow> DebugServer \<Rightarrow> DebugServer result" where
  "debug_handle (Accept_done net er sock q) ds = debug_on_accept net er sock q ds"
| "debug_handle (Signal_done net cl) ds = debug_on_signal net cl ds"
| "debug_handle (Connect_done q ep er) ds = debug_connect_done q er ds"
| "debug_handle (Receive_done q b net er bs) ds = debug_receive_done q b net er bs ds"
| "debug_handle (Read_some_done q b net er bs) ds = debug_read_some_done q b net er bs ds"

definition debug_server_step :: "server_event \<times> bool \<Rightarrow> DebugServer \<Rightarrow> DebugServer result" where
  "debug_server_step x ds =
     (case x of (ev, was_cancelled) \<Rightarrow>
        let s = d_server ds in
        debug_handle ev
          (ds\<lparr>d_server :=
             (if was_cancelled
              then s\<lparr>cancelled := cancelled s - {#completed_op ev#}\<rparr>
              else s\<lparr>outstanding := outstanding s - {#completed_op ev#}\<rparr>)\<rparr>))"

section \<open>The program\<close>

text \<open>The constructor has no conditional code and makes no connection.\<close>

definition new_DebugServer ::
  "os_calls \<Rightarrow> string \<Rightarrow> string \<Rightarrow> string \<Rightarrow> string \<Rightarrow> string \<Rightarrow> DebugServer result" where
  "new_DebugServer os ca cp sa sp path =
     bind_res (new_Server os ca cp sa sp path) (\<lambda>s.
     Inr \<lparr>d_server = s, d_heap = Map.empty, d_cout = initial_cout\<rparr>)"

definition debug_server_run :: "(server_event \<times> bool) list \<Rightarrow> DebugServer \<Rightarrow> DebugServer result" where
  "debug_server_run xs ds = fold_res debug_server_step xs ds"

definition debug_program_main ::
  "os_calls \<Rightarrow> (cxx_fault \<Rightarrow> string) \<Rightarrow> string list \<Rightarrow> (server_event \<times> bool) list \<Rightarrow> program_result" where
  "debug_program_main os library_text t_argv xs =
     (if length t_argv \<noteq> 6 then Exits 1 usage
      else
        (case new_DebugServer os (t_argv ! 1) (t_argv ! 2) (t_argv ! 3) (t_argv ! 4) (t_argv ! 5) of
           Inl e \<Rightarrow> caught library_text e
         | Inr proxy_server \<Rightarrow>
             (case debug_server_run xs proxy_server of
                Inl e \<Rightarrow> caught library_text e
              | Inr ds \<Rightarrow> if run_returns (d_server ds) then Exits 0 [] else Still_running)))"

text \<open>The log file it leaves, as for the release build.\<close>

definition debug_transfer_log ::
  "'l debug_log_func \<Rightarrow> bool \<Rightarrow> nat \<Rightarrow> 'l debug_conn_ctx \<Rightarrow> 'l" where
  "debug_transfer_log log_func from_client n ctx =
     (case ctx of (c, l, os) \<Rightarrow>
        (case debug_do_packet_logging log_func from_client n ctx of
           Inl e \<Rightarrow> l
         | Inr (c', l', os') \<Rightarrow> l'))"

definition debug_received_log ::
  "ConnectionPtr \<Rightarrow> bool \<Rightarrow> error_code \<Rightarrow> u8 list \<Rightarrow> DebugServer \<Rightarrow> PacketLogger" where
  "debug_received_log q from_client l_error bs ds =
     (case d_heap ds q of
        None \<Rightarrow> m_packet_logger (d_server ds)
      | Some c \<Rightarrow>
          if l_error = No_error
          then debug_transfer_log (Some debug_packet_logger) from_client (length bs)
                 (c\<lparr>dbg_conn := deliver from_client bs (dbg_conn c)\<rparr>,
                  m_packet_logger (d_server ds), d_cout ds)
          else m_packet_logger (d_server ds))"

fun debug_thrown_log :: "server_event \<Rightarrow> DebugServer \<Rightarrow> PacketLogger" where
  "debug_thrown_log (Receive_done q b net er bs) ds = debug_received_log q b er bs ds"
| "debug_thrown_log (Read_some_done q b net er bs) ds = debug_received_log q b er bs ds"
| "debug_thrown_log ev ds = m_packet_logger (d_server ds)"

fun debug_run_log_after :: "(server_event \<times> bool) list \<Rightarrow> DebugServer \<Rightarrow> PacketLogger" where
  "debug_run_log_after [] ds = m_packet_logger (d_server ds)"
| "debug_run_log_after (x # xs) ds =
     (case debug_server_step x ds of
        Inl e \<Rightarrow> debug_thrown_log (fst x) ds
      | Inr ds' \<Rightarrow> debug_run_log_after xs ds')"

definition debug_program_log_file ::
  "os_calls \<Rightarrow> string list \<Rightarrow> (server_event \<times> bool) list \<Rightarrow> string option" where
  "debug_program_log_file os t_argv xs =
     (if length t_argv \<noteq> 6 then None
      else
        (case new_DebugServer os (t_argv ! 1) (t_argv ! 2) (t_argv ! 3) (t_argv ! 4) (t_argv ! 5) of
           Inl e \<Rightarrow> Some (destroyed_log (m_packet_logger (initial_Server os (t_argv ! 5))))
         | Inr proxy_server \<Rightarrow>
             (case debug_server_run xs proxy_server of
                Inl e \<Rightarrow>
                  if e = Undefined_behaviour then None
                  else Some (destroyed_log (debug_run_log_after xs proxy_server))
              | Inr ds \<Rightarrow>
                  if run_returns (d_server ds)
                  then Some (destroyed_log (m_packet_logger (d_server ds))) else None)))"

section \<open>The release build inside the debug build\<close>

text \<open>Two results: the same fault, or related values.\<close>

lemma bind_sim:
  assumes "rel_sum (=) R r r'" and "\<And>x y. R x y \<Longrightarrow> rel_sum (=) S (f x) (g y)"
  shows "rel_sum (=) S (bind_res r f) (bind_res r' g)"
  using assms by (cases r; cases r') auto

lemma result_cases [consumes 1, case_names fault returns]:
  assumes "rel_sum (=) R r r'"
  obtains e where "r = Inl e" and "r' = Inl e"
    | x y where "r = Inr x" and "r' = Inr y" and "R x y"
  using assms by (cases r; cases r') auto

lemma same_check: "rel_sum (=) (=) (socket_check r) (socket_check r)"
  by (cases r) (simp_all add: socket_check_def)

definition heap_sim :: "nat \<Rightarrow> connection_heap \<Rightarrow> debug_heap \<Rightarrow> bool" where
  "heap_sim n h dh \<longleftrightarrow> (\<forall>q. rel_option (debug_sim n) (h q) (dh q))"

lemma debug_sim_mono: "debug_sim n c dc \<Longrightarrow> n \<le> k \<Longrightarrow> debug_sim k c dc"
  by (auto simp: debug_sim_def intro: payload_inv_mono)

lemma heap_sim_mono: "heap_sim n h dh \<Longrightarrow> n \<le> k \<Longrightarrow> heap_sim k h dh"
  unfolding heap_sim_def by (blast intro: option.rel_mono_strong debug_sim_mono)

lemma heap_sim_empty [simp]: "heap_sim n Map.empty Map.empty"
  by (simp add: heap_sim_def)

lemma heap_sim_update: "heap_sim n h dh \<Longrightarrow> debug_sim n c dc \<Longrightarrow> heap_sim n (h(q \<mapsto> c)) (dh(q \<mapsto> dc))"
  by (simp add: heap_sim_def)

lemma heap_sim_remove: "heap_sim n h dh \<Longrightarrow> heap_sim n (h(q := None)) (dh(q := None))"
  by (simp add: heap_sim_def)

lemma heap_sim_restrict: "heap_sim n h dh \<Longrightarrow> heap_sim n (h |` Q) (dh |` Q)"
  by (simp add: heap_sim_def restrict_map_def)

lemma load_sim:
  assumes "heap_sim n h dh"
  shows "rel_sum (=) (debug_sim n) (load h q) (debug_load dh q)"
proof -
  have "rel_option (debug_sim n) (h q) (dh q)" using assms by (simp add: heap_sim_def)
  then show ?thesis by (cases rule: option.rel_cases) (simp_all add: load_def debug_load_def)
qed

lemma start_sim:
  assumes "debug_sim n c dc"
  shows "rel_sum (=) (\<lambda>(c', ops) (d', ops'). ops' = ops \<and> debug_sim n c' (dc\<lparr>dbg_conn := d'\<rparr>))
           (connection_start net c) (connection_start net (dbg_conn dc))"
  using assms by (cases "net_open net")
    (auto simp: connection_start_def do_connect_def socket_check_def debug_sim_def same_conn_def
      client_debug_packet_def server_debug_packet_def)

lemma stop_sim:
  assumes "debug_sim n c dc"
  shows "rel_sum (=) (\<lambda>c' d'. debug_sim n c' (dc\<lparr>dbg_conn := d'\<rparr>))
           (connection_stop close c) (connection_stop close (dbg_conn dc))"
  using assms by (cases "close True"; cases "close False")
    (auto simp: connection_stop_def socket_check_def debug_sim_def same_conn_def client_debug_packet_def
      server_debug_packet_def)

section \<open>The manager\<close>

definition manager_sim ::
  "nat \<Rightarrow> ConnectionManager \<times> connection_heap \<times> string \<Rightarrow> ConnectionManager \<times> debug_heap \<times> ostream \<Rightarrow> bool" where
  "manager_sim n st dst \<longleftrightarrow> fst dst = fst st \<and> heap_sim n (fst (snd st)) (fst (snd dst))"

lemma manager_start_sim:
  assumes "heap_sim n h dh"
  shows "rel_sum (=) (\<lambda>(st, ops) (dst, ops'). ops' = ops \<and> manager_sim n st dst)
           (manager_start net q (m, h, out)) (debug_manager_start net q (m, dh, os))"
  unfolding manager_start_def debug_manager_start_def Let_def prod.case
  by (rule bind_sim [OF load_sim [OF assms]], rule bind_sim [OF start_sim], assumption)
    (auto simp: manager_sim_def heap_sim_update assms)

lemma manager_stop_sim:
  assumes "heap_sim n h dh"
  shows "rel_sum (=) (manager_sim n) (manager_stop net q (m, h, out)) (debug_manager_stop net q (m, dh, os))"
  unfolding manager_stop_def debug_manager_stop_def Let_def prod.case
  by (rule bind_sim [OF load_sim [OF assms]], rule bind_sim [OF stop_sim], assumption)
    (auto simp: manager_sim_def heap_sim_update assms)

lemma stop_one_sim:
  assumes "heap_sim n h dh"
  shows "rel_sum (=) (heap_sim n) (stop_one net q h) (debug_stop_one net q dh)"
  unfolding stop_one_def debug_stop_one_def
  by (rule bind_sim [OF load_sim [OF assms]], rule bind_sim [OF stop_sim], assumption)
    (auto simp: heap_sim_update assms)

lemma stop_fold_sim:
  "heap_sim n h dh \<Longrightarrow>
     rel_sum (=) (heap_sim n) (fold_res (stop_one net) qs h) (fold_res (debug_stop_one net) qs dh)"
  by (induction qs arbitrary: h dh) (auto intro: bind_sim [OF stop_one_sim])

lemma manager_stop_all_sim:
  assumes "heap_sim n h dh"
  shows "rel_sum (=) (manager_sim n) (manager_stop_all net (m, h, out))
           (debug_manager_stop_all net (m, dh, os))"
  unfolding manager_stop_all_def debug_manager_stop_all_def prod.case
  by (rule bind_sim [OF stop_fold_sim [OF assms]]) (simp add: manager_sim_def)

section \<open>The handlers\<close>

definition server_sim :: "nat \<Rightarrow> Server \<Rightarrow> DebugServer \<Rightarrow> bool" where
  "server_sim n s ds \<longleftrightarrow>
     m_acceptor_open (d_server ds) = m_acceptor_open s \<and>
     m_target_endpoint (d_server ds) = m_target_endpoint s \<and>
     m_connection_manager (d_server ds) = m_connection_manager s \<and>
     m_packet_logger (d_server ds) = m_packet_logger s \<and>
     outstanding (d_server ds) = outstanding s \<and> cancelled (d_server ds) = cancelled s \<and>
     heap_sim n (heap s) (d_heap ds)"

lemma server_sim_mono: "server_sim n s ds \<Longrightarrow> n \<le> k \<Longrightarrow> server_sim k s ds"
  by (auto simp: server_sim_def intro: heap_sim_mono)

lemma connection_stopped_sim:
  assumes "server_sim n s ds"
  shows "rel_sum (=) (server_sim n) (connection_stopped net q s) (debug_connection_stopped net q ds)"
  unfolding connection_stopped_def debug_connection_stopped_def Let_def
  using assms
  by (intro bind_sim [where R = "manager_sim n"])
    (auto simp: server_sim_def manager_sim_def cancel_ops_def heap_sim_remove intro: manager_stop_sim)

lemma on_accept_sim:
  assumes "server_sim n s ds"
  shows "rel_sum (=) (server_sim n) (on_accept net er sock q s) (debug_on_accept net er sock q ds)"
proof (cases "m_acceptor_open s \<and> er = No_error")
  case False
  then show ?thesis
    using assms by (auto simp: on_accept_def debug_on_accept_def do_accept_def server_sim_def Let_def)
next
  case True
  let ?h = "(heap s)(q \<mapsto> new_Connection sock (m_target_endpoint s))"
  let ?dh = "(d_heap ds)(q \<mapsto> new_DebugConnection sock (m_target_endpoint s))"
  have "heap_sim n ?h ?dh"
    using assms by (intro heap_sim_update debug_sim_mono [OF debug_sim_new])
      (simp_all add: server_sim_def)
  from manager_start_sim [OF this, of net q "m_connection_manager s" "cout s" "d_cout ds"]
  have "rel_sum (=) (\<lambda>(st, ops) (dst, ops'). ops' = ops \<and> manager_sim n st dst)
      (manager_start net q (m_connection_manager s, ?h, cout s))
      (debug_manager_start net q (m_connection_manager (d_server ds), ?dh, d_cout ds))"
    using assms by (simp add: server_sim_def)
  then show ?thesis
    using True assms
    by (cases rule: result_cases)
      (auto simp: on_accept_def debug_on_accept_def server_sim_def Let_def do_accept_def start_ops_def
        manager_sim_def)
qed

lemma on_signal_sim:
  assumes "server_sim n s ds"
  shows "rel_sum (=) (server_sim n) (on_signal net cl s) (debug_on_signal net cl ds)"
proof -
  have stop: "rel_sum (=) (manager_sim n)
      (manager_stop_all net (m_connection_manager s, heap s, cout s))
      (debug_manager_stop_all net (m_connection_manager s, d_heap ds, d_cout ds))"
    using assms by (intro manager_stop_all_sim) (simp add: server_sim_def)
  show ?thesis
    unfolding on_signal_def debug_on_signal_def Let_def
    using assms stop
    by (intro bind_sim [OF same_check] bind_sim [where R = "manager_sim n"])
      (auto simp: server_sim_def manager_sim_def cancel_ops_def heap_sim_restrict)
qed

lemma connect_done_sim:
  assumes "server_sim n s ds"
  shows "rel_sum (=) (server_sim n) (connect_done q er s) (debug_connect_done q er ds)"
proof (cases "er = No_error")
  case False
  then show ?thesis using assms by (simp add: connect_done_def debug_connect_done_def)
next
  case True
  have "rel_sum (=) (debug_sim n) (load (heap s) q) (debug_load (d_heap ds) q)"
    using assms by (intro load_sim) (simp add: server_sim_def)
  then show ?thesis
    using True assms
    by (cases rule: result_cases)
      (auto simp: connect_done_def debug_connect_done_def on_connect_def do_receive_def server_sim_def
        start_ops_def heap_sim_update load_def)
qed

text \<open>The transfer of a chunk in the two builds.\<close>

lemma debug_do_transfer_feed:
  "debug_do_transfer net log_func b (length bs) (c\<lparr>dbg_conn := deliver b bs (dbg_conn c)\<rparr>, l, os) =
     bind_res (debug_conn_feed log_func (net, b, bs) (c, l, os)) (\<lambda>ctx'. Inr (ctx', [Async_read_some b]))"
  by (auto simp: debug_conn_feed_def debug_do_transfer_def bind_res_def split: sum.splits prod.splits)

lemma feed_sim:
  assumes "debug_sim n c dc" and "n + length bs \<le> payload_bound"
  shows "rel_sum (=) (\<lambda>(c', l', out') (dc', dl', os'). dl' = l' \<and> debug_sim (n + length bs) c' dc')
           (conn_feed (Some packet_logger) (net, b, bs) (c, l, out))
           (debug_conn_feed (Some debug_packet_logger) (net, b, bs) (dc, l, os))"
  using printing.debug_feed_sim [OF assms, where net = net and b = b and l = l and os = os and out = out]
  by (cases "debug_conn_feed (Some debug_packet_logger) (net, b, bs) (dc, l, os)") auto

lemma chunk_done_feed:
  assumes "r = receive_done q b net No_error bs s \<or> r = read_some_done q b net No_error bs s"
  shows "r = bind_res (load (heap s) q) (\<lambda>c.
           bind_res (conn_feed (Some packet_logger) (net, b, bs) (c, m_packet_logger s, cout s))
             (\<lambda>(c', l', out'). Inr (start_ops q [Async_read_some b]
                (s\<lparr>heap := (heap s)(q \<mapsto> c'), m_packet_logger := l', cout := out'\<rparr>))))"
  using assms
  by (auto simp: receive_done_def read_some_done_def on_receive_conn_feed on_read_some_conn_feed
      bind_res_def Let_def split: sum.splits)

lemma chunk_sim:
  assumes "server_sim n s ds" and "n + length bs \<le> payload_bound"
    and "r = receive_done q b net No_error bs s \<or> r = read_some_done q b net No_error bs s"
  shows "rel_sum (=) (server_sim (n + length bs)) r (debug_chunk_done q b net bs ds)"
proof -
  have heaps: "heap_sim n (heap s) (d_heap ds)" and logger: "m_packet_logger (d_server ds) = m_packet_logger s"
    using assms(1) by (simp_all add: server_sim_def)
  have more: "heap_sim (n + length bs) (heap s) (d_heap ds)" using heaps by (rule heap_sim_mono) simp
  show ?thesis
    unfolding chunk_done_feed [OF assms(3)] debug_chunk_done_def debug_do_transfer_feed logger
  proof (rule bind_sim [OF load_sim [OF heaps]])
    fix c dc assume "debug_sim n c dc"
    from feed_sim [OF this assms(2), of net b "m_packet_logger s" "cout s" "d_cout ds"]
    show "rel_sum (=) (server_sim (n + length bs))
        (bind_res (conn_feed (Some packet_logger) (net, b, bs) (c, m_packet_logger s, cout s))
          (\<lambda>(c', l', out'). Inr (start_ops q [Async_read_some b]
             (s\<lparr>heap := (heap s)(q \<mapsto> c'), m_packet_logger := l', cout := out'\<rparr>))))
        (bind_res (bind_res (debug_conn_feed (Some debug_packet_logger) (net, b, bs)
             (dc, m_packet_logger s, d_cout ds)) (\<lambda>ctx'. Inr (ctx', [Async_read_some b])))
          (\<lambda>((c', l', os'), ops).
             Inr \<lparr>d_server = start_ops q ops ((d_server ds)\<lparr>m_packet_logger := l'\<rparr>),
                  d_heap = (d_heap ds)(q \<mapsto> c'), d_cout = os'\<rparr>))"
      using assms(1) more
      by (cases rule: result_cases) (auto simp: server_sim_def start_ops_def heap_sim_update)
  qed
qed

lemma read_end_sim:
  assumes "server_sim n s ds" and "er \<noteq> No_error"
  shows "rel_sum (=) (server_sim n) (read_some_done q b net er bs s) (debug_read_some_done q b net er bs ds)"
proof (cases "er = Operation_aborted")
  case True
  then show ?thesis using assms by (simp add: read_some_done_def debug_read_some_done_def)
next
  case False
  have "rel_sum (=) (debug_sim n) (load (heap s) q) (debug_load (d_heap ds) q)"
    using assms(1) by (intro load_sim) (simp add: server_sim_def)
  then show ?thesis
  proof (cases rule: result_cases)
    case (fault e)
    then show ?thesis
      using False assms(2) by (auto simp: read_some_done_def debug_read_some_done_def load_def)
  next
    case (returns c dc)
    then have "s\<lparr>heap := (heap s)(q \<mapsto> c)\<rparr> = s"
      by (simp add: fun_upd_idem)
    then have "read_some_done q b net er bs s = connection_stopped net q s"
      using False assms(2) returns
      by (simp add: read_some_done_def on_read_some_def start_ops_def Let_def load_def)
    then show ?thesis
      using connection_stopped_sim [OF assms(1), of net q] False assms(2) returns
      by (simp add: debug_read_some_done_def)
  qed
qed

section \<open>The event loop\<close>

text \<open>The bytes an event brings, from either side.\<close>

fun received_bytes :: "server_event \<Rightarrow> nat" where
  "received_bytes (Receive_done q b net er bs) = length bs"
| "received_bytes (Read_some_done q b net er bs) = length bs"
| "received_bytes ev = 0"

lemma handle_sim:
  assumes "server_sim n s ds" and "n + received_bytes ev \<le> payload_bound"
  shows "rel_sum (=) (server_sim (n + received_bytes ev)) (handle ev s) (debug_handle ev ds)"
proof (cases ev)
  case (Receive_done q b net er bs)
  then show ?thesis
    using chunk_sim [OF assms(1), of bs _ q b net] assms server_sim_mono [OF assms(1)]
    by (cases "er = No_error") (simp_all add: receive_done_def debug_receive_done_def)
next
  case (Read_some_done q b net er bs)
  show ?thesis
  proof (cases "er = No_error")
    case True
    then show ?thesis
      using chunk_sim [OF assms(1), of bs _ q b net] assms(2) Read_some_done
      by (simp add: debug_read_some_done_def)
  next
    case False
    have "server_sim (n + length bs) s ds" using assms(1) by (rule server_sim_mono) simp
    then show ?thesis using read_end_sim [OF _ False] Read_some_done by simp
  qed
qed (simp_all add: on_accept_sim on_signal_sim connect_done_sim assms(1))

lemma debug_step_sim:
  assumes "server_sim n s ds" and "n + received_bytes (fst x) \<le> payload_bound"
  shows "rel_sum (=) (server_sim (n + received_bytes (fst x))) (server_step x s) (debug_server_step x ds)"
proof -
  obtain ev w where x: "x = (ev, w)" by (cases x)
  define s1 where "s1 = (if w then s\<lparr>cancelled := cancelled s - {#completed_op ev#}\<rparr>
    else s\<lparr>outstanding := outstanding s - {#completed_op ev#}\<rparr>)"
  define d1 where "d1 = (if w then (d_server ds)\<lparr>cancelled := cancelled (d_server ds) - {#completed_op ev#}\<rparr>
    else (d_server ds)\<lparr>outstanding := outstanding (d_server ds) - {#completed_op ev#}\<rparr>)"
  have "server_sim n s1 (ds\<lparr>d_server := d1\<rparr>)"
    using assms(1) by (simp add: server_sim_def s1_def d1_def)
  then have "rel_sum (=) (server_sim (n + received_bytes ev)) (handle ev s1)
      (debug_handle ev (ds\<lparr>d_server := d1\<rparr>))"
    using assms(2) by (intro handle_sim) (simp_all add: x)
  then show ?thesis by (simp add: x server_step_def debug_server_step_def s1_def d1_def Let_def)
qed

lemma debug_run_server_sim:
  assumes "server_sim n s ds" and "n + (\<Sum>x \<leftarrow> xs. received_bytes (fst x)) \<le> payload_bound"
  shows "rel_sum (=) (\<lambda>s' ds'. \<exists>k. server_sim k s' ds') (server_run xs s) (debug_server_run xs ds)"
  using assms
proof (induction xs arbitrary: n s ds)
  case Nil
  then show ?case by (auto simp: server_run_def debug_server_run_def)
next
  case (Cons x xs)
  have "rel_sum (=) (server_sim (n + received_bytes (fst x))) (server_step x s) (debug_server_step x ds)"
    using Cons.prems by (intro debug_step_sim) simp_all
  then show ?case
    using Cons.IH Cons.prems(2)
    by (cases rule: result_cases) (auto simp: server_run_def debug_server_run_def add.assoc)
qed

text \<open>The log when a handler throws is the same.\<close>

lemma received_log_sim:
  assumes "server_sim n s ds" and "n + length bs \<le> payload_bound"
  shows "debug_received_log q b er bs ds = received_log q b er bs s"
proof -
  have logger: "m_packet_logger (d_server ds) = m_packet_logger s"
    and heaps: "rel_option (debug_sim n) (heap s q) (d_heap ds q)"
    using assms(1) by (simp_all add: server_sim_def heap_sim_def)
  from heaps show ?thesis
  proof (cases rule: option.rel_cases)
    case None
    then show ?thesis by (simp add: debug_received_log_def received_log_def logger)
  next
    case (Some c dc)
    from printing.debug_logging_sim [OF Some(3) assms(2), of b "m_packet_logger s" "cout s" "d_cout ds"]
    show ?thesis
      using Some(1,2)
      by (cases rule: result_cases)
        (auto simp: debug_received_log_def received_log_def debug_transfer_log_def transfer_log_def logger)
  qed
qed

lemma thrown_log_sim:
  assumes "server_sim n s ds" and "n + received_bytes ev \<le> payload_bound"
  shows "debug_thrown_log ev ds = thrown_log ev s"
  using assms received_log_sim [OF assms(1)] by (cases ev) (simp_all add: server_sim_def)

lemma run_log_sim:
  assumes "server_sim n s ds" and "n + (\<Sum>x \<leftarrow> xs. received_bytes (fst x)) \<le> payload_bound"
  shows "debug_run_log_after xs ds = run_log_after xs s"
  using assms
proof (induction xs arbitrary: n s ds)
  case Nil
  then show ?case by (simp add: server_sim_def)
next
  case (Cons x xs)
  have bound: "n + received_bytes (fst x) \<le> payload_bound" using Cons.prems(2) by simp
  from debug_step_sim [OF Cons.prems(1) bound] show ?case
    using Cons.IH Cons.prems(2) thrown_log_sim [OF Cons.prems(1) bound]
    by (cases rule: result_cases) (simp_all add: step_log_after_def add.assoc)
qed

lemma new_server_sim:
  "new_Server os ca cp sa sp path = Inr s \<Longrightarrow>
     server_sim 0 s \<lparr>d_server = s, d_heap = Map.empty, d_cout = initial_cout\<rparr>"
  by (simp add: server_sim_def new_Server_inv(3))

lemma run_returns_sim: "server_sim n s ds \<Longrightarrow> run_returns (d_server ds) = run_returns s"
  by (simp add: server_sim_def run_returns_def)

section \<open>Property\<close>

text \<open>
  C13. The two builds of the program are equivalent. For any arguments, any answers of the
  system and any schedule of completions that brings up to 2^60 bytes, the debug build ends
  exactly as the release build does, with the same exit code and the same text on standard
  error, or not at all, and it leaves the same log file, also after an exception.
\<close>

theorem debug_program_equivalent:
  assumes "(\<Sum>x \<leftarrow> xs. received_bytes (fst x)) \<le> payload_bound"
  shows "debug_program_main os library_text t_argv xs = program_main os library_text t_argv xs \<and>
         debug_program_log_file os t_argv xs = program_log_file os t_argv xs"
proof (cases "new_Server os (t_argv ! 1) (t_argv ! 2) (t_argv ! 3) (t_argv ! 4) (t_argv ! 5)")
  case (Inl e)
  show ?thesis
    unfolding debug_program_main_def program_main_def debug_program_log_file_def program_log_file_def
      new_DebugServer_def Inl by simp
next
  case (Inr s)
  let ?ds = "\<lparr>d_server = s, d_heap = Map.empty, d_cout = initial_cout\<rparr>"
  have bound: "0 + (\<Sum>x \<leftarrow> xs. received_bytes (fst x)) \<le> payload_bound" using assms by simp
  note start = new_server_sim [OF Inr]
  from debug_run_server_sim [OF start bound] show ?thesis
    unfolding debug_program_main_def program_main_def debug_program_log_file_def program_log_file_def
      new_DebugServer_def Inr bind_res_Inr sum.case
    using run_log_sim [OF start bound]
    by (cases rule: result_cases) (auto simp: run_returns_sim server_sim_def)
qed

theorem debug_program_equivalent_witness:
  "debug_program_main sample_os (\<lambda>_. []) [''proxy'', [], [], [], [], ''log'']
     [(accept_event, False), (connect_event, False), (byte_event, False)] = Still_running"
proof -
  let ?xs = "[(accept_event, False), (connect_event, False), (byte_event, False)]"
  let ?argv = "[''proxy'', [], [], [], [], ''log'']"
  have bound: "(\<Sum>x \<leftarrow> ?xs. received_bytes (fst x)) \<le> payload_bound"
    by (simp add: accept_event_def connect_event_def byte_event_def payload_bound_def)
  obtain s where s: "server_step (byte_event, False) connected = Inr s"
    "Connection_op sample_ptr (Async_read_some True) \<in># outstanding s"
    by (rule byte_step)
  then have "server_run ?xs fresh_server = Inr s" "\<not> run_returns s"
    using accept_step connect_step by (auto simp: server_run_def run_returns_def)
  then have "program_main sample_os (\<lambda>_. []) ?argv ?xs = Still_running"
    using new_sample_server by (simp add: program_main_def)
  then show ?thesis
    using debug_program_equivalent [OF bound, of sample_os "\<lambda>_. []" ?argv] by simp
qed

end
