(* ===== verification/Regex_Library.thy ===== *)
theory Regex_Library
  imports Prelude
begin

text \<open>
  What the samples use of Boost.Regex. The library itself is not part of the sources, so it is
  a parameter of the samples; this theory holds the documented meaning of the regular
  expressions, from which the hypotheses on that parameter are made: expressions as the
  datatype \<open>rx\<close>, their Perl syntax (\<open>rx_text\<close>), the ways in which they match (\<open>ways\<close>, in
  Perl's order of preference), searching, successive matches and replacing.
\<close>

section \<open>Expressions\<close>

text \<open>
  A string literal of the logic cannot hold a backslash, so literals that have one are written
  with a slash in its place; none of them has a slash of its own.
\<close>

definition backslash :: char where
  "backslash = CHR 0x5C"

definition esc :: "string \<Rightarrow> string" where
  "esc t = map (\<lambda>x. if x = CHR ''/'' then backslash else x) t"

text \<open>A character class is given by its text between the outer brackets or by an escape.\<close>

datatype rx =
    Class string
  | Seq rx rx
  | Alt rx rx
  | Rep rx nat "nat option"
  | Group nat rx
  | Plain rx
  | Ahead rx
  | Cond nat rx rx
  | When nat rx
  | Nothing
  | Buffer_start
  | Buffer_end

abbreviation digits_rx :: "nat \<Rightarrow> rx" where
  "digits_rx n \<equiv> Rep (Class (esc ''/d'')) n (Some n)"

definition nat_text :: "nat \<Rightarrow> string" where
  "nat_text n = (if n < 10 then [char_of (48 + n)] else [])"

fun times_text :: "nat \<Rightarrow> nat option \<Rightarrow> string" where
  "times_text lo hi =
     (if lo = 0 \<and> hi = None then ''*''
      else if lo = 1 \<and> hi = None then ''+''
      else if lo = 0 \<and> hi = Some 1 then ''?''
      else if hi = Some lo then ''{'' @ nat_text lo @ ''}''
      else ''{'' @ nat_text lo @ '','' @ (case hi of None \<Rightarrow> [] | Some m \<Rightarrow> nat_text m) @ ''}'')"

primrec rx_text :: "rx \<Rightarrow> string" where
  "rx_text (Class k) = k"
| "rx_text (Seq a b) = rx_text a @ rx_text b"
| "rx_text (Alt a b) = rx_text a @ ''|'' @ rx_text b"
| "rx_text (Rep a lo hi) = rx_text a @ times_text lo hi"
| "rx_text (Group n a) = ''('' @ rx_text a @ '')''"
| "rx_text (Plain a) = ''(?:'' @ rx_text a @ '')''"
| "rx_text (Ahead a) = ''(?='' @ rx_text a @ '')''"
| "rx_text (Cond n a b) = ''(?('' @ nat_text n @ '')'' @ rx_text a @ ''|'' @ rx_text b @ '')''"
| "rx_text (When n a) = ''(?('' @ nat_text n @ '')'' @ rx_text a @ '')''"
| "rx_text Nothing = []"
| "rx_text Buffer_start = esc ''/A''"
| "rx_text Buffer_end = esc ''/z''"

section \<open>Matching\<close>

text \<open>
  A position of the matcher: the text before it, the text after it, and what the groups have
  captured. \<open>mem\<close> tells which characters a class has.
\<close>

type_synonym 'c captures = "nat \<Rightarrow> 'c list option"
type_synonym 'c position = "'c list \<times> 'c list \<times> 'c captures"

primrec repeat_exactly :: "('p \<Rightarrow> 'p list) \<Rightarrow> nat \<Rightarrow> 'p \<Rightarrow> 'p list" where
  "repeat_exactly f 0 p = [p]"
| "repeat_exactly f (Suc n) p = concat (map (repeat_exactly f n) (f p))"

text \<open>A greedy repetition prefers a further turn, and takes none that matches the empty text.\<close>

primrec repeat_upto :: "('c position \<Rightarrow> 'c position list) \<Rightarrow> nat \<Rightarrow> 'c position \<Rightarrow> 'c position list" where
  "repeat_upto f 0 p = [p]"
| "repeat_upto f (Suc n) p =
     concat (map (repeat_upto f n) (filter (\<lambda>p'. length (fst (snd p')) < length (fst (snd p))) (f p))) @ [p]"

primrec ways :: "(string \<Rightarrow> 'c \<Rightarrow> bool) \<Rightarrow> rx \<Rightarrow> 'c position \<Rightarrow> 'c position list" where
  "ways mem (Class k) p =
     (case p of (u, [], c) \<Rightarrow> [] | (u, x # v, c) \<Rightarrow> if mem k x then [(u @ [x], v, c)] else [])"
| "ways mem (Seq a b) p = concat (map (ways mem b) (ways mem a p))"
| "ways mem (Alt a b) p = ways mem a p @ ways mem b p"
| "ways mem (Rep a lo hi) p =
     concat (map (\<lambda>p'. repeat_upto (ways mem a)
                          (case hi of None \<Rightarrow> length (fst (snd p')) | Some m \<Rightarrow> m - lo) p')
       (repeat_exactly (ways mem a) lo p))"
| "ways mem (Group n a) p =
     map (\<lambda>(u, v, c). (u, v, c(n \<mapsto> drop (length (fst p)) u))) (ways mem a p)"
| "ways mem (Plain a) p = ways mem a p"
| "ways mem (Ahead a) p =
     (case ways mem a p of [] \<Rightarrow> [] | (u, v, c) # ps \<Rightarrow> [(fst p, fst (snd p), c)])"
| "ways mem (Cond n a b) p = (if snd (snd p) n \<noteq> None then ways mem a p else ways mem b p)"
| "ways mem (When n a) p = (if snd (snd p) n \<noteq> None then ways mem a p else [p])"
| "ways mem Nothing p = [p]"
| "ways mem Buffer_start p = (if fst p = [] then [p] else [])"
| "ways mem Buffer_end p = (if fst (snd p) = [] then [p] else [])"

text \<open>A match of the whole text: the captures of the preferred way, group 0 being the match.\<close>

definition match_whole :: "(string \<Rightarrow> 'c \<Rightarrow> bool) \<Rightarrow> rx \<Rightarrow> 'c list \<Rightarrow> 'c captures option" where
  "match_whole mem r s =
     (case filter (\<lambda>(u, v, c). v = []) (ways mem r ([], s, Map.empty)) of
        [] \<Rightarrow> None
      | (u, v, c) # ps \<Rightarrow> Some (c(0 \<mapsto> u)))"

text \<open>
  The leftmost match in the text \<open>v\<close> that follows \<open>u\<close>: the text skipped, the captures, and the
  texts before and after its end.
\<close>

fun search_from ::
  "(string \<Rightarrow> 'c \<Rightarrow> bool) \<Rightarrow> rx \<Rightarrow> 'c list \<Rightarrow> 'c list \<Rightarrow> ('c list \<times> 'c captures \<times> 'c list \<times> 'c list) option" where
  "search_from mem r u v =
     (case ways mem r (u, v, Map.empty) of
        (u', v', c) # ps \<Rightarrow> Some ([], c(0 \<mapsto> drop (length u) u'), u', v')
      | [] \<Rightarrow>
          (case v of
             [] \<Rightarrow> None
           | x # w \<Rightarrow> map_option (\<lambda>(skipped, m). (x # skipped, m)) (search_from mem r (u @ [x]) w)))"

declare search_from.simps [simp del]

text \<open>
  The successive matches, each with the text skipped before it, and the text after the last.
  The bound is the number of matches looked for; a text has no more than one for each of its
  characters when no match is empty.
\<close>

primrec matches_from ::
  "(string \<Rightarrow> 'c \<Rightarrow> bool) \<Rightarrow> rx \<Rightarrow> nat \<Rightarrow> 'c list \<Rightarrow> 'c list \<Rightarrow> ('c list \<times> 'c captures) list \<times> 'c list" where
  "matches_from mem r 0 u v = ([], v)"
| "matches_from mem r (Suc n) u v =
     (case search_from mem r u v of
        None \<Rightarrow> ([], v)
      | Some (skipped, c, u', v') \<Rightarrow>
          (case matches_from mem r n u' v' of (ms, rest) \<Rightarrow> ((skipped, c) # ms, rest)))"

definition all_matches ::
  "(string \<Rightarrow> 'c \<Rightarrow> bool) \<Rightarrow> rx \<Rightarrow> 'c list \<Rightarrow> ('c list \<times> 'c captures) list \<times> 'c list" where
  "all_matches mem r s = matches_from mem r (Suc (length s)) [] s"

definition captured :: "'c captures \<Rightarrow> nat \<Rightarrow> 'c list" where
  "captured c n = (case c n of None \<Rightarrow> [] | Some t \<Rightarrow> t)"

text \<open>The digits, which are the characters of the class \<open>\d\<close>.\<close>

definition is_digit :: "char \<Rightarrow> bool" where
  "is_digit x \<longleftrightarrow> x \<in> set ''0123456789''"

text \<open>
  Format strings, of which only simple ones are needed: the escape character of the format (a
  backslash in sed's style, a dollar sign in Perl's) with the digit of one of the groups 1 to
  4, not followed by a further digit, stands for that group, and every character that has no
  special meaning in the style for itself. \<open>lit\<close> gives the character of the text for a
  character of the format.
\<close>

fun simple_format :: "char \<Rightarrow> string \<Rightarrow> string \<Rightarrow> bool" where
  "simple_format mark special [] = True"
| "simple_format mark special (x # f) =
     (if x = mark
      then (case f of
              [] \<Rightarrow> False
            | y # g \<Rightarrow> y \<in> set ''1234'' \<and> (g = [] \<or> \<not> is_digit (hd g)) \<and> simple_format mark special g)
      else x \<notin> set special \<and> simple_format mark special f)"

fun expand_format :: "char \<Rightarrow> (char \<Rightarrow> 'c) \<Rightarrow> string \<Rightarrow> 'c captures \<Rightarrow> 'c list" where
  "expand_format mark lit (x # y # f) c =
     (if x = mark
      then captured c (of_char y - 48) @ expand_format mark lit f c
      else lit x # expand_format mark lit (y # f) c)"
| "expand_format mark lit f c = map lit f"

text \<open>Every match is replaced by what \<open>f\<close> makes of its captures.\<close>

definition replace_matches ::
  "(string \<Rightarrow> 'c \<Rightarrow> bool) \<Rightarrow> rx \<Rightarrow> ('c captures \<Rightarrow> 'c list) \<Rightarrow> 'c list \<Rightarrow> 'c list" where
  "replace_matches mem r f s =
     (case all_matches mem r s of (ms, rest) \<Rightarrow> concat (map (\<lambda>(skipped, c). skipped @ f c) ms) @ rest)"

section \<open>Which ways there are\<close>

declare ways.simps [simp del]

lemma ways_Class [simp]:
  "ways mem (Class k) (u, [], c) = []"
  "ways mem (Class k) (u, x # v, c) = (if mem k x then [(u @ [x], v, c)] else [])"
  by (simp_all add: ways.simps)

lemma ways_Class_iff:
  "(u', v', c') \<in> set (ways mem (Class k) (u, v, c)) \<longleftrightarrow>
     (\<exists>x. v = x # v' \<and> mem k x \<and> u' = u @ [x] \<and> c' = c)"
  by (cases v) auto

lemma ways_Seq_iff:
  "q \<in> set (ways mem (Seq a b) p) \<longleftrightarrow>
     (\<exists>u v c. (u, v, c) \<in> set (ways mem a p) \<and> q \<in> set (ways mem b (u, v, c)))"
  by (force simp: ways.simps)

lemma ways_Alt [simp]: "ways mem (Alt a b) p = ways mem a p @ ways mem b p"
  by (simp add: ways.simps)

lemma ways_Group_iff:
  "(u', v', c') \<in> set (ways mem (Group n a) (u, v, c)) \<longleftrightarrow>
     (\<exists>c1. (u', v', c1) \<in> set (ways mem a (u, v, c)) \<and> c' = c1(n \<mapsto> drop (length u) u'))"
  by (force simp: ways.simps)

lemma ways_simple [simp]:
  "ways mem (Plain a) p = ways mem a p"
  "ways mem Nothing p = [p]"
  "ways mem Buffer_start (u, v, c) = (if u = [] then [(u, v, c)] else [])"
  "ways mem Buffer_end (u, v, c) = (if v = [] then [(u, v, c)] else [])"
  by (simp_all add: ways.simps)

lemma ex_word: "(\<exists>w. R w) \<longleftrightarrow> R [] \<or> (\<exists>x w. R (x # w))"
  by (metis list.exhaust)

lemma repeat_exactly_Class_iff:
  "(u', v', c') \<in> set (repeat_exactly (ways mem (Class k)) n (u, v, c)) \<longleftrightarrow>
     (\<exists>w. v = w @ v' \<and> u' = u @ w \<and> c' = c \<and> length w = n \<and> (\<forall>x \<in> set w. mem k x))"
proof (induction n arbitrary: u v)
  case 0
  then show ?case by auto
next
  case (Suc n)
  show ?case
    by (cases v) (auto simp: ex_word [where R = "\<lambda>w. _ = w @ _ \<and> _ w"] Suc)
qed

lemma repeat_upto_Class_iff:
  "(u', v', c') \<in> set (repeat_upto (ways mem (Class k)) n (u, v, c)) \<longleftrightarrow>
     (\<exists>w. v = w @ v' \<and> u' = u @ w \<and> c' = c \<and> length w \<le> n \<and> (\<forall>x \<in> set w. mem k x))"
proof (induction n arbitrary: u v)
  case 0
  then show ?case by auto
next
  case (Suc n)
  show ?case
    by (cases v) (auto simp: ex_word [where R = "\<lambda>w. _ = w @ _ \<and> _ w"] Suc)
qed

text \<open>
  An expression without captures and conditions is given by the words that it can match: it
  then takes any of them off the text, wherever it stands.
\<close>

definition consumes :: "(string \<Rightarrow> 'c \<Rightarrow> bool) \<Rightarrow> rx \<Rightarrow> ('c list \<Rightarrow> bool) \<Rightarrow> bool" where
  "consumes mem r P \<longleftrightarrow>
     (\<forall>u v c u' v' c'. (u', v', c') \<in> set (ways mem r (u, v, c)) \<longleftrightarrow>
        (\<exists>w. v = w @ v' \<and> P w \<and> u' = u @ w \<and> c' = c))"

lemma consumesD:
  "consumes mem r P \<Longrightarrow> (u', v', c') \<in> set (ways mem r (u, v, c)) \<longleftrightarrow>
     (\<exists>w. v = w @ v' \<and> P w \<and> u' = u @ w \<and> c' = c)"
  by (simp add: consumes_def)

lemma consumes_cong: "consumes mem r P \<Longrightarrow> (\<And>w. P w \<longleftrightarrow> Q w) \<Longrightarrow> consumes mem r Q"
  by (simp add: consumes_def)

lemma consumes_Class: "consumes mem (Class k) (\<lambda>w. \<exists>x. w = [x] \<and> mem k x)"
  by (auto simp: consumes_def ways_Class_iff)

lemma then_consumed:
  assumes "consumes mem a P"
  shows "q \<in> set (ways mem (Seq a r) (u, v, c)) \<longleftrightarrow>
     (\<exists>w v'. v = w @ v' \<and> P w \<and> q \<in> set (ways mem r (u @ w, v', c)))"
  unfolding ways_Seq_iff consumesD [OF assms] by blast

lemma captured_consumes:
  assumes "consumes mem a P"
  shows "(u', v', c') \<in> set (ways mem (Group n a) (u, v, c)) \<longleftrightarrow>
     (\<exists>w. v = w @ v' \<and> P w \<and> u' = u @ w \<and> c' = c(n \<mapsto> w))"
proof -
  have "(u', v', c') \<in> set (ways mem (Group n a) (u, v, c)) \<longleftrightarrow>
      (\<exists>w. v = w @ v' \<and> P w \<and> u' = u @ w \<and> c' = c(n \<mapsto> drop (length u) u'))"
    unfolding ways_Group_iff consumesD [OF assms] by blast
  also have "\<dots> \<longleftrightarrow> (\<exists>w. v = w @ v' \<and> P w \<and> u' = u @ w \<and> c' = c(n \<mapsto> w))"
    by (intro ex_cong1 conj_cong refl) simp
  finally show ?thesis .
qed

lemma then_captured:
  assumes "consumes mem a P"
  shows "q \<in> set (ways mem (Seq (Group n a) r) (u, v, c)) \<longleftrightarrow>
     (\<exists>w v'. v = w @ v' \<and> P w \<and> q \<in> set (ways mem r (u @ w, v', c(n \<mapsto> w))))"
  unfolding ways_Seq_iff captured_consumes [OF assms] by blast

lemma ex_words:
  "(\<exists>w1 v1. v = w1 @ v1 \<and> P w1 \<and> (\<exists>w2. v1 = w2 @ v' \<and> R w1 w2)) \<longleftrightarrow>
   (\<exists>w1 w2. v = w1 @ w2 @ v' \<and> P w1 \<and> R w1 w2)"
  by (rule iffI; clarify; intro exI conjI; (rule refl | assumption)+)

lemma consumes_Seq:
  assumes "consumes mem a P" and "consumes mem b Q"
  shows "consumes mem (Seq a b) (\<lambda>w. \<exists>w1 w2. w = w1 @ w2 \<and> P w1 \<and> Q w2)"
proof -
  have "(u', v', c') \<in> set (ways mem (Seq a b) (u, v, c)) \<longleftrightarrow>
      (\<exists>w1 w2. v = w1 @ w2 @ v' \<and> P w1 \<and> Q w2 \<and> u' = u @ w1 @ w2 \<and> c' = c)" for u v c u' v' c'
    unfolding then_consumed [OF assms(1)] consumesD [OF assms(2)] append_assoc by (rule ex_words)
  moreover have "(\<exists>w. v = w @ v' \<and> (\<exists>w1 w2. w = w1 @ w2 \<and> P w1 \<and> Q w2) \<and> u' = u @ w \<and> c' = c) \<longleftrightarrow>
      (\<exists>w1 w2. v = (w1 @ w2) @ v' \<and> P w1 \<and> Q w2 \<and> u' = u @ w1 @ w2 \<and> c' = c)" for u v u' v' and c c' :: "'a captures"
    by (rule iffI; clarify; intro exI conjI; (rule refl | assumption)+)
  ultimately show ?thesis unfolding consumes_def append_assoc by simp
qed

lemma repeated_Class_iff:
  "(u', v', c') \<in> set (ways mem (Rep (Class k) lo hi) (u, v, c)) \<longleftrightarrow>
     (\<exists>w1 w2. v = w1 @ w2 @ v' \<and> u' = u @ w1 @ w2 \<and> c' = c \<and> length w1 = lo \<and>
        (\<forall>m. hi = Some m \<longrightarrow> length w2 \<le> m - lo) \<and> (\<forall>x \<in> set (w1 @ w2). mem k x))"
proof -
  let ?bound = "\<lambda>t :: 'a list. case hi of None \<Rightarrow> length t | Some m \<Rightarrow> m - lo"
  have "(u', v', c') \<in> set (ways mem (Rep (Class k) lo hi) (u, v, c)) \<longleftrightarrow>
      (\<exists>u1 v1 c1. (u1, v1, c1) \<in> set (repeat_exactly (ways mem (Class k)) lo (u, v, c)) \<and>
         (u', v', c') \<in> set (repeat_upto (ways mem (Class k)) (?bound v1) (u1, v1, c1)))"
    unfolding ways.simps(4) by (cases hi) force+
  also have "\<dots> \<longleftrightarrow> (\<exists>w1 w2. v = w1 @ w2 @ v' \<and> u' = u @ w1 @ w2 \<and> c' = c \<and> length w1 = lo \<and>
      length w2 \<le> ?bound (w2 @ v') \<and> (\<forall>x \<in> set w1. mem k x) \<and> (\<forall>x \<in> set w2. mem k x))"
    unfolding repeat_exactly_Class_iff repeat_upto_Class_iff
  proof (rule iffI, goal_cases)
    case 1
    then show ?case by clarify (intro exI conjI, (rule refl append_assoc | assumption)+)
  next
    case 2
    then show ?case by clarify (intro exI conjI, (rule refl append_assoc [symmetric] | assumption)+)
  qed
  also have "\<dots> \<longleftrightarrow> (\<exists>w1 w2. v = w1 @ w2 @ v' \<and> u' = u @ w1 @ w2 \<and> c' = c \<and> length w1 = lo \<and>
        (\<forall>m. hi = Some m \<longrightarrow> length w2 \<le> m - lo) \<and> (\<forall>x \<in> set (w1 @ w2). mem k x))"
    by (intro ex_cong1 conj_cong refl) (auto split: option.splits)
  finally show ?thesis .
qed

text \<open>A repeated class: a word of such characters, of a length between the bounds.\<close>

lemma consumes_Rep:
  assumes "\<And>m. hi = Some m \<Longrightarrow> lo \<le> m"
  shows "consumes mem (Rep (Class k) lo hi)
     (\<lambda>w. lo \<le> length w \<and> (\<forall>m. hi = Some m \<longrightarrow> length w \<le> m) \<and> (\<forall>x \<in> set w. mem k x))"
  unfolding consumes_def repeated_Class_iff
proof (intro allI iffI)
  fix u v u' v' :: "'a list" and c c' :: "'a captures"
  assume "\<exists>w1 w2. v = w1 @ w2 @ v' \<and> u' = u @ w1 @ w2 \<and> c' = c \<and> length w1 = lo \<and>
        (\<forall>m. hi = Some m \<longrightarrow> length w2 \<le> m - lo) \<and> (\<forall>x \<in> set (w1 @ w2). mem k x)"
  then obtain w1 w2 where "v = w1 @ w2 @ v'" "u' = u @ w1 @ w2" "c' = c" "length w1 = lo"
    "\<forall>m. hi = Some m \<longrightarrow> length w2 \<le> m - lo" "\<forall>x \<in> set (w1 @ w2). mem k x" by blast
  then show "\<exists>w. v = w @ v' \<and> (lo \<le> length w \<and> (\<forall>m. hi = Some m \<longrightarrow> length w \<le> m) \<and> (\<forall>x \<in> set w. mem k x)) \<and>
      u' = u @ w \<and> c' = c"
    using assms by (intro exI [of _ "w1 @ w2"]) fastforce
next
  fix u v u' v' :: "'a list" and c c' :: "'a captures"
  assume "\<exists>w. v = w @ v' \<and> (lo \<le> length w \<and> (\<forall>m. hi = Some m \<longrightarrow> length w \<le> m) \<and> (\<forall>x \<in> set w. mem k x)) \<and>
      u' = u @ w \<and> c' = c"
  then obtain w where "v = w @ v'" "u' = u @ w" "c' = c" "lo \<le> length w"
    "\<forall>m. hi = Some m \<longrightarrow> length w \<le> m" "\<forall>x \<in> set w. mem k x" by blast
  then show "\<exists>w1 w2. v = w1 @ w2 @ v' \<and> u' = u @ w1 @ w2 \<and> c' = c \<and> length w1 = lo \<and>
        (\<forall>m. hi = Some m \<longrightarrow> length w2 \<le> m - lo) \<and> (\<forall>x \<in> set (w1 @ w2). mem k x)"
    by (intro exI [of _ "take lo w"] exI [of _ "drop lo w"])
      (auto simp flip: append_assoc dest: in_set_takeD in_set_dropD)
qed

lemma consumes_Rep_Class:
  assumes "lo \<le> hi"
  shows "consumes mem (Rep (Class k) lo (Some hi))
     (\<lambda>w. lo \<le> length w \<and> length w \<le> hi \<and> (\<forall>x \<in> set w. mem k x))"
  by (rule consumes_cong [OF consumes_Rep]) (simp_all add: assms)

lemma consumes_Rep_any:
  "consumes mem (Rep (Class k) lo None) (\<lambda>w. lo \<le> length w \<and> (\<forall>x \<in> set w. mem k x))"
  by (rule consumes_cong [OF consumes_Rep]) simp_all

text \<open>A lookahead asks for a word and takes nothing.\<close>

lemma then_ahead:
  assumes "consumes mem a P"
  shows "q \<in> set (ways mem (Seq (Ahead a) r) (u, v, c)) \<longleftrightarrow>
     (\<exists>w v'. v = w @ v' \<and> P w) \<and> q \<in> set (ways mem r (u, v, c))"
proof (cases "ways mem a (u, v, c)")
  case Nil
  then have "\<nexists>w v'. v = w @ v' \<and> P w"
    using consumesD [OF assms, of _ _ _ u v c] by (metis empty_iff list.set(1))
  then show ?thesis using Nil by (simp add: ways.simps)
next
  case (Cons p ps)
  obtain u' v' c' where p: "p = (u', v', c')" by (cases p)
  have "p \<in> set (ways mem a (u, v, c))" using Cons by simp
  then have "c' = c" and "\<exists>w v'. v = w @ v' \<and> P w"
    unfolding p consumesD [OF assms] by blast+
  then show ?thesis using Cons p by (simp add: ways.simps)
qed

text \<open>A fixed number of turns of an expression, one at a time.\<close>

lemma ways_Rep_fixed: "ways mem (Rep a n (Some n)) p = repeat_exactly (ways mem a) n p"
  by (simp add: ways.simps)

lemma then_turns_iff:
  "q \<in> set (ways mem (Seq (Rep a (Suc n) (Some (Suc n))) r) p) \<longleftrightarrow>
     q \<in> set (ways mem (Seq a (Seq (Rep a n (Some n)) r)) p)"
  "q \<in> set (ways mem (Seq (Rep a 0 (Some 0)) r) p) \<longleftrightarrow> q \<in> set (ways mem r p)"
  unfolding ways.simps(2) ways_Rep_fixed by auto

section \<open>Matching, searching and replacing\<close>

lemma match_whole_None_iff:
  "match_whole mem r s = None \<longleftrightarrow> (\<forall>u c. (u, [], c) \<notin> set (ways mem r ([], s, Map.empty)))"
proof -
  have "match_whole mem r s = None \<longleftrightarrow> filter (\<lambda>(u, v, c). v = []) (ways mem r ([], s, Map.empty)) = []"
    by (simp add: match_whole_def split: list.splits)
  then show ?thesis by (auto simp: filter_empty_conv)
qed

lemma match_whole_Some:
  assumes "match_whole mem r s = Some c"
  obtains u c1 where "(u, [], c1) \<in> set (ways mem r ([], s, Map.empty))" and "c = c1(0 \<mapsto> u)"
proof -
  obtain u v c1 ps where "filter (\<lambda>(u, v, c). v = []) (ways mem r ([], s, Map.empty)) = (u, v, c1) # ps"
    and c: "c = c1(0 \<mapsto> u)"
    using assms by (auto simp: match_whole_def split: list.splits)
  then have "(u, v, c1) \<in> set (filter (\<lambda>(u, v, c). v = []) (ways mem r ([], s, Map.empty)))"
    by simp
  then show ?thesis using that c by auto
qed

text \<open>An expression that starts with \<open>\A\<close> matches only at the start of the text.\<close>

lemma ways_anchored:
  "ways mem (Seq Buffer_start r) (u, v, c) = (if u = [] then ways mem r (u, v, c) else [])"
  by (simp add: ways.simps)

lemma search_from_anchored:
  assumes "u \<noteq> []"
  shows "search_from mem (Seq Buffer_start r) u v = None"
  using assms
  by (induction v arbitrary: u)
    (simp_all add: ways_anchored search_from.simps [of _ _ _ "[]"] search_from.simps [of _ _ _ "_ # _"])

lemma replace_anchored:
  assumes "s \<noteq> []" and "\<And>q. q \<in> set (ways mem (Seq Buffer_start r) ([], s, Map.empty)) \<longleftrightarrow> q = (s, [], c)"
  shows "replace_matches mem (Seq Buffer_start r) f s = f (c(0 \<mapsto> s))"
proof -
  let ?W = "ways mem (Seq Buffer_start r) ([], s, Map.empty)"
  have "hd ?W = (s, [], c)" and "?W \<noteq> []"
    using assms(2) [of "hd ?W"] assms(2) [of "(s, [], c)"] by (metis empty_iff hd_in_set list.set(1))+
  then obtain ps where W: "?W = (s, [], c) # ps" by (cases ?W) auto
  have "search_from mem (Seq Buffer_start r) [] s = Some ([], c(0 \<mapsto> s), s, [])"
    unfolding search_from.simps [of _ _ _ s] W by simp
  moreover have "matches_from mem (Seq Buffer_start r) n s [] = ([], [])" for n
    using assms(1) by (cases n) (simp_all add: search_from_anchored)
  ultimately show ?thesis
    by (simp add: replace_matches_def all_matches_def)
qed

lemma replace_unmatched:
  assumes "ways mem (Seq Buffer_start r) ([], s, Map.empty) = []"
  shows "replace_matches mem (Seq Buffer_start r) f s = s"
proof -
  have "search_from mem (Seq Buffer_start r) [] s = None"
    unfolding search_from.simps [of _ _ _ s] assms by (cases s) (simp_all add: search_from_anchored)
  then show ?thesis by (simp add: replace_matches_def all_matches_def)
qed

section \<open>Only the characters that occur matter\<close>

primrec rx_classes :: "rx \<Rightarrow> string set" where
  "rx_classes (Class k) = {k}"
| "rx_classes (Seq a b) = rx_classes a \<union> rx_classes b"
| "rx_classes (Alt a b) = rx_classes a \<union> rx_classes b"
| "rx_classes (Rep a lo hi) = rx_classes a"
| "rx_classes (Group n a) = rx_classes a"
| "rx_classes (Plain a) = rx_classes a"
| "rx_classes (Ahead a) = rx_classes a"
| "rx_classes (Cond n a b) = rx_classes a \<union> rx_classes b"
| "rx_classes (When n a) = rx_classes a"
| "rx_classes Nothing = {}"
| "rx_classes Buffer_start = {}"
| "rx_classes Buffer_end = {}"

text \<open>Positions with characters of \<open>X\<close> ahead, functions that keep to them, and agree on them.\<close>

definition ahead_in :: "'c set \<Rightarrow> 'c position \<Rightarrow> bool" where
  "ahead_in X p \<longleftrightarrow> set (fst (snd p)) \<subseteq> X"

definition stays_in :: "'c set \<Rightarrow> ('c position \<Rightarrow> 'c position list) \<Rightarrow> bool" where
  "stays_in X f \<longleftrightarrow> (\<forall>p q. ahead_in X p \<longrightarrow> q \<in> set (f p) \<longrightarrow> ahead_in X q)"

definition agrees_on :: "'c set \<Rightarrow> ('c position \<Rightarrow> 'c position list) \<Rightarrow> ('c position \<Rightarrow> 'c position list) \<Rightarrow> bool" where
  "agrees_on X f g \<longleftrightarrow> (\<forall>p. ahead_in X p \<longrightarrow> f p = g p)"

lemma stays_bind:
  assumes "stays_in X f" and "stays_in X g"
  shows "stays_in X (\<lambda>p. concat (map g (f p)))"
  unfolding stays_in_def
proof (intro allI impI)
  fix p q
  assume "ahead_in X p" and "q \<in> set (concat (map g (f p)))"
  moreover then obtain p' where "p' \<in> set (f p)" "q \<in> set (g p')" by auto
  ultimately show "ahead_in X q" using assms unfolding stays_in_def by blast
qed

lemma agrees_bind:
  assumes "stays_in X f" and "agrees_on X f f'" and "agrees_on X g g'"
  shows "agrees_on X (\<lambda>p. concat (map g (f p))) (\<lambda>p. concat (map g' (f' p)))"
  unfolding agrees_on_def
proof (intro allI impI)
  fix p
  assume p: "ahead_in X p"
  have "map g (f p) = map g' (f p)"
    using assms(1,3) p unfolding stays_in_def agrees_on_def by (intro map_cong refl) blast
  moreover have "f p = f' p" using assms(2) p unfolding agrees_on_def by blast
  ultimately show "concat (map g (f p)) = concat (map g' (f' p))" by argo
qed

lemma stays_filter: "stays_in X f \<Longrightarrow> stays_in X (\<lambda>p. filter (P p) (f p))"
  by (simp add: stays_in_def)

lemma agrees_filter: "agrees_on X f g \<Longrightarrow> agrees_on X (\<lambda>p. filter (P p) (f p)) (\<lambda>p. filter (P p) (g p))"
  by (simp add: agrees_on_def)

lemma stays_append: "stays_in X f \<Longrightarrow> stays_in X g \<Longrightarrow> stays_in X (\<lambda>p. f p @ g p)"
  unfolding stays_in_def set_append Un_iff by blast

lemma stays_if:
  assumes "stays_in X f" and "stays_in X g"
  shows "stays_in X (\<lambda>p. if P p then f p else g p)"
  unfolding stays_in_def
proof (intro allI impI)
  fix p q
  assume "ahead_in X p" and "q \<in> set (if P p then f p else g p)"
  moreover from this(2) have "q \<in> set (f p) \<or> q \<in> set (g p)" by (metis (full_types))
  ultimately show "ahead_in X q" using assms unfolding stays_in_def by blast
qed

lemma stays_here: "stays_in X (\<lambda>p. [p])"
  by (simp add: stays_in_def)

lemma repeat_exactly_stays: "stays_in X f \<Longrightarrow> stays_in X (repeat_exactly f n)"
proof (induction n)
  case 0
  show ?case by (simp add: stays_in_def)
next
  case (Suc n)
  have turns: "repeat_exactly f (Suc n) = (\<lambda>p. concat (map (repeat_exactly f n) (f p)))"
    by (rule ext) simp
  show ?case unfolding turns by (rule stays_bind [OF Suc.prems Suc.IH [OF Suc.prems]])
qed

lemma repeat_upto_stays: "stays_in X f \<Longrightarrow> stays_in X (repeat_upto f n)"
proof (induction n)
  case 0
  show ?case by (simp add: stays_in_def)
next
  case (Suc n)
  have turns: "repeat_upto f (Suc n) = (\<lambda>p. concat (map (repeat_upto f n)
      (filter (\<lambda>p'. length (fst (snd p')) < length (fst (snd p))) (f p))) @ [p])"
    by (rule ext) simp
  show ?case
    unfolding turns
    by (rule stays_append [OF stays_bind [OF stays_filter [OF Suc.prems] Suc.IH [OF Suc.prems]] stays_here])
qed

lemma repeat_exactly_agrees:
  assumes "stays_in X f" and "agrees_on X f g"
  shows "agrees_on X (repeat_exactly f n) (repeat_exactly g n)"
proof (induction n)
  case 0
  show ?case by (simp add: agrees_on_def)
next
  case (Suc n)
  then show ?case using agrees_bind [OF assms Suc] by (simp add: agrees_on_def)
qed

lemma repeat_upto_agrees:
  assumes "stays_in X f" and "agrees_on X f g"
  shows "agrees_on X (repeat_upto f n) (repeat_upto g n)"
proof (induction n)
  case 0
  show ?case by (simp add: agrees_on_def)
next
  case (Suc n)
  let ?P = "\<lambda>p p'. length (fst (snd p')) < length (fst (snd p))"
  show ?case
    using agrees_bind [OF stays_filter [OF assms(1), of ?P] agrees_filter [OF assms(2), of ?P] Suc]
    by (simp add: agrees_on_def)
qed

lemma rep_bind:
  "ways mem (Rep a lo hi) = (\<lambda>p. concat (map (\<lambda>p'. repeat_upto (ways mem a)
     (case hi of None \<Rightarrow> length (fst (snd p')) | Some m \<Rightarrow> m - lo) p') (repeat_exactly (ways mem a) lo p)))"
  by (rule ext) (simp add: ways.simps(4))

lemma ways_stays: "stays_in X (ways mem r)"
proof (induction r)
  case (Seq a b)
  have "ways mem (Seq a b) = (\<lambda>p. concat (map (ways mem b) (ways mem a p)))"
    by (rule ext) (rule ways.simps)
  then show ?case using stays_bind [OF Seq] by simp
next
  case (Rep r lo hi)
  have "stays_in X (\<lambda>p. repeat_upto (ways mem r) (n p) p)" for n
    using repeat_upto_stays [OF Rep] by (simp add: stays_in_def)
  then show ?case
    unfolding rep_bind by (intro stays_bind repeat_exactly_stays Rep)
next
  case (Ahead a)
  then show ?case by (auto simp: stays_in_def ways.simps ahead_in_def split: list.splits)
next
  case (Group n a)
  then show ?case unfolding stays_in_def ways.simps ahead_in_def by fastforce
next
  case (Class k)
  show ?case by (auto simp: stays_in_def ways.simps ahead_in_def split: list.splits if_splits)
next
  case (Alt a b)
  then show ?case unfolding stays_in_def ways.simps(3) set_append by blast
next
  case (Cond n a b)
  have "ways mem (Cond n a b) = (\<lambda>p. if snd (snd p) n \<noteq> None then ways mem a p else ways mem b p)"
    by (rule ext) (rule ways.simps)
  then show ?case using stays_if [OF Cond] by simp
next
  case (When n a)
  have "ways mem (When n a) = (\<lambda>p. if snd (snd p) n \<noteq> None then ways mem a p else [p])"
    by (rule ext) (rule ways.simps)
  then show ?case using stays_if [OF When stays_here] by simp
qed (simp_all add: stays_in_def ways.simps(6,10,11,12))

lemma ways_agrees:
  assumes "\<And>k x. k \<in> rx_classes r \<Longrightarrow> x \<in> X \<Longrightarrow> mem k x = mem' k x"
  shows "agrees_on X (ways mem r) (ways mem' r)"
  using assms
proof (induction r)
  case (Class k)
  then show ?case by (auto simp: agrees_on_def ways.simps(1) ahead_in_def split: list.splits)
next
  case (Seq a b)
  then have "agrees_on X (ways mem a) (ways mem' a)" "agrees_on X (ways mem b) (ways mem' b)" by simp_all
  then show ?case
    using agrees_bind [OF ways_stays] unfolding agrees_on_def ways.simps(2) by blast
next
  case (Rep r lo hi)
  then have same: "agrees_on X (ways mem r) (ways mem' r)" by simp
  have "agrees_on X (\<lambda>p. repeat_upto (ways mem r) (n p) p) (\<lambda>p. repeat_upto (ways mem' r) (n p) p)" for n
    using repeat_upto_agrees [OF ways_stays same] by (simp add: agrees_on_def)
  then show ?case
    unfolding rep_bind by (intro agrees_bind repeat_exactly_stays repeat_exactly_agrees ways_stays same)
qed (simp_all add: agrees_on_def ways.simps)


text \<open>Two memberships that agree on the classes of an expression and the characters \<open>X\<close>.\<close>

definition same_classes :: "'c set \<Rightarrow> rx \<Rightarrow> (string \<Rightarrow> 'c \<Rightarrow> bool) \<Rightarrow> (string \<Rightarrow> 'c \<Rightarrow> bool) \<Rightarrow> bool" where
  "same_classes X r mem mem' \<longleftrightarrow> (\<forall>k \<in> rx_classes r. \<forall>x \<in> X. mem k x = mem' k x)"

lemma ways_cong:
  assumes "same_classes X r mem mem'" and "set v \<subseteq> X"
  shows "ways mem r (u, v, c) = ways mem' r (u, v, c)"
proof -
  have "agrees_on X (ways mem r) (ways mem' r)"
    by (rule ways_agrees) (use assms(1) in \<open>simp add: same_classes_def\<close>)
  then show ?thesis using assms(2) by (simp add: agrees_on_def ahead_in_def)
qed

lemma ways_shrink: "(u', v', c') \<in> set (ways mem r (u, v, c)) \<Longrightarrow> set v' \<subseteq> set v"
  using ways_stays [of "set v" mem r] unfolding stays_in_def ahead_in_def by fastforce

lemma match_whole_cong:
  "same_classes X r mem mem' \<Longrightarrow> set t \<subseteq> X \<Longrightarrow> match_whole mem r t = match_whole mem' r t"
  using ways_cong [of X r mem mem' t] by (simp add: match_whole_def)

lemma search_from_cong:
  assumes "same_classes X r mem mem'" and "set t \<subseteq> X"
  shows "search_from mem r u t = search_from mem' r u t"
  using assms(2)
proof (induction t arbitrary: u)
  case Nil
  then show ?case
    using ways_cong [OF assms(1), of "[]" u Map.empty]
    by (auto simp: search_from.simps [of _ _ _ "[]"] split: list.split)
next
  case (Cons x t)
  then show ?case
    using ways_cong [OF assms(1), of "x # t" u Map.empty]
    by (auto simp: search_from.simps [of _ _ _ "x # t"] split: list.split)
qed

lemma search_from_way:
  assumes "search_from mem r u t = Some (skipped, c, u', v')"
  shows "\<exists>v c1. t = skipped @ v \<and> (u', v', c1) \<in> set (ways mem r (u @ skipped, v, Map.empty))"
  using assms
proof (induction t arbitrary: u skipped)
  case Nil
  then show ?case by (auto simp: search_from.simps [of _ _ _ "[]"] split: list.splits)
next
  case (Cons x t)
  show ?case
  proof (cases "ways mem r (u, x # t, Map.empty)")
    case Nil
    then obtain skipped' where "search_from mem r (u @ [x]) t = Some (skipped', c, u', v')"
      and "skipped = x # skipped'"
      using Cons.prems by (auto simp: search_from.simps [of _ _ _ "x # t"])
    then show ?thesis using Cons.IH [of "u @ [x]" skipped'] by auto
  next
    case (Cons q qs)
    then show ?thesis
      using Cons.prems by (auto simp: search_from.simps [of _ _ _ "x # t"] split: prod.splits)
  qed
qed

lemma search_from_shrinks:
  assumes "search_from mem r u t = Some (skipped, c, u', v')"
  shows "set v' \<subseteq> set t"
  using search_from_way [OF assms] ways_shrink by fastforce

lemma matches_from_cong:
  assumes "same_classes X r mem mem'" and "set t \<subseteq> X"
  shows "matches_from mem r n u t = matches_from mem' r n u t"
  using assms(2)
proof (induction n arbitrary: u t)
  case (Suc n)
  have "search_from mem r u t = search_from mem' r u t"
    using search_from_cong [OF assms(1) Suc.prems] .
  moreover have "matches_from mem r n u' v' = matches_from mem' r n u' v'"
    if "search_from mem' r u t = Some (skipped, c, u', v')" for skipped c u' v'
    using Suc search_from_shrinks [OF that] by blast
  ultimately show ?case by (simp split: option.splits prod.splits)
qed simp

lemma all_matches_cong:
  "same_classes X r mem mem' \<Longrightarrow> set t \<subseteq> X \<Longrightarrow> all_matches mem r t = all_matches mem' r t"
  unfolding all_matches_def by (rule matches_from_cong)

lemma replace_matches_cong:
  "same_classes X r mem mem' \<Longrightarrow> set t \<subseteq> X \<Longrightarrow> replace_matches mem r f t = replace_matches mem' r f t"
  by (simp add: replace_matches_def all_matches_cong)


text \<open>The bound on the number of matches does not matter when no match is empty.\<close>

definition never_empty :: "(string \<Rightarrow> 'c \<Rightarrow> bool) \<Rightarrow> rx \<Rightarrow> bool" where
  "never_empty mem r \<longleftrightarrow>
     (\<forall>u v u' v' c'. (u', v', c') \<in> set (ways mem r (u, v, Map.empty)) \<longrightarrow> length v' < length v)"

lemma search_from_shorter:
  assumes "never_empty mem r" and "search_from mem r u t = Some (skipped, c, u', v')"
  shows "length v' < length t"
  using search_from_way [OF assms(2)] assms(1) unfolding never_empty_def by fastforce

lemma matches_from_enough:
  assumes "never_empty mem r" and "length t < n"
  shows "matches_from mem r n u t = matches_from mem r (Suc (length t)) u t"
  using assms(2)
proof (induction "length t" arbitrary: n u t rule: less_induct)
  case less
  then obtain m where n: "n = Suc m" "length t \<le> m" by (cases n) auto
  have "matches_from mem r m u' v' = matches_from mem r (length t) u' v'"
    if "search_from mem r u t = Some (skipped, c, u', v')" for skipped c u' v'
  proof -
    have "length v' < length t" by (rule search_from_shorter [OF assms(1) that])
    then show ?thesis using less.hyps [of v' m u'] less.hyps [of v' "length t" u'] n by simp
  qed
  then show ?case by (simp add: n split: option.splits prod.splits)
qed

end
