(* ===== verification/Card_Samples.thy ===== *)
theory Card_Samples
  imports Regex_Library
begin

text \<open>
  The credit card sample of the packaged Boost (example_regex.cpp) and the test made from it
  (example_test_regex.cpp), under libs/LibCMaker_Boost. Boost.Regex is the parameter
  \<open>regex_library\<close>; what the sample relies on is \<open>boost_ok\<close>. Shown: which texts the validation
  accepts, how card numbers are reformatted, that the two formats are inverse, and the whole
  output of the programs.
\<close>

section \<open>The library and the sample\<close>

text \<open>The flags of \<open>boost::match_flag_type\<close> that the sample combines.\<close>

datatype match_flag = Match_default | Format_sed

record regex_library =
  regex_match :: "string \<Rightarrow> string \<Rightarrow> bool"
  regex_replace :: "string \<Rightarrow> string \<Rightarrow> string \<Rightarrow> match_flag set \<Rightarrow> string"

definition validate_card_format :: "regex_library \<Rightarrow> string \<Rightarrow> bool" where
  "validate_card_format lib s = regex_match lib s (esc ''(/d{4}[- ]){3}/d{4}'')"

definition card_expression :: string where
  "card_expression = esc ''/A(/d{3,4})[- ]?(/d{4})[- ]?(/d{4})[- ]?(/d{4})/z''"

definition machine_format :: string where
  "machine_format = esc ''/1/2/3/4''"

definition human_format :: string where
  "human_format = esc ''/1-/2-/3-/4''"

definition machine_readable_card_number :: "regex_library \<Rightarrow> string \<Rightarrow> string" where
  "machine_readable_card_number lib s =
     regex_replace lib s card_expression machine_format {Match_default, Format_sed}"

definition human_readable_card_number :: "regex_library \<Rightarrow> string \<Rightarrow> string" where
  "human_readable_card_number lib s =
     regex_replace lib s card_expression human_format {Match_default, Format_sed}"

definition sample_numbers :: "string list" where
  "sample_numbers =
     [''0000111122223333'', ''0000 1111 2222 3333'', ''0000-1111-2222-3333'', ''000-1111-2222-3333'']"

definition result_line :: "string \<Rightarrow> string \<Rightarrow> string \<Rightarrow> string" where
  "result_line f s r = f @ ''('' @ [CHR 0x22] @ s @ [CHR 0x22] @ '') returned '' @ r @ [CHR 0x0A]"

text \<open>The output of the sample and its exit code; the test prints the same and then succeeds.\<close>

definition sample_output :: "regex_library \<Rightarrow> string" where
  "sample_output lib =
     concat (map (\<lambda>i. let s = sample_numbers ! i in
       result_line ''validate_card_format'' s (if validate_card_format lib s then ''1'' else ''0'')) [0..<4]) @
     concat (map (\<lambda>i. let s = sample_numbers ! i in
       result_line ''machine_readable_card_number'' s (machine_readable_card_number lib s)) [0..<4]) @
     concat (map (\<lambda>i. let s = sample_numbers ! i in
       result_line ''human_readable_card_number'' s (human_readable_card_number lib s)) [0..<4])"

definition example_regex_main :: "regex_library \<Rightarrow> string \<times> nat" where
  "example_regex_main lib = (sample_output lib, 0)"

definition example_test :: "regex_library \<Rightarrow> string \<times> bool" where
  "example_test lib = (sample_output lib, True)"

section \<open>The expressions\<close>

definition separator_rx :: rx where
  "separator_rx = Class ''[- ]''"

definition validate_rx :: rx where
  "validate_rx = Seq (Rep (Group 1 (Seq (digits_rx 4) separator_rx)) 3 (Some 3)) (digits_rx 4)"

definition card_rx :: rx where
  "card_rx =
     Seq Buffer_start (Seq (Group 1 (Rep (Class (esc ''/d'')) 3 (Some 4)))
       (Seq (Rep separator_rx 0 (Some 1)) (Seq (Group 2 (digits_rx 4))
       (Seq (Rep separator_rx 0 (Some 1)) (Seq (Group 3 (digits_rx 4))
       (Seq (Rep separator_rx 0 (Some 1)) (Seq (Group 4 (digits_rx 4)) Buffer_end)))))))"

lemma validate_text: "rx_text validate_rx = esc ''(/d{4}[- ]){3}/d{4}''"
  by code_simp

lemma card_text: "rx_text card_rx = card_expression"
  by code_simp

text \<open>The two classes of the expressions.\<close>

definition is_separator :: "char \<Rightarrow> bool" where
  "is_separator x \<longleftrightarrow> x = CHR ''-'' \<or> x = CHR '' ''"

definition in_class :: "string \<Rightarrow> char \<Rightarrow> bool" where
  "in_class k x =
     (if k = esc ''/d'' then is_digit x else if k = ''[- ]'' then is_separator x else False)"

text \<open>
  What the library is documented to do with these expressions: they match in the ways of the
  Perl syntax, and with these flags \<open>regex_replace\<close> replaces every match by its sed-style
  format. The formats concerned are the simple ones: in sed's style the backslash and the
  ampersand are special.
\<close>

definition sed_format :: "string \<Rightarrow> bool" where
  "sed_format fmt \<longleftrightarrow> simple_format backslash [backslash, CHR ''&''] fmt"

definition boost_ok :: "regex_library \<Rightarrow> bool" where
  "boost_ok lib \<longleftrightarrow>
     (\<forall>s. regex_match lib s (rx_text validate_rx) \<longleftrightarrow> match_whole in_class validate_rx s \<noteq> None) \<and>
     (\<forall>s fmt. sed_format fmt \<longrightarrow>
        regex_replace lib s (rx_text card_rx) fmt {Match_default, Format_sed} =
          replace_matches in_class card_rx (expand_format backslash id fmt) s)"

text \<open>A library that keeps to it.\<close>

definition reference_library :: regex_library where
  "reference_library =
     \<lparr>regex_match = (\<lambda>s p. match_whole in_class validate_rx s \<noteq> None),
      regex_replace = (\<lambda>s p fmt flags. replace_matches in_class card_rx (expand_format backslash id fmt) s)\<rparr>"

lemma reference_library_ok: "boost_ok reference_library"
  by (simp add: boost_ok_def reference_library_def)

section \<open>Card numbers\<close>

text \<open>A number as four groups of digits, and the texts that separate them.\<close>

definition card_groups :: "string \<Rightarrow> string \<Rightarrow> string \<Rightarrow> string \<Rightarrow> bool" where
  "card_groups g1 g2 g3 g4 \<longleftrightarrow>
     list_all is_digit (g1 @ g2 @ g3 @ g4) \<and> length g1 \<in> {3, 4} \<and>
     length g2 = 4 \<and> length g3 = 4 \<and> length g4 = 4"

definition may_separate :: "string \<Rightarrow> bool" where
  "may_separate p \<longleftrightarrow> length p \<le> 1 \<and> list_all is_separator p"

definition writes_card ::
  "string \<Rightarrow> string \<Rightarrow> string \<Rightarrow> string \<Rightarrow> string \<Rightarrow> bool" where
  "writes_card s g1 g2 g3 g4 \<longleftrightarrow> card_groups g1 g2 g3 g4 \<and>
     (\<exists>p1 p2 p3. may_separate p1 \<and> may_separate p2 \<and> may_separate p3 \<and>
        s = g1 @ p1 @ g2 @ p2 @ g3 @ p3 @ g4)"

lemma digit_not_separator: "is_digit x \<Longrightarrow> is_separator x \<Longrightarrow> False"
  by (auto simp: is_digit_def is_separator_def)

lemma filter_groups:
  assumes "writes_card s g1 g2 g3 g4"
  shows "filter is_digit s = g1 @ g2 @ g3 @ g4"
proof -
  have "filter is_digit p = []" if "may_separate p" for p
    using that digit_not_separator by (auto simp: may_separate_def filter_empty_conv list_all_iff)
  then show ?thesis
    using assms by (auto simp: writes_card_def card_groups_def list_all_iff)
qed

text \<open>The groups of a text are determined, although the expression leaves a choice of lengths.\<close>

lemma writes_card_unique:
  assumes "writes_card s g1 g2 g3 g4" and "writes_card s h1 h2 h3 h4"
  shows "h1 = g1 \<and> h2 = g2 \<and> h3 = g3 \<and> h4 = g4"
proof -
  have all: "h1 @ h2 @ h3 @ h4 = g1 @ g2 @ g3 @ g4"
    using filter_groups [OF assms(1)] filter_groups [OF assms(2)] by simp
  from arg_cong [OF this, of length] have "length h1 = length g1"
    using assms by (simp add: writes_card_def card_groups_def)
  with all show ?thesis
    using assms by (auto simp: writes_card_def card_groups_def)
qed

section \<open>The ways in which the expressions match\<close>

lemma in_class_simps [simp]:
  "in_class (esc ''/d'') x \<longleftrightarrow> is_digit x"
  "in_class ''[- ]'' x \<longleftrightarrow> is_separator x"
  by (simp_all add: in_class_def esc_def backslash_def)

definition card_captures :: "string \<Rightarrow> string \<Rightarrow> string \<Rightarrow> string \<Rightarrow> char captures" where
  "card_captures g1 g2 g3 g4 = [1 \<mapsto> g1, 2 \<mapsto> g2, 3 \<mapsto> g3, 4 \<mapsto> g4]"

definition four_digits :: "string \<Rightarrow> bool" where
  "four_digits g \<longleftrightarrow> length g = 4 \<and> list_all is_digit g"

definition first_digits :: "string \<Rightarrow> bool" where
  "first_digits g \<longleftrightarrow> length g \<in> {3, 4} \<and> list_all is_digit g"

lemma consumes_four_digits: "consumes in_class (digits_rx 4) four_digits"
  by (rule consumes_cong [OF consumes_Rep_Class]) (auto simp: four_digits_def list_all_iff)

lemma consumes_first_digits: "consumes in_class (Rep (Class (esc ''/d'')) 3 (Some 4)) first_digits"
  by (rule consumes_cong [OF consumes_Rep_Class]) (auto simp: first_digits_def list_all_iff)

lemma consumes_may_separate: "consumes in_class (Rep separator_rx 0 (Some 1)) may_separate"
  unfolding separator_rx_def
  by (rule consumes_cong [OF consumes_Rep_Class]) (auto simp: may_separate_def list_all_iff)

lemma consumes_separator: "consumes in_class separator_rx (\<lambda>w. \<exists>x. w = [x] \<and> is_separator x)"
  unfolding separator_rx_def by (rule consumes_cong [OF consumes_Class]) simp

lemmas then_four_digits = then_captured [OF consumes_four_digits]
lemmas then_first_digits = then_captured [OF consumes_first_digits]
lemmas then_separator = then_consumed [OF consumes_may_separate]
lemmas last_digits = consumesD [OF consumes_four_digits]

lemma then_separated_group:
  "q \<in> set (ways in_class (Seq (Rep separator_rx 0 (Some 1)) (Seq (Group n (digits_rx 4)) r)) (u, v, c)) \<longleftrightarrow>
     (\<exists>p g w. v = p @ g @ w \<and> may_separate p \<and> four_digits g \<and>
        q \<in> set (ways in_class r (u @ p @ g, w, c(n \<mapsto> g))))"
  unfolding then_separator then_four_digits append_assoc by blast

lemma ways_end_iff:
  "(u', v', c') \<in> set (ways mem Buffer_end (u, v, c)) \<longleftrightarrow> v = [] \<and> u' = u \<and> v' = [] \<and> c' = c"
  by auto

lemma card_groups_split:
  "card_groups g1 g2 g3 g4 \<longleftrightarrow> first_digits g1 \<and> four_digits g2 \<and> four_digits g3 \<and> four_digits g4"
  by (auto simp: card_groups_def first_digits_def four_digits_def)

lemma ways_card:
  "(u, v, c) \<in> set (ways in_class card_rx ([], s, Map.empty)) \<longleftrightarrow>
     u = s \<and> v = [] \<and> (\<exists>g1 g2 g3 g4. writes_card s g1 g2 g3 g4 \<and> c = card_captures g1 g2 g3 g4)"
  unfolding card_rx_def ways_anchored if_True simp_thms(6) then_first_digits then_separated_group
    ways_end_iff writes_card_def card_groups_split card_captures_def append_assoc append_Nil
proof (rule iffI, goal_cases)
  case 1
  then obtain g1 w1 p1 g2 w2 p2 g3 w3 p3 g4 w4 where
    cuts: "s = g1 @ w1" "w1 = p1 @ g2 @ w2" "w2 = p2 @ g3 @ w3" "w3 = p3 @ g4 @ w4" "w4 = []"
    and parts: "first_digits g1" "may_separate p1" "four_digits g2" "may_separate p2" "four_digits g3"
      "may_separate p3" "four_digits g4" "v = []" "c = [1 \<mapsto> g1, 2 \<mapsto> g2, 3 \<mapsto> g3, 4 \<mapsto> g4]"
    and u: "u = g1 @ p1 @ g2 @ p2 @ g3 @ p3 @ g4"
    by (elim exE conjE) (rule that)
  have s: "s = g1 @ p1 @ g2 @ p2 @ g3 @ p3 @ g4" using cuts by simp
  show ?case by (intro exI conjI) (rule parts | rule s | simp only: s u)+
next
  case 2
  then obtain g1 g2 g3 g4 p1 p2 p3 where
    parts: "first_digits g1" "may_separate p1" "four_digits g2" "may_separate p2" "four_digits g3"
      "may_separate p3" "four_digits g4" "u = s" "v = []" "c = [1 \<mapsto> g1, 2 \<mapsto> g2, 3 \<mapsto> g3, 4 \<mapsto> g4]"
    and s: "s = g1 @ p1 @ g2 @ p2 @ g3 @ p3 @ g4 @ []"
    unfolding append_Nil2 by blast
  have u: "u = g1 @ p1 @ g2 @ p2 @ g3 @ p3 @ g4" using s parts(8) by simp
  show ?case by (intro exI conjI) (rule parts | rule s | rule refl | rule u)+
qed


definition separated_digits :: "string \<Rightarrow> bool" where
  "separated_digits w \<longleftrightarrow> (\<exists>g x. w = g @ [x] \<and> four_digits g \<and> is_separator x)"

lemma consumes_separated_digits: "consumes in_class (Seq (digits_rx 4) separator_rx) separated_digits"
  by (rule consumes_cong [OF consumes_Seq [OF consumes_four_digits consumes_separator]])
    (auto simp: separated_digits_def)

lemmas then_separated_digits = then_captured [OF consumes_separated_digits]

definition validated :: "string \<Rightarrow> bool" where
  "validated s \<longleftrightarrow>
     (\<exists>w1 w2 w3 g. s = w1 @ w2 @ w3 @ g \<and>
        separated_digits w1 \<and> separated_digits w2 \<and> separated_digits w3 \<and> four_digits g)"

lemma validate_iff: "match_whole in_class validate_rx s \<noteq> None \<longleftrightarrow> validated s"
  unfolding match_whole_None_iff validate_rx_def numeral_3_eq_3 then_turns_iff then_separated_digits
    last_digits validated_def append_Nil2 append_Nil append_assoc not_all not_not
  by (rule iffI; clarify; intro exI conjI; (rule refl | assumption)+)

section \<open>Replacing\<close>

lemma card_expr_anchored: "\<exists>r. card_rx = Seq Buffer_start r"
  by (simp add: card_rx_def)

lemma replace_card:
  assumes "writes_card s g1 g2 g3 g4"
  shows "replace_matches in_class card_rx f s = f ((card_captures g1 g2 g3 g4)(0 \<mapsto> s))"
proof -
  obtain r where r: "card_rx = Seq Buffer_start r" using card_expr_anchored by blast
  have only: "q \<in> set (ways in_class card_rx ([], s, Map.empty)) \<longleftrightarrow> q = (s, [], card_captures g1 g2 g3 g4)" for q
  proof (cases q)
    case (fields u v c)
    show ?thesis
      unfolding fields ways_card using assms writes_card_unique [OF assms] by blast
  qed
  have "s \<noteq> []" using assms by (auto simp: writes_card_def card_groups_def)
  then show ?thesis unfolding r using only [unfolded r] by (rule replace_anchored)
qed

lemma replace_no_card:
  assumes "\<nexists>g1 g2 g3 g4. writes_card s g1 g2 g3 g4"
  shows "replace_matches in_class card_rx f s = s"
proof -
  obtain r where r: "card_rx = Seq Buffer_start r" using card_expr_anchored by blast
  have "q \<notin> set (ways in_class card_rx ([], s, Map.empty))" for q
    using assms by (cases q) (auto simp: ways_card)
  then have "ways in_class card_rx ([], s, Map.empty) = []" by (meson last_in_set)
  then show ?thesis unfolding r by (rule replace_unmatched)
qed

lemma expand_formats:
  "expand_format backslash id machine_format ((card_captures g1 g2 g3 g4)(0 \<mapsto> s)) = g1 @ g2 @ g3 @ g4"
  "expand_format backslash id human_format ((card_captures g1 g2 g3 g4)(0 \<mapsto> s)) =
     g1 @ ''-'' @ g2 @ ''-'' @ g3 @ ''-'' @ g4"
  by (simp_all add: machine_format_def human_format_def esc_def backslash_def captured_def
    card_captures_def)

lemma sed_formats: "sed_format machine_format" "sed_format human_format"
  by code_simp+

lemma card_functions:
  assumes "boost_ok lib"
  shows "validate_card_format lib s \<longleftrightarrow> validated s"
    and "writes_card s g1 g2 g3 g4 \<Longrightarrow> machine_readable_card_number lib s = g1 @ g2 @ g3 @ g4"
    and "writes_card s g1 g2 g3 g4 \<Longrightarrow>
      human_readable_card_number lib s = g1 @ ''-'' @ g2 @ ''-'' @ g3 @ ''-'' @ g4"
    and "\<nexists>g1 g2 g3 g4. writes_card s g1 g2 g3 g4 \<Longrightarrow>
      machine_readable_card_number lib s = s \<and> human_readable_card_number lib s = s"
  using assms
  by (simp_all add: boost_ok_def validate_card_format_def validate_text [symmetric]
      validate_iff [simplified]
      machine_readable_card_number_def human_readable_card_number_def card_text [symmetric]
      replace_card replace_no_card expand_formats sed_formats)

lemma machine_writes: "card_groups g1 g2 g3 g4 \<Longrightarrow> writes_card (g1 @ g2 @ g3 @ g4) g1 g2 g3 g4"
  unfolding writes_card_def by (auto simp: may_separate_def intro!: exI [of _ "[]"])

lemma human_writes:
  "card_groups g1 g2 g3 g4 \<Longrightarrow>
     writes_card (g1 @ ''-'' @ g2 @ ''-'' @ g3 @ ''-'' @ g4) g1 g2 g3 g4"
  unfolding writes_card_def by (auto simp: may_separate_def is_separator_def intro!: exI [of _ "''-''"])

text \<open>
  Reformatting. A text that writes a card number, its four groups of digits separated by
  nothing, a space or a minus sign, is turned into the digits alone, or into the groups
  separated by minus signs; any other text is returned as it is.
\<close>

theorem card_number_reformatted:
  assumes "boost_ok lib"
  shows "(\<forall>g1 g2 g3 g4. writes_card s g1 g2 g3 g4 \<longrightarrow>
            machine_readable_card_number lib s = filter is_digit s \<and>
            human_readable_card_number lib s = g1 @ ''-'' @ g2 @ ''-'' @ g3 @ ''-'' @ g4) \<and>
         ((\<nexists>g1 g2 g3 g4. writes_card s g1 g2 g3 g4) \<longrightarrow>
            machine_readable_card_number lib s = s \<and> human_readable_card_number lib s = s)"
  using card_functions [OF assms] filter_groups by simp

theorem card_number_reformatted_witness:
  "machine_readable_card_number reference_library ''1234-56789012 3456'' = ''1234567890123456'' \<and>
   human_readable_card_number reference_library ''1234-56789012 3456'' = ''1234-5678-9012-3456'' \<and>
   human_readable_card_number reference_library ''12345'' = ''12345''"
proof -
  have parts: "card_groups ''1234'' ''5678'' ''9012'' ''3456''" "may_separate ''-''" "may_separate []"
    "may_separate '' ''"
    by (simp_all add: card_groups_def may_separate_def is_digit_def is_separator_def)
  have whole: "''1234-56789012 3456'' = ''1234'' @ ''-'' @ ''5678'' @ [] @ ''9012'' @ '' '' @ ''3456''" by simp
  have card: "writes_card ''1234-56789012 3456'' ''1234'' ''5678'' ''9012'' ''3456''"
    unfolding writes_card_def by (intro conjI exI) (rule parts whole)+
  have "filter is_digit ''1234-56789012 3456'' = ''1234567890123456''"
    by (simp add: is_digit_def)
  moreover have "\<not> writes_card ''12345'' g1 g2 g3 g4" for g1 g2 g3 g4
  proof
    assume "writes_card ''12345'' g1 g2 g3 g4"
    then have "length ''12345'' \<ge> 15" unfolding writes_card_def card_groups_def by (elim conjE exE) auto
    then show False by simp
  qed
  ultimately show ?thesis
    using card_number_reformatted [OF reference_library_ok, of "''1234-56789012 3456''"]
      card_number_reformatted [OF reference_library_ok, of "''12345''"] card by simp
qed

text \<open>
  C37. The two formats are inverse to each other, for every text: the human readable form of the
  machine readable form is the human readable form, and conversely.
\<close>

theorem card_formats_inverse:
  assumes "boost_ok lib"
  shows "machine_readable_card_number lib (human_readable_card_number lib s) = machine_readable_card_number lib s \<and>
         human_readable_card_number lib (machine_readable_card_number lib s) = human_readable_card_number lib s"
proof (cases "\<exists>g1 g2 g3 g4. writes_card s g1 g2 g3 g4")
  case True
  then obtain g1 g2 g3 g4 where card: "writes_card s g1 g2 g3 g4" by blast
  then have "card_groups g1 g2 g3 g4" by (simp add: writes_card_def)
  from machine_writes [OF this] human_writes [OF this] show ?thesis
    using card_functions(2,3) [OF assms] card by simp
next
  case False
  then show ?thesis using card_functions(4) [OF assms] by simp
qed

theorem card_formats_inverse_witness:
  "machine_readable_card_number reference_library
     (human_readable_card_number reference_library ''123 45678901 2345'') = ''123456789012345''"
proof -
  have "machine_readable_card_number reference_library ''123 45678901 2345'' = ''123456789012345''"
    by code_simp
  then show ?thesis
    using card_formats_inverse [OF reference_library_ok, of "''123 45678901 2345''"] by simp
qed

lemma validated_iff:
  "validated s \<longleftrightarrow>
     (\<exists>g1 x g2 y g3 z g4. s = g1 @ [x] @ g2 @ [y] @ g3 @ [z] @ g4 \<and>
        four_digits g1 \<and> four_digits g2 \<and> four_digits g3 \<and> four_digits g4 \<and>
        is_separator x \<and> is_separator y \<and> is_separator z)"
proof
  assume "validated s"
  then obtain g1 x g2 y g3 z g4 where "s = (g1 @ [x]) @ (g2 @ [y]) @ (g3 @ [z]) @ g4"
    and parts: "four_digits g1" "four_digits g2" "four_digits g3" "four_digits g4"
      "is_separator x" "is_separator y" "is_separator z"
    unfolding validated_def separated_digits_def by blast
  then have s: "s = g1 @ [x] @ g2 @ [y] @ g3 @ [z] @ g4" by simp
  show "\<exists>g1 x g2 y g3 z g4. s = g1 @ [x] @ g2 @ [y] @ g3 @ [z] @ g4 \<and>
        four_digits g1 \<and> four_digits g2 \<and> four_digits g3 \<and> four_digits g4 \<and>
        is_separator x \<and> is_separator y \<and> is_separator z"
    by (intro exI conjI) (rule s parts)+
next
  assume "\<exists>g1 x g2 y g3 z g4. s = g1 @ [x] @ g2 @ [y] @ g3 @ [z] @ g4 \<and>
        four_digits g1 \<and> four_digits g2 \<and> four_digits g3 \<and> four_digits g4 \<and>
        is_separator x \<and> is_separator y \<and> is_separator z"
  then obtain g1 x g2 y g3 z g4 where s: "s = (g1 @ [x]) @ (g2 @ [y]) @ (g3 @ [z]) @ g4"
    and parts: "four_digits g1" "four_digits g2" "four_digits g3" "four_digits g4"
      "is_separator x" "is_separator y" "is_separator z"
    by auto
  show "validated s"
    unfolding validated_def separated_digits_def by (intro exI conjI) (rule s refl parts)+
qed

lemma validated_card:
  assumes "validated s"
  obtains g1 g2 g3 g4 where "writes_card s g1 g2 g3 g4" and "length g1 = 4"
proof -
  obtain g1 x g2 y g3 z g4 where s: "s = g1 @ [x] @ g2 @ [y] @ g3 @ [z] @ g4"
    and "four_digits g1" "four_digits g2" "four_digits g3" "four_digits g4"
    and "is_separator x" "is_separator y" "is_separator z"
    using assms unfolding validated_iff by blast
  then have parts: "card_groups g1 g2 g3 g4" "may_separate [x]" "may_separate [y]" "may_separate [z]"
    and "length g1 = 4"
    by (simp_all add: may_separate_def card_groups_split first_digits_def four_digits_def)
  have "writes_card s g1 g2 g3 g4"
    unfolding writes_card_def by (intro conjI exI) (rule parts s)+
  then show ?thesis using that \<open>length g1 = 4\<close> by blast
qed

lemma human_validated:
  assumes "card_groups g1 g2 g3 g4"
  shows "validated (g1 @ ''-'' @ g2 @ ''-'' @ g3 @ ''-'' @ g4) \<longleftrightarrow> length g1 = 4"
proof
  assume "validated (g1 @ ''-'' @ g2 @ ''-'' @ g3 @ ''-'' @ g4)"
  then obtain h1 h2 h3 h4 where card: "writes_card (g1 @ ''-'' @ g2 @ ''-'' @ g3 @ ''-'' @ g4) h1 h2 h3 h4"
    and "length h1 = 4" by (rule validated_card)
  then show "length g1 = 4" using writes_card_unique [OF human_writes [OF assms] card] by blast
next
  assume "length g1 = 4"
  then have "four_digits g1" using assms by (simp add: card_groups_def four_digits_def)
  moreover have "four_digits g2" "four_digits g3" "four_digits g4" using assms by (simp_all add: card_groups_split)
  moreover have "is_separator (CHR ''-'')" by (simp add: is_separator_def)
  ultimately show "validated (g1 @ ''-'' @ g2 @ ''-'' @ g3 @ ''-'' @ g4)"
    unfolding validated_iff by blast
qed

text \<open>
  C38. Validation accepts exactly the texts of four groups of four digits with one space or minus
  sign between any two. The human readable form of a text is accepted exactly when the text
  writes a card number of sixteen digits: with fifteen digits even the formatted number is
  refused.
\<close>

theorem card_validated:
  assumes "boost_ok lib"
  shows "(validate_card_format lib s \<longleftrightarrow>
            (\<exists>g1 x g2 y g3 z g4. s = g1 @ [x] @ g2 @ [y] @ g3 @ [z] @ g4 \<and>
               four_digits g1 \<and> four_digits g2 \<and> four_digits g3 \<and> four_digits g4 \<and>
               is_separator x \<and> is_separator y \<and> is_separator z)) \<and>
         (validate_card_format lib (human_readable_card_number lib s) \<longleftrightarrow>
            (\<exists>g1 g2 g3 g4. writes_card s g1 g2 g3 g4 \<and> length g1 = 4))"
proof (cases "\<exists>g1 g2 g3 g4. writes_card s g1 g2 g3 g4")
  case True
  then obtain g1 g2 g3 g4 where card: "writes_card s g1 g2 g3 g4" by blast
  then have "card_groups g1 g2 g3 g4" by (simp add: writes_card_def)
  from human_validated [OF this]
  have "validate_card_format lib (human_readable_card_number lib s) \<longleftrightarrow> length g1 = 4"
    unfolding card_functions(1) [OF assms] card_functions(3) [OF assms card] .
  also have "\<dots> \<longleftrightarrow> (\<exists>g1 g2 g3 g4. writes_card s g1 g2 g3 g4 \<and> length g1 = 4)"
    using card writes_card_unique [OF card] by blast
  finally show ?thesis
    unfolding card_functions(1) [OF assms, of s] validated_iff by simp
next
  case False
  then have "\<not> validated s" by (blast elim: validated_card)
  then have "\<not> validate_card_format lib (human_readable_card_number lib s)"
    using False card_functions(1,4) [OF assms] by simp
  then show ?thesis
    using False unfolding card_functions(1) [OF assms, of s] validated_iff by simp
qed

theorem card_validated_witness:
  "\<exists>s. validate_card_format reference_library s \<and>
     (\<exists>g1 g2 g3 g4. writes_card s g1 g2 g3 g4 \<and> length g1 = 4)"
proof -
  have "validate_card_format reference_library
      (human_readable_card_number reference_library ''0000-1111 2222-3333'')"
    and "validate_card_format reference_library ''0000-1111 2222-3333''"
    by code_simp+
  then show ?thesis
    using card_validated [OF reference_library_ok, of "''0000-1111 2222-3333''"] by blast
qed

text \<open>
  The whole output of the sample and of the test: only the numbers with separators between
  groups of four are valid, and all are reformatted.
\<close>

theorem sample_prints:
  assumes "boost_ok lib"
  shows "example_regex_main lib = (concat
     [result_line ''validate_card_format'' ''0000111122223333'' ''0'',
      result_line ''validate_card_format'' ''0000 1111 2222 3333'' ''1'',
      result_line ''validate_card_format'' ''0000-1111-2222-3333'' ''1'',
      result_line ''validate_card_format'' ''000-1111-2222-3333'' ''0'',
      result_line ''machine_readable_card_number'' ''0000111122223333'' ''0000111122223333'',
      result_line ''machine_readable_card_number'' ''0000 1111 2222 3333'' ''0000111122223333'',
      result_line ''machine_readable_card_number'' ''0000-1111-2222-3333'' ''0000111122223333'',
      result_line ''machine_readable_card_number'' ''000-1111-2222-3333'' ''000111122223333'',
      result_line ''human_readable_card_number'' ''0000111122223333'' ''0000-1111-2222-3333'',
      result_line ''human_readable_card_number'' ''0000 1111 2222 3333'' ''0000-1111-2222-3333'',
      result_line ''human_readable_card_number'' ''0000-1111-2222-3333'' ''0000-1111-2222-3333'',
      result_line ''human_readable_card_number'' ''000-1111-2222-3333'' ''000-1111-2222-3333''], 0) \<and>
     example_test lib = (fst (example_regex_main lib), True)"
proof -
  have fast: "validate_card_format lib s = validate_card_format reference_library s"
    "machine_readable_card_number lib s = machine_readable_card_number reference_library s"
    "human_readable_card_number lib s = human_readable_card_number reference_library s" for s
    using assms reference_library_ok
    by (simp_all add: boost_ok_def validate_card_format_def validate_text [symmetric]
      machine_readable_card_number_def human_readable_card_number_def card_text [symmetric] sed_formats)
  have "sample_output lib = sample_output reference_library"
    by (simp add: sample_output_def fast)
  then show ?thesis
    unfolding example_regex_main_def example_test_def by simp (code_simp)
qed

theorem sample_prints_witness:
  "snd (example_regex_main reference_library) = 0 \<and> snd (example_test reference_library)"
  using sample_prints [OF reference_library_ok] by simp


end
