(* ===== verification/Unicode.thy ===== *)
theory Unicode
  imports Prelude
begin

text \<open>
  The two encodings of Unicode texts in the regex samples: the UTF-8 bytes of \<open>std::string\<close> and
  the UTF-16 code units of ICU's \<open>UnicodeString\<close>. Shown: both are decoded again; a character
  literal of ASCII characters is its own encoding; and a byte below 0x80, such as a backslash,
  occurs in the UTF-8 of a text only as that character, so that cutting a text behind the last
  one and cutting its bytes is the same.
\<close>

type_synonym u16 = "16 word"

text \<open>A text as its code points, and the code points that have an encoding.\<close>

type_synonym utext = "nat list"

definition utext :: "string \<Rightarrow> utext" where
  "utext = map of_char"

definition scalar :: "nat \<Rightarrow> bool" where
  "scalar x \<longleftrightarrow> x < 0xD800 \<or> 0xE000 \<le> x \<and> x < 0x110000"

definition valid_text :: "utext \<Rightarrow> bool" where
  "valid_text t \<longleftrightarrow> list_all scalar t"

lemma valid_text_simps [simp]:
  "valid_text []"
  "valid_text (x # t) \<longleftrightarrow> scalar x \<and> valid_text t"
  "valid_text (s @ t) \<longleftrightarrow> valid_text s \<and> valid_text t"
  by (simp_all add: valid_text_def)

section \<open>UTF-8\<close>

definition utf8_char :: "nat \<Rightarrow> u8 list" where
  "utf8_char x =
     (if x < 0x80 then [word_of_nat x]
      else if x < 0x800 then [word_of_nat (0xC0 + x div 64), word_of_nat (0x80 + x mod 64)]
      else if x < 0x10000 then
        [word_of_nat (0xE0 + x div 64 div 64), word_of_nat (0x80 + x div 64 mod 64),
         word_of_nat (0x80 + x mod 64)]
      else
        [word_of_nat (0xF0 + x div 64 div 64 div 64), word_of_nat (0x80 + x div 64 div 64 mod 64),
         word_of_nat (0x80 + x div 64 mod 64), word_of_nat (0x80 + x mod 64)])"

definition utf8 :: "utext \<Rightarrow> u8 list" where
  "utf8 t = concat (map utf8_char t)"

lemma utf8_simps [simp]:
  "utf8 [] = []"
  "utf8 (x # t) = utf8_char x @ utf8 t"
  "utf8 (s @ t) = utf8 s @ utf8 t"
  by (simp_all add: utf8_def)

text \<open>The numbers of the bytes of a character.\<close>

lemma unat_byte: "n < 256 \<Longrightarrow> unat (word_of_nat n :: u8) = n"
  by (simp add: unat_of_nat)

lemma utf8_char_bytes:
  assumes "scalar x"
  shows "map unat (utf8_char x) =
     (if x < 0x80 then [x]
      else if x < 0x800 then [0xC0 + x div 64, 0x80 + x mod 64]
      else if x < 0x10000 then [0xE0 + x div 64 div 64, 0x80 + x div 64 mod 64, 0x80 + x mod 64]
      else [0xF0 + x div 64 div 64 div 64, 0x80 + x div 64 div 64 mod 64, 0x80 + x div 64 mod 64,
            0x80 + x mod 64])"
proof -
  have tail: "0x80 + n mod 64 < 256" for n :: nat
    using mod_less_divisor [of 64 n] by linarith
  have "x < 0x110000" using assms by (auto simp: scalar_def)
  then have "x < 0x800 \<Longrightarrow> 0xC0 + x div 64 < 256" "x < 0x10000 \<Longrightarrow> 0xE0 + x div 64 div 64 < 256"
    "0xF0 + x div 64 div 64 div 64 < 256"
    by linarith+
  then show ?thesis by (simp add: utf8_char_def unat_byte tail del: of_nat_add)
qed

lemma utf8_char_ascii: "x < 0x80 \<Longrightarrow> utf8_char x = [word_of_nat x]"
  by (simp add: utf8_char_def)

lemma utf8_char_not_empty [simp]: "utf8_char x \<noteq> []"
  by (simp add: utf8_char_def)

lemma utf8_empty_iff [simp]: "utf8 t = [] \<longleftrightarrow> t = []"
  by (cases t) simp_all

lemma utf8_char_low_byte:
  assumes "scalar x" and "b \<in> set (utf8_char x)" and "unat b < 0x80"
  shows "x = unat b"
proof -
  have "unat b \<in> set (map unat (utf8_char x))" using assms(2) by simp
  then show ?thesis using assms(3) unfolding utf8_char_bytes [OF assms(1)] by (auto split: if_splits)
qed

text \<open>A decoder of the bytes of valid texts.\<close>

fun utf8_decode :: "u8 list \<Rightarrow> utext" where
  "utf8_decode [] = []"
| "utf8_decode (a # bs) =
     (if unat a < 0x80 then unat a # utf8_decode bs
      else if unat a < 0xE0 then
        (case bs of b # bs' \<Rightarrow> ((unat a - 0xC0) * 64 + (unat b - 0x80)) # utf8_decode bs' | _ \<Rightarrow> [])
      else if unat a < 0xF0 then
        (case bs of b # c # bs' \<Rightarrow>
           (((unat a - 0xE0) * 64 + (unat b - 0x80)) * 64 + (unat c - 0x80)) # utf8_decode bs' | _ \<Rightarrow> [])
      else
        (case bs of b # c # d # bs' \<Rightarrow>
           ((((unat a - 0xF0) * 64 + (unat b - 0x80)) * 64 + (unat c - 0x80)) * 64 +
              (unat d - 0x80)) # utf8_decode bs' | _ \<Rightarrow> []))"

lemma utf8_decode_char:
  assumes "scalar x"
  shows "utf8_decode (utf8_char x @ bs) = x # utf8_decode bs"
proof -
  note bytes = utf8_char_bytes [OF assms]
  have "x < 0x110000" using assms by (auto simp: scalar_def)
  consider "x < 0x80" | "0x80 \<le> x" "x < 0x800" | "0x800 \<le> x" "x < 0x10000" | "0x10000 \<le> x" by linarith
  then show ?thesis
  proof cases
    case 1
    then show ?thesis using bytes by (auto simp: map_eq_Cons_conv)
  next
    case 2
    then show ?thesis using bytes by (auto simp: map_eq_Cons_conv)
  next
    case 3
    then have "x div 64 div 64 < 16" "\<not> x < 0x800" "\<not> x < 0x80" by linarith+
    then show ?thesis using bytes 3 by (auto simp: map_eq_Cons_conv)
  next
    case 4
    then have "\<not> x < 0x10000" "\<not> x < 0x800" "\<not> x < 0x80" by linarith+
    moreover have "4096 * (x div 64 div 64) + x div 64 mod 64 * 64 + x mod 64 = x"
      using div_mult_mod_eq [of "x div 64" 64] div_mult_mod_eq [of x 64] by linarith
    ultimately show ?thesis using bytes by (auto simp: map_eq_Cons_conv)
  qed
qed

lemma utf8_decode_utf8: "valid_text t \<Longrightarrow> utf8_decode (utf8 t) = t"
  by (induction t) (simp_all add: utf8_decode_char del: utf8_decode.simps(2))

section \<open>UTF-16\<close>

definition utf16_char :: "nat \<Rightarrow> u16 list" where
  "utf16_char x =
     (if x < 0x10000 then [word_of_nat x]
      else [word_of_nat (0xD800 + (x - 0x10000) div 1024), word_of_nat (0xDC00 + (x - 0x10000) mod 1024)])"

definition utf16 :: "utext \<Rightarrow> u16 list" where
  "utf16 t = concat (map utf16_char t)"

lemma utf16_simps [simp]:
  "utf16 [] = []"
  "utf16 (x # t) = utf16_char x @ utf16 t"
  "utf16 (s @ t) = utf16 s @ utf16 t"
  by (simp_all add: utf16_def)

fun utf16_decode :: "u16 list \<Rightarrow> utext" where
  "utf16_decode [] = []"
| "utf16_decode (a # us) =
     (if 0xD800 \<le> unat a \<and> unat a < 0xDC00
      then (case us of b # us' \<Rightarrow> (0x10000 + (unat a - 0xD800) * 1024 + (unat b - 0xDC00)) # utf16_decode us' | _ \<Rightarrow> [])
      else unat a # utf16_decode us)"

lemma unat_unit: "n < 65536 \<Longrightarrow> unat (word_of_nat n :: u16) = n"
  by (simp add: unat_of_nat)

lemma utf16_decode_char:
  assumes "scalar x"
  shows "utf16_decode (utf16_char x @ us) = x # utf16_decode us"
proof (cases "x < 0x10000")
  case True
  then show ?thesis using assms by (auto simp: utf16_char_def unat_unit scalar_def)
next
  case False
  define y where "y = x - 0x10000"
  have y: "x = 0x10000 + y" "y div 1024 < 1024"
    using False assms by (auto simp: y_def scalar_def)
  moreover have "y mod 1024 < 1024" by simp
  moreover from this have "0xDC00 + y mod 1024 < 65536" by linarith
  ultimately show ?thesis by (simp add: utf16_char_def unat_unit del: of_nat_add)
qed

lemma utf16_decode_utf16: "valid_text t \<Longrightarrow> utf16_decode (utf16 t) = t"
  by (induction t) (simp_all add: utf16_decode_char del: utf16_decode.simps(2))

section \<open>Literals\<close>

text \<open>A character literal as the contents of a \<open>std::string\<close> and of a \<open>UnicodeString\<close>.\<close>

definition bytes :: "string \<Rightarrow> u8 list" where
  "bytes = map of_char"

definition unistr :: "string \<Rightarrow> u16 list" where
  "unistr = map of_char"

definition ascii :: "string \<Rightarrow> bool" where
  "ascii = list_all (\<lambda>x. of_char x < (128 :: nat))"

lemma ascii_texts:
  assumes "ascii s"
  shows "valid_text (utext s)" and "bytes s = utf8 (utext s)" and "unistr s = utf16 (utext s)"
  using assms
  by (induction s)
    (simp_all add: ascii_def utext_def bytes_def unistr_def scalar_def utf8_char_def utf16_char_def
      of_nat_of_char)

section \<open>The part of a text behind the last occurrence of a character\<close>

definition after_last :: "'c \<Rightarrow> 'c list \<Rightarrow> 'c list" where
  "after_last b t = rev (takeWhile (\<lambda>x. x \<noteq> b) (rev t))"

lemma after_last_split:
  "\<exists>pre. t = pre @ after_last b t \<and> b \<notin> set (after_last b t) \<and> (pre = [] \<or> last pre = b)"
proof -
  let ?d = "dropWhile (\<lambda>x. x \<noteq> b) (rev t)"
  have "t = rev ?d @ after_last b t"
    unfolding after_last_def rev_append [symmetric] takeWhile_dropWhile_id by simp
  moreover have "b \<notin> set (after_last b t)"
    by (auto simp: after_last_def dest: set_takeWhileD)
  moreover have "rev ?d = [] \<or> last (rev ?d) = b"
    using hd_dropWhile [of "\<lambda>x. x \<noteq> b" "rev t"] by (auto simp: last_rev)
  ultimately show ?thesis by blast
qed

lemma after_last_unique:
  assumes "t = pre @ name" and "b \<notin> set name" and "pre = [] \<or> last pre = b"
  shows "name = after_last b t"
proof (cases pre rule: rev_cases)
  case Nil
  moreover have "takeWhile (\<lambda>x. x \<noteq> b) (rev name) = rev name"
    using assms(2) by (auto simp: takeWhile_eq_all_conv)
  ultimately show ?thesis using assms(1) unfolding after_last_def by (metis append_Nil rev_rev_ident)
next
  case (snoc p x)
  then have "x = b" using assms(3) by simp
  moreover have "takeWhile (\<lambda>x. x \<noteq> b) (rev name @ y # ys) = rev name" if "y = b" for y ys
    using assms(2) that by (subst takeWhile_append2) auto
  ultimately show ?thesis using assms(1) snoc by (simp add: after_last_def)
qed

text \<open>Behind the last ASCII character, in the bytes as in the text.\<close>

lemma after_last_utf8:
  assumes "valid_text t" and "x < 0x80"
  shows "after_last (word_of_nat x) (utf8 t) = utf8 (after_last x t)"
proof -
  obtain pre where pre: "t = pre @ after_last x t" "x \<notin> set (after_last x t)" "pre = [] \<or> last pre = x"
    using after_last_split [of t x] by blast
  have x: "unat (word_of_nat x :: u8) = x" using assms(2) by (simp add: unat_byte)
  have "word_of_nat x \<notin> set (utf8 (after_last x t))"
  proof
    assume "word_of_nat x \<in> set (utf8 (after_last x t))"
    then obtain y where y: "y \<in> set (after_last x t)" "word_of_nat x \<in> set (utf8_char y)"
      by (auto simp: utf8_def)
    have "y \<in> set t" using y(1) pre(1) by (metis UnCI set_append)
    then have "scalar y" using assms(1) by (simp add: valid_text_def list_all_iff)
    from utf8_char_low_byte [OF this y(2)] have "y = x" using assms(2) x by simp
    then show False using y(1) pre(2) by simp
  qed
  moreover have "utf8 pre = [] \<or> last (utf8 pre) = word_of_nat x"
    using pre(3) assms(2) by (cases pre rule: rev_cases) (simp_all add: utf8_char_ascii)
  moreover have "utf8 t = utf8 pre @ utf8 (after_last x t)" using pre(1) by (metis utf8_simps(3))
  ultimately show ?thesis using after_last_unique by metis
qed

end
