(* ===== verification/Icu_Samples.thy ===== *)
theory Icu_Samples
  imports Card_Samples Unicode
begin

text \<open>
  The sample of Boost.Regex with Unicode texts (example_regex_with_icu.cpp) and the test made
  from it (example_test_regex_with_icu.cpp), under libs/LibCMaker_Boost. A \<open>std::string\<close> is its
  bytes and a \<open>UnicodeString\<close> its UTF-16 code units, as in theory Unicode. Boost.Regex over ICU
  is the parameter \<open>u32_library\<close>, whose calls may throw; what the sample relies on is \<open>icu_ok\<close>,
  which speaks of correctly encoded texts only, over the membership of code points in classes,
  \<open>mem\<close>, which is ICU's. Shown: what the functions of the sample return, among them the file
  name of a path at the level of its bytes.
\<close>

section \<open>The library\<close>

text \<open>
  The calls of the sample, by the kind of text: \<open>u32regex_match\<close> on a \<open>UnicodeString\<close>, with the
  expression given as one too, and on a \<open>std::string\<close>; \<open>u32regex_search\<close> and \<open>u32regex_replace\<close>
  on a \<open>UnicodeString\<close>; and the iterators over a \<open>std::string\<close>: the matches until the end or
  until an exception.
\<close>

record u32_library =
  match_unistr :: "u16 list \<Rightarrow> u16 list \<Rightarrow> bool result"
  match_str :: "u8 list \<Rightarrow> string \<Rightarrow> u8 captures option result"
  search_unistr :: "u16 list \<Rightarrow> string \<Rightarrow> u16 captures option result"
  successive_str :: "u8 list \<Rightarrow> string \<Rightarrow> u8 captures list \<times> cxx_fault option"
  replace_unistr :: "u16 list \<Rightarrow> string \<Rightarrow> string \<Rightarrow> u16 list result"

section \<open>The sample\<close>

definition is_valid_password :: "u32_library \<Rightarrow> u16 list \<Rightarrow> u16 list \<Rightarrow> bool result" where
  "is_valid_password lib password requirements = match_unistr lib password requirements"

definition get_filename :: "u32_library \<Rightarrow> u8 list \<Rightarrow> u8 list result" where
  "get_filename lib path =
     (case match_str lib path (esc ''(?:/A|.*//)([^//]+)'') of
        Inl e \<Rightarrow> Inl e
      | Inr (Some what) \<Rightarrow> Inr (captured what 1)
      | Inr None \<Rightarrow> Inl (Runtime_error ''Invalid pathname''))"

definition extract_greek :: "u32_library \<Rightarrow> u16 list \<Rightarrow> u16 list result" where
  "extract_greek lib t =
     (case search_unistr lib t (esc ''[/x{370}-/x{3FF}](?:[^[:L*:]]|[/x{370}-/x{3FF}])*'') of
        Inl e \<Rightarrow> Inl e
      | Inr (Some what) \<Rightarrow> Inr (captured what 0)
      | Inr None \<Rightarrow> Inl (Runtime_error ''No Greek found!''))"

definition currency_expression :: string where
  "currency_expression =
     ''([[:Sc:]][[:Cf:][:Cc:][:Z*:]]*)?'' @
     ''([[:Nd:]]+(?:[[:Po:]][[:Nd:]]+)?)?'' @
     ''(?(1)'' @
     ''|(?(2)'' @
     ''[[:Cf:][:Cc:][:Z*:]]*'' @
     '')'' @
     ''[[:Sc:]]'' @
     '')''"

text \<open>
  The two loops print group 0 of each match, and group 1 of each match, until an exception of
  the iterator leaves them.
\<close>

definition enumerate_currencies :: "u32_library \<Rightarrow> u8 list \<Rightarrow> u8 list \<times> cxx_fault option" where
  "enumerate_currencies lib t =
     (case successive_str lib t currency_expression of
        (found, e) \<Rightarrow> (concat (map (\<lambda>what. captured what 0 @ [10]) found), e))"

definition enumerate_currencies2 :: "u32_library \<Rightarrow> u8 list \<Rightarrow> u8 list \<times> cxx_fault option" where
  "enumerate_currencies2 lib t =
     (case successive_str lib t currency_expression of
        (found, e) \<Rightarrow> (concat (map (\<lambda>what. captured what 1 @ [10]) found), e))"

definition u32_human_format :: string where
  "u32_human_format = ''$1-$2-$3-$4''"

definition u32_human_readable_card_number :: "u32_library \<Rightarrow> u16 list \<Rightarrow> u16 list result" where
  "u32_human_readable_card_number lib s = replace_unistr lib s card_expression u32_human_format"

definition pwd_check :: string where
  "pwd_check = ''(?=.*[[:lower:]])(?=.*[[:upper:]])(?=.*[[:punct:]]).{6,}''"

definition greek_letters :: "u16 list" where
  "greek_letters = [0x0391, 0x039D, 0x0395, 0x0398, 0x0391]"

definition price_text :: "u8 list" where
  "price_text = bytes '' $100.23 or '' @ [0xC2, 0xA3] @ bytes ''198.12 ''"

text \<open>
  The statements of \<open>main\<close>: what they have printed, and how they end. An assertion is checked
  only when the program is compiled without \<open>NDEBUG\<close>; a call may throw.
\<close>

datatype checks_end = Assertion_failed | Thrown cxx_fault | Finished

definition assert_then ::
  "bool \<Rightarrow> u8 list \<Rightarrow> bool \<Rightarrow> u8 list \<times> checks_end \<Rightarrow> u8 list \<times> checks_end" where
  "assert_then NDEBUG out b rest = (if NDEBUG \<or> b then rest else (out, Assertion_failed))"

definition call_then ::
  "u8 list \<Rightarrow> 'a result \<Rightarrow> ('a \<Rightarrow> u8 list \<times> checks_end) \<Rightarrow> u8 list \<times> checks_end" where
  "call_then out r rest = (case r of Inl e \<Rightarrow> (out, Thrown e) | Inr x \<Rightarrow> rest x)"

definition print_then ::
  "u8 list \<Rightarrow> u8 list \<times> cxx_fault option \<Rightarrow> (u8 list \<Rightarrow> u8 list \<times> checks_end) \<Rightarrow> u8 list \<times> checks_end" where
  "print_then out r rest =
     (case r of (printed, e) \<Rightarrow>
        (case e of Some e' \<Rightarrow> (out @ printed, Thrown e') | None \<Rightarrow> rest (out @ printed)))"

definition sample_checks :: "bool \<Rightarrow> u32_library \<Rightarrow> u8 list \<times> checks_end" where
  "sample_checks NDEBUG lib =
     call_then [] (is_valid_password lib (unistr ''abcDEF---'') (unistr pwd_check)) (\<lambda>b.
     assert_then NDEBUG [] b (
     call_then [] (is_valid_password lib (unistr ''abcD-'') (unistr pwd_check)) (\<lambda>b.
     assert_then NDEBUG [] (\<not> b) (
     call_then [] (get_filename lib (bytes ''abc.hpp'')) (\<lambda>file.
     assert_then NDEBUG [] (file = bytes ''abc.hpp'') (
     call_then [] (get_filename lib (bytes (esc ''c:/a/b/c/d.h''))) (\<lambda>file.
     assert_then NDEBUG [] (file = bytes ''d.h'') (
     call_then [] (extract_greek lib (unistr ''Some where in'' @ greek_letters)) (\<lambda>greek.
     assert_then NDEBUG [] (greek = greek_letters) (
     print_then [] (enumerate_currencies lib price_text) (\<lambda>out.
     print_then out (enumerate_currencies2 lib price_text) (\<lambda>out.
     call_then out (u32_human_readable_card_number lib (unistr ''1234567887654321'')) (\<lambda>card.
     assert_then NDEBUG out (card = unistr ''1234-5678-8765-4321'')
     (out, Finished))))))))))))))"

definition icu_note :: "u8 list" where
  "icu_note = bytes ''<NOTE>ICU support not enabled, feature unavailable</NOTE>''"

text \<open>
  The program, compiled with or without ICU, and its exit code; an exception that leaves \<open>main\<close>
  aborts it, as a failed assertion does.
\<close>

datatype 'r outcome = Aborts "u8 list" | Ends "u8 list" 'r

definition example_icu_main :: "bool \<Rightarrow> bool \<Rightarrow> u32_library \<Rightarrow> nat outcome" where
  "example_icu_main BOOST_HAS_ICU NDEBUG lib =
     (if BOOST_HAS_ICU
      then (case sample_checks NDEBUG lib of
              (out, Finished) \<Rightarrow> Ends out 0
            | (out, _) \<Rightarrow> Aborts out)
      else Ends icu_note 0)"

text \<open>
  The test, and whether it passes: the test framework turns an exception into a failure, and
  without ICU the test expects the impossible, so it fails.
\<close>

definition example_icu_test :: "bool \<Rightarrow> bool \<Rightarrow> u32_library \<Rightarrow> bool outcome" where
  "example_icu_test BOOST_HAS_ICU NDEBUG lib =
     (if BOOST_HAS_ICU
      then (case sample_checks NDEBUG lib of
              (out, Finished) \<Rightarrow> Ends out True
            | (out, Thrown e) \<Rightarrow> Ends out False
            | (out, Assertion_failed) \<Rightarrow> Aborts out)
      else Ends icu_note False)"

section \<open>The expressions\<close>

definition any_rx :: rx where
  "any_rx = Rep (Class ''.'') 0 None"

definition password_rx :: rx where
  "password_rx =
     Seq (Ahead (Seq any_rx (Class ''[[:lower:]]'')))
       (Seq (Ahead (Seq any_rx (Class ''[[:upper:]]'')))
       (Seq (Ahead (Seq any_rx (Class ''[[:punct:]]''))) (Rep (Class ''.'') 6 None)))"

definition filename_rx :: rx where
  "filename_rx =
     Seq (Plain (Alt Buffer_start (Seq any_rx (Class (esc ''//'')))))
       (Group 1 (Rep (Class (esc ''[^//]'')) 1 None))"

definition greek_rx :: rx where
  "greek_rx =
     Seq (Class (esc ''[/x{370}-/x{3FF}]''))
       (Rep (Plain (Alt (Class ''[^[:L*:]]'') (Class (esc ''[/x{370}-/x{3FF}]'')))) 0 None)"

definition currency_rx :: rx where
  "currency_rx =
     (let nd = Rep (Class ''[[:Nd:]]'') 1 None; blank = Rep (Class ''[[:Cf:][:Cc:][:Z*:]]'') 0 None in
      Seq (Rep (Group 1 (Seq (Class ''[[:Sc:]]'') blank)) 0 (Some 1))
        (Seq (Rep (Group 2 (Seq nd (Rep (Plain (Seq (Class ''[[:Po:]]'') nd)) 0 (Some 1)))) 0 (Some 1))
          (Cond 1 Nothing (Seq (When 2 blank) (Class ''[[:Sc:]]'')))))"

lemma expression_texts:
  "rx_text password_rx = pwd_check"
  "rx_text filename_rx = esc ''(?:/A|.*//)([^//]+)''"
  "rx_text greek_rx = esc ''[/x{370}-/x{3FF}](?:[^[:L*:]]|[/x{370}-/x{3FF}])*''"
  "rx_text currency_rx = currency_expression"
  "rx_text card_rx = card_expression"
  by code_simp+

section \<open>What is assumed of the library\<close>

text \<open>The captures of a match in an encoded text.\<close>

definition encode_captures :: "('c list \<Rightarrow> 'd list) \<Rightarrow> 'c captures \<Rightarrow> 'd captures" where
  "encode_captures enc c = (\<lambda>n. map_option enc (c n))"

lemma captured_encode: "enc [] = [] \<Longrightarrow> captured (encode_captures enc c) n = enc (captured c n)"
  by (simp add: captured_def encode_captures_def split: option.split)

text \<open>
  Of a correctly encoded text the library sees the code points, and matches, searches and
  replaces in them in the ways of the Perl syntax; the results are encoded again. The search
  and the iteration repeat groups, for each turn of which the matcher keeps a state in bounded
  storage, so the promise for them is made for texts up to a length that is far below that
  bound. The formats concerned are the simple ones of Perl's style, without any of the
  characters that are special in some Perl-like format. Nothing is assumed of texts that are
  not correctly encoded, and of other expressions and formats.
\<close>

definition short_text :: "utext \<Rightarrow> bool" where
  "short_text t \<longleftrightarrow> valid_text t \<and> length t \<le> 1000"

definition perl_format :: "string \<Rightarrow> bool" where
  "perl_format fmt \<longleftrightarrow> simple_format (CHR ''$'') (backslash # ''$&()?:{}'') fmt"

definition icu_ok :: "(string \<Rightarrow> nat \<Rightarrow> bool) \<Rightarrow> u32_library \<Rightarrow> bool" where
  "icu_ok mem lib \<longleftrightarrow>
     (\<forall>t. valid_text t \<longrightarrow> match_unistr lib (utf16 t) (unistr (rx_text password_rx)) =
        Inr (match_whole mem password_rx t \<noteq> None)) \<and>
     (\<forall>t. valid_text t \<longrightarrow> match_str lib (utf8 t) (rx_text filename_rx) =
        Inr (map_option (encode_captures utf8) (match_whole mem filename_rx t))) \<and>
     (\<forall>t. short_text t \<longrightarrow> search_unistr lib (utf16 t) (rx_text greek_rx) =
        Inr (map_option (\<lambda>m. encode_captures utf16 (fst (snd m))) (search_from mem greek_rx [] t))) \<and>
     (\<forall>t. short_text t \<longrightarrow> successive_str lib (utf8 t) (rx_text currency_rx) =
        (map (\<lambda>m. encode_captures utf8 (snd m)) (fst (all_matches mem currency_rx t)), None)) \<and>
     (\<forall>t fmt. valid_text t \<and> perl_format fmt \<longrightarrow> replace_unistr lib (utf16 t) (rx_text card_rx) fmt =
        Inr (utf16 (replace_matches mem card_rx (expand_format (CHR ''$'') of_char fmt) t)))"

text \<open>The classes that are written out in the expressions.\<close>

definition syntax_classes :: "(string \<Rightarrow> nat \<Rightarrow> bool) \<Rightarrow> bool" where
  "syntax_classes mem \<longleftrightarrow>
     (\<forall>x. mem ''.'' x) \<and>
     (\<forall>x. mem (esc ''//'') x \<longleftrightarrow> x = 0x5C) \<and>
     (\<forall>x. mem (esc ''[^//]'') x \<longleftrightarrow> x \<noteq> 0x5C) \<and>
     (\<forall>x. mem (esc ''[/x{370}-/x{3FF}]'') x \<longleftrightarrow> 0x370 \<le> x \<and> x \<le> 0x3FF) \<and>
     (\<forall>x. mem ''[- ]'' x \<longleftrightarrow> x = of_char (CHR ''-'') \<or> x = of_char (CHR '' ''))"

section \<open>The password and the path\<close>

lemma has_class:
  assumes "syntax_classes mem"
  shows "q \<in> set (ways mem (Seq (Ahead (Seq any_rx (Class k))) r) (u, v, c)) \<longleftrightarrow>
     (\<exists>x \<in> set v. mem k x) \<and> q \<in> set (ways mem r (u, v, c))"
proof -
  have "consumes mem (Seq any_rx (Class k)) (\<lambda>w. \<exists>w1 x. w = w1 @ [x] \<and> mem k x)"
    unfolding any_rx_def
    by (rule consumes_cong [OF consumes_Seq [OF consumes_Rep_any consumes_Class]])
      (use assms in \<open>auto simp: syntax_classes_def\<close>)
  moreover have "(\<exists>w v'. v = w @ v' \<and> (\<exists>w1 x. w = w1 @ [x] \<and> mem k x)) \<longleftrightarrow> (\<exists>x \<in> set v. mem k x)"
    by (metis Cons_eq_appendI append_assoc eq_Nil_appendI in_set_conv_decomp)
  ultimately show ?thesis by (simp add: then_ahead)
qed

lemma password_ways:
  assumes "syntax_classes mem"
  shows "match_whole mem password_rx t \<noteq> None \<longleftrightarrow>
     (\<exists>x \<in> set t. mem ''[[:lower:]]'' x) \<and> (\<exists>x \<in> set t. mem ''[[:upper:]]'' x) \<and>
     (\<exists>x \<in> set t. mem ''[[:punct:]]'' x) \<and> 6 \<le> length t"
  unfolding match_whole_None_iff password_rx_def has_class [OF assms] consumesD [OF consumes_Rep_any]
  using assms by (auto simp: syntax_classes_def)

lemma filename_ways:
  assumes "syntax_classes mem"
  shows "(u, [], c) \<in> set (ways mem filename_rx ([], t, Map.empty)) \<longleftrightarrow>
     u = t \<and> after_last 0x5C t \<noteq> [] \<and> c = [1 \<mapsto> after_last 0x5C t]"
proof -
  have pre: "(u1, v1, c1) \<in> set (ways mem (Plain (Alt Buffer_start (Seq any_rx (Class (esc ''//''))))) ([], t, Map.empty)) \<longleftrightarrow>
      t = u1 @ v1 \<and> c1 = Map.empty \<and> (u1 = [] \<or> last u1 = 0x5C)" for u1 v1 c1
  proof -
    have "consumes mem (Seq any_rx (Class (esc ''//''))) (\<lambda>w. w \<noteq> [] \<and> last w = 0x5C)"
      unfolding any_rx_def
      by (rule consumes_cong [OF consumes_Seq [OF consumes_Rep_any consumes_Class]])
        (use assms in \<open>auto simp: syntax_classes_def\<close>, metis append_butlast_last_id)
    from consumesD [OF this] show ?thesis by auto
  qed
  have notbs: "consumes mem (Rep (Class (esc ''[^//]'')) 1 None) (\<lambda>w. w \<noteq> [] \<and> 0x5C \<notin> set w)"
    by (rule consumes_cong [OF consumes_Rep_any]) (use assms in \<open>auto simp: syntax_classes_def Suc_le_eq\<close>)
  have group: "(u', v', c') \<in> set (ways mem (Group 1 (Rep (Class (esc ''[^//]'')) 1 None)) (u, v, c)) \<longleftrightarrow>
      (\<exists>w. v = w @ v' \<and> (w \<noteq> [] \<and> 0x5C \<notin> set w) \<and> u' = u @ w \<and> c' = c(1 \<mapsto> w))" for u v c u' v' c'
    by (rule captured_consumes [OF notbs])
  have "(u, [], c) \<in> set (ways mem filename_rx ([], t, Map.empty)) \<longleftrightarrow>
     (\<exists>u1 w. t = u1 @ w \<and> (u1 = [] \<or> last u1 = 0x5C) \<and> w \<noteq> [] \<and> 0x5C \<notin> set w \<and> u = t \<and> c = [1 \<mapsto> w])"
    unfolding filename_rx_def ways_Seq_iff pre group append_Nil2 by blast
  also have "\<dots> \<longleftrightarrow> u = t \<and> after_last 0x5C t \<noteq> [] \<and> c = [1 \<mapsto> after_last 0x5C t]"
    using after_last_split [of t "0x5C"] after_last_unique [of t] by metis
  finally show ?thesis .
qed

lemma filename_match:
  assumes "syntax_classes mem"
  shows "match_whole mem filename_rx t = 
    (if after_last 0x5C t = [] then None else Some [1 \<mapsto> after_last 0x5C t, 0 \<mapsto> t])"
proof (cases "match_whole mem filename_rx t")
  case None
  then have "after_last 0x5C t = []" unfolding match_whole_None_iff filename_ways [OF assms] by blast
  then show ?thesis using None by simp
next
  case (Some c)
  then obtain u c1 where "(u, [], c1) \<in> set (ways mem filename_rx ([], t, Map.empty))" "c = c1(0 \<mapsto> u)"
    by (rule match_whole_Some)
  then show ?thesis using Some unfolding filename_ways [OF assms] by simp
qed


section \<open>The Greek text\<close>

lemma repeat_upto_longest:
  assumes one: "\<And>u x v. f (u, x # v, c) = (if Q x then (u @ [x], v, c) # rest u x v else [])"
    and none: "\<And>u. f (u, [], c) = []" and "length v \<le> n"
  shows "\<exists>ps. repeat_upto f n (u, v, c) = (u @ takeWhile Q v, dropWhile Q v, c) # ps"
  using \<open>length v \<le> n\<close>
proof (induction v arbitrary: u n)
  case Nil
  then show ?case by (cases n) (simp_all add: none)
next
  case (Cons x v)
  then obtain m where n: "n = Suc m" "length v \<le> m" by (cases n) auto
  show ?case
  proof (cases "Q x")
    case True
    obtain ps where "repeat_upto f m (u @ [x], v, c) = (u @ [x] @ takeWhile Q v, dropWhile Q v, c) # ps"
      using Cons.IH [OF n(2), of "u @ [x]"] by auto
    then show ?thesis using True n(1) by (simp add: one)
  next
    case False
    then show ?thesis using n(1) by (simp add: one)
  qed
qed

definition is_greek :: "nat \<Rightarrow> bool" where
  "is_greek x \<longleftrightarrow> 0x370 \<le> x \<and> x \<le> 0x3FF"

definition greek_block :: "(string \<Rightarrow> nat \<Rightarrow> bool) \<Rightarrow> utext \<Rightarrow> utext" where
  "greek_block mem t =
     takeWhile (\<lambda>x. mem ''[^[:L*:]]'' x \<or> is_greek x) (dropWhile (\<lambda>x. \<not> is_greek x) t)"

lemma greek_ways:
  assumes "syntax_classes mem"
  shows "ways mem greek_rx (u, [], c) = []"
    and "\<not> is_greek x \<Longrightarrow> ways mem greek_rx (u, x # v, c) = []"
    and "is_greek x \<Longrightarrow> \<exists>v' ps. ways mem greek_rx (u, x # v, c) =
      (u @ x # takeWhile (\<lambda>x. mem ''[^[:L*:]]'' x \<or> is_greek x) v, v', c) # ps"
proof -
  let ?Q = "\<lambda>x. mem ''[^[:L*:]]'' x \<or> is_greek x"
  let ?f = "ways mem (Plain (Alt (Class ''[^[:L*:]]'') (Class (esc ''[/x{370}-/x{3FF}]''))))"
  have greek: "mem (esc ''[/x{370}-/x{3FF}]'') x \<longleftrightarrow> is_greek x" for x
    using assms by (simp add: syntax_classes_def is_greek_def)
  show "ways mem greek_rx (u, [], c) = []" and "\<not> is_greek x \<Longrightarrow> ways mem greek_rx (u, x # v, c) = []"
    by (simp_all add: greek_rx_def ways.simps(2) greek)
  assume "is_greek x"
  have turn: "?f (u, x # v, c) = (if ?Q x then (u @ [x], v, c) #
      (if mem ''[^[:L*:]]'' x \<and> is_greek x then [(u @ [x], v, c)] else []) else [])" for u x v
    by (auto simp: greek)
  have stop: "?f (u, [], c) = []" for u by simp
  obtain ps where "repeat_upto ?f (length v) (u @ [x], v, c) =
      ((u @ [x]) @ takeWhile ?Q v, dropWhile ?Q v, c) # ps"
    using repeat_upto_longest [OF turn stop order_refl] by blast
  then show "\<exists>v' ps. ways mem greek_rx (u, x # v, c) = (u @ x # takeWhile ?Q v, v', c) # ps"
    using \<open>is_greek x\<close> by (simp add: greek_rx_def ways.simps(2) ways.simps(4) greek del: repeat_upto.simps)
qed

lemma greek_search:
  assumes "syntax_classes mem"
  shows "map_option (\<lambda>m. captured (fst (snd m)) 0) (search_from mem greek_rx u t) =
     (if \<exists>x \<in> set t. is_greek x then Some (greek_block mem t) else None)"
proof (induction t arbitrary: u)
  case Nil
  then show ?case by (simp add: search_from.simps [of _ _ _ "[]"] greek_ways [OF assms])
next
  case (Cons x t)
  show ?case
  proof (cases "is_greek x")
    case True
    then show ?thesis
      using greek_ways(3) [OF assms True, of u t Map.empty]
      by (auto simp: search_from.simps [of _ _ _ "x # t"] captured_def greek_block_def)
  next
    case False
    then have "map_option (\<lambda>m. captured (fst (snd m)) 0) (search_from mem greek_rx u (x # t)) =
        map_option (\<lambda>m. captured (fst (snd m)) 0) (search_from mem greek_rx (u @ [x]) t)"
      by (simp add: search_from.simps [of _ _ _ "x # t"] greek_ways(2) [OF assms] option.map_comp comp_def case_prod_beta)
    then show ?thesis using Cons.IH False by (simp add: greek_block_def)
  qed
qed


section \<open>The texts of the sample\<close>

text \<open>The code points of the texts that are not ASCII.\<close>

definition greek_text :: utext where
  "greek_text = [0x0391, 0x039D, 0x0395, 0x0398, 0x0391]"

definition price_points :: utext where
  "price_points = utext '' $100.23 or '' @ [0xA3] @ utext ''198.12 ''"

lemma sample_ascii:
  "ascii ''abcDEF---''" "ascii ''abcD-''" "ascii ''abc.hpp''" "ascii (esc ''c:/a/b/c/d.h'')"
  "ascii ''Some where in''" "ascii ''1234567887654321''" "ascii ''1234-5678-8765-4321''" "ascii ''d.h''"
  "ascii '' $100.23 or ''" "ascii ''198.12 ''" "ascii ''$100.23''" "ascii ''198.12''" "ascii ''$''"
  by code_simp+

lemmas sample_texts = sample_ascii [THEN ascii_texts(1)]
lemmas sample_bytes = sample_ascii [THEN ascii_texts(2)]
lemmas sample_unistr = sample_ascii [THEN ascii_texts(3)]

lemma greek_encodings:
  "greek_letters = utf16 greek_text" "valid_text greek_text"
  "unistr ''Some where in'' @ greek_letters = utf16 (utext ''Some where in'' @ greek_text)"
  "short_text (utext ''Some where in'' @ greek_text)"
proof -
  show letters: "greek_letters = utf16 greek_text" and valid: "valid_text greek_text"
    by (simp_all add: greek_letters_def greek_text_def utf16_char_def scalar_def)
  show "unistr ''Some where in'' @ greek_letters = utf16 (utext ''Some where in'' @ greek_text)"
    by (simp only: utf16_simps letters sample_unistr)
  have "length (utext ''Some where in'' @ greek_text) \<le> 1000" by (simp add: utext_def greek_text_def)
  then show "short_text (utext ''Some where in'' @ greek_text)"
    by (simp only: short_text_def valid_text_simps valid sample_texts)
qed

lemma price_encodings:
  "price_text = utf8 price_points" "short_text price_points"
  "utf8 (0xA3 # utext ''198.12'') = [0xC2, 0xA3] @ bytes ''198.12''" "utf8 [0xA3] = [0xC2, 0xA3]"
proof -
  show pound: "utf8 [0xA3] = [0xC2, 0xA3]" by (simp add: utf8_char_def)
  show "price_text = utf8 price_points"
    unfolding price_text_def price_points_def utf8_simps(3) sample_bytes pound ..
  have "utf8 (0xA3 # utext ''198.12'') = utf8 ([0xA3] @ utext ''198.12'')" by simp
  also have "\<dots> = [0xC2, 0xA3] @ bytes ''198.12''" unfolding utf8_simps(3) sample_bytes pound ..
  finally show "utf8 (0xA3 # utext ''198.12'') = [0xC2, 0xA3] @ bytes ''198.12''" .
  have "length price_points \<le> 1000" by (simp add: utext_def price_points_def)
  moreover have "valid_text price_points"
    unfolding price_points_def valid_text_simps using sample_texts by (simp add: scalar_def)
  ultimately show "short_text price_points" by (simp add: short_text_def)
qed

definition sample_characters :: "nat set" where
  "sample_characters =
     set (utext ''abcDEF---'' @ utext ''abcD-'' @ utext ''abc.hpp'' @ utext (esc ''c:/a/b/c/d.h'') @
       utext ''Some where in'' @ greek_text @ price_points @ utext ''1234567887654321'')"

text \<open>The Unicode classes of these characters; a class that has none of them is empty.\<close>

definition sample_class :: "string \<Rightarrow> nat \<Rightarrow> bool" where
  "sample_class k x =
     (let lower = utext ''abcdehimnoprw''; upper = utext ''DEFS'' @ greek_text in
      if k = ''.'' then True
      else if k = esc ''//'' then x = 0x5C
      else if k = esc ''[^//]'' then x \<noteq> 0x5C
      else if k = esc ''[/x{370}-/x{3FF}]'' then 0x370 \<le> x \<and> x \<le> 0x3FF
      else if k = ''[- ]'' then x = of_char (CHR ''-'') \<or> x = of_char (CHR '' '')
      else if k = ''[[:lower:]]'' then x \<in> set lower
      else if k = ''[[:upper:]]'' then x \<in> set upper
      else if k = ''[^[:L*:]]'' then x \<notin> set (lower @ upper)
      else if k = ''[[:punct:]]'' then x \<in> set (utext (esc ''-.:/''))
      else if k = ''[[:Po:]]'' then x \<in> set (utext (esc ''.:/''))
      else if k = ''[[:Sc:]]'' then x \<in> set (utext ''$'' @ [0xA3])
      else if k = ''[[:Nd:]]'' \<or> k = esc ''/d'' then x \<in> set (utext ''0123456789'')
      else if k = ''[[:Cf:][:Cc:][:Z*:]]'' then x \<in> set (utext '' '')
      else False)"

definition unicode_facts :: "(string \<Rightarrow> nat \<Rightarrow> bool) \<Rightarrow> bool" where
  "unicode_facts mem \<longleftrightarrow>
     (\<forall>r \<in> {password_rx, filename_rx, greek_rx, currency_rx, card_rx}.
        same_classes sample_characters r mem sample_class)"

text \<open>A library that keeps to it; it decodes the texts.\<close>

definition reference_u32 :: u32_library where
  "reference_u32 =
     \<lparr>match_unistr = (\<lambda>us p. Inr (match_whole sample_class password_rx (utf16_decode us) \<noteq> None)),
      match_str = (\<lambda>bs p. Inr (map_option (encode_captures utf8)
        (match_whole sample_class filename_rx (utf8_decode bs)))),
      search_unistr = (\<lambda>us p. Inr (map_option (\<lambda>m. encode_captures utf16 (fst (snd m)))
        (search_from sample_class greek_rx [] (utf16_decode us)))),
      successive_str = (\<lambda>bs p. (map (\<lambda>m. encode_captures utf8 (snd m))
        (fst (all_matches sample_class currency_rx (utf8_decode bs))), None)),
      replace_unistr = (\<lambda>us p fmt. Inr (utf16
        (replace_matches sample_class card_rx (expand_format (CHR ''$'') of_char fmt) (utf16_decode us))))\<rparr>"

lemma reference_u32_ok: "icu_ok sample_class reference_u32"
  by (simp add: icu_ok_def reference_u32_def short_text_def utf8_decode_utf8 utf16_decode_utf16)

lemma sample_class_syntax: "syntax_classes sample_class"
  by (simp add: syntax_classes_def sample_class_def esc_def backslash_def)

lemma sample_class_facts: "unicode_facts sample_class"
  by (simp add: unicode_facts_def same_classes_def)

section \<open>The functions of the sample\<close>

lemma perl_human_format: "perl_format u32_human_format"
  by code_simp

lemma library_calls:
  assumes "icu_ok mem lib"
  shows "valid_text t \<Longrightarrow> is_valid_password lib (utf16 t) (unistr pwd_check) =
      Inr (match_whole mem password_rx t \<noteq> None)"
    and "valid_text t \<Longrightarrow> get_filename lib (utf8 t) =
      (case match_whole mem filename_rx t of Some what \<Rightarrow> Inr (utf8 (captured what 1))
       | None \<Rightarrow> Inl (Runtime_error ''Invalid pathname''))"
    and "short_text t \<Longrightarrow> extract_greek lib (utf16 t) =
      (case map_option (\<lambda>m. captured (fst (snd m)) 0) (search_from mem greek_rx [] t) of
         Some block \<Rightarrow> Inr (utf16 block) | None \<Rightarrow> Inl (Runtime_error ''No Greek found!''))"
    and "short_text t \<Longrightarrow> enumerate_currencies lib (utf8 t) =
      (concat (map (\<lambda>m. utf8 (captured (snd m) 0) @ [10]) (fst (all_matches mem currency_rx t))), None)"
    and "short_text t \<Longrightarrow> enumerate_currencies2 lib (utf8 t) =
      (concat (map (\<lambda>m. utf8 (captured (snd m) 1) @ [10]) (fst (all_matches mem currency_rx t))), None)"
    and "valid_text t \<Longrightarrow> u32_human_readable_card_number lib (utf16 t) =
      Inr (utf16 (replace_matches mem card_rx (expand_format (CHR ''$'') of_char u32_human_format) t))"
  using assms perl_human_format unfolding icu_ok_def expression_texts
  by (simp_all add: is_valid_password_def get_filename_def extract_greek_def enumerate_currencies_def
      enumerate_currencies2_def u32_human_readable_card_number_def expression_texts comp_def
      captured_encode split: option.split)

text \<open>
  The password check accepts exactly the texts of at least six characters with a lower case
  letter, an upper case letter and a punctuation character.
\<close>

theorem password_requirements:
  assumes "icu_ok mem lib" and "syntax_classes mem" and "valid_text t"
  shows "is_valid_password lib (utf16 t) (unistr pwd_check) = Inr
     ((\<exists>x \<in> set t. mem ''[[:lower:]]'' x) \<and> (\<exists>x \<in> set t. mem ''[[:upper:]]'' x) \<and>
      (\<exists>x \<in> set t. mem ''[[:punct:]]'' x) \<and> 6 \<le> length t)"
  unfolding library_calls(1) [OF assms(1,3)] password_ways [OF assms(2)] ..

text \<open>
  C39. The file name of a path, for a path in valid UTF-8. It is the bytes behind the last
  backslash byte, all of them if there is none; a path with nothing behind the last backslash,
  the empty one included, is refused with \<open>Invalid pathname\<close>. The result is valid UTF-8
  again: cutting at the byte never cuts a character. (A path that is not valid UTF-8 is left to
  the library, which may throw.)
\<close>

theorem filename_extracted:
  assumes "icu_ok mem lib" and "syntax_classes mem" and "valid_text t"
  shows "get_filename lib (utf8 t) =
           (if after_last 0x5C (utf8 t) = [] then Inl (Runtime_error ''Invalid pathname'')
            else Inr (after_last 0x5C (utf8 t))) \<and>
         after_last 0x5C (utf8 t) = utf8 (after_last 0x5C t)"
proof -
  have name: "after_last 0x5C (utf8 t) = utf8 (after_last 0x5C t)"
    using after_last_utf8 [OF assms(3), of "0x5C"] by simp
  then show ?thesis
    unfolding library_calls(2) [OF assms(1,3)] filename_match [OF assms(2)]
    by (simp add: captured_def)
qed

theorem filename_extracted_witness:
  "get_filename reference_u32 (utf8 (utext (esc ''c:/'') @ [0x55C, 0x20AC])) =
     Inr [0xD5, 0x9C, 0xE2, 0x82, 0xAC] \<and>
   get_filename reference_u32 (utf8 (utext (esc ''c:/a/''))) = Inl (Runtime_error ''Invalid pathname'')"
proof -
  let ?s = "utext (esc ''c:/'') @ [0x55C, 0x20AC]" and ?t = "utext (esc ''c:/a/'')"
  have valid: "valid_text ?s" "valid_text ?t"
    by (simp_all add: utext_def esc_def backslash_def scalar_def)
  note name = filename_extracted [OF reference_u32_ok sample_class_syntax]
  have "after_last 0x5C ?s = [0x55C, 0x20AC]" "after_last 0x5C ?t = []"
    by (simp_all add: after_last_def utext_def esc_def backslash_def)
  moreover have "utf8 [0x55C, 0x20AC] = [0xD5, 0x9C, 0xE2, 0x82, 0xAC]" by (simp add: utf8_char_def)
  ultimately have "after_last 0x5C (utf8 ?s) = [0xD5, 0x9C, 0xE2, 0x82, 0xAC]" "after_last 0x5C (utf8 ?t) = []"
    using name [OF valid(1)] name [OF valid(2)] by (simp_all only: utf8_simps)
  then show ?thesis using name [OF valid(1)] name [OF valid(2)] by (simp only: if_False list.distinct if_True simp_thms)
qed

text \<open>
  The Greek text that is extracted starts at the first Greek character and goes on as long as
  the characters are Greek or no letters; without a Greek character the function throws.
\<close>

theorem greek_extracted:
  assumes "icu_ok mem lib" and "syntax_classes mem" and "short_text t"
  shows "extract_greek lib (utf16 t) =
     (if \<exists>x \<in> set t. is_greek x then Inr (utf16 (greek_block mem t))
      else Inl (Runtime_error ''No Greek found!''))"
  unfolding library_calls(3) [OF assms(1,3)] greek_search [OF assms(2)] by simp

section \<open>The run of the sample\<close>

lemma prices_found:
  "map (\<lambda>m. (captured (snd m) 0, captured (snd m) 1)) (fst (all_matches sample_class currency_rx price_points)) =
     [(utext ''$100.23'', utext ''$''), (0xA3 # utext ''198.12'', [0xA3])]"
  by code_simp

lemma card_formatted:
  "replace_matches sample_class card_rx (expand_format (CHR ''$'') of_char u32_human_format) (utext ''1234567887654321'') = utext ''1234-5678-8765-4321''"
  by code_simp

text \<open>
  All assertions of the sample hold, so that they may as well not be compiled; what it prints
  are the prices, then their currencies.
\<close>

lemma sample_checks_hold:
  assumes "icu_ok mem lib" and "unicode_facts mem"
  shows "sample_checks NDEBUG lib =
     (bytes ''$100.23'' @ [10, 0xC2, 0xA3] @ bytes ''198.12'' @ [10] @ bytes ''$'' @ [10, 0xC2, 0xA3, 10], Finished)"
proof -
  have same: "same_classes sample_characters password_rx mem sample_class"
    "same_classes sample_characters filename_rx mem sample_class"
    "same_classes sample_characters greek_rx mem sample_class"
    "same_classes sample_characters currency_rx mem sample_class"
    "same_classes sample_characters card_rx mem sample_class"
    using assms(2) unfolding unicode_facts_def by blast+
  have inside: "set (utext ''abcDEF---'') \<subseteq> sample_characters" "set (utext ''abcD-'') \<subseteq> sample_characters"
    "set (utext ''abc.hpp'') \<subseteq> sample_characters" "set (utext (esc ''c:/a/b/c/d.h'')) \<subseteq> sample_characters"
    "set (utext ''Some where in'' @ greek_text) \<subseteq> sample_characters"
    "set price_points \<subseteq> sample_characters" "set (utext ''1234567887654321'') \<subseteq> sample_characters"
    unfolding sample_characters_def by auto
  note calls = library_calls [OF assms(1)]
  have "is_valid_password lib (unistr ''abcDEF---'') (unistr pwd_check) = Inr True"
    unfolding sample_unistr calls(1) [OF sample_texts(1)] match_whole_cong [OF same(1) inside(1)]
      password_ways [OF sample_class_syntax] by code_simp
  moreover have "is_valid_password lib (unistr ''abcD-'') (unistr pwd_check) = Inr False"
    unfolding sample_unistr calls(1) [OF sample_texts(2)] match_whole_cong [OF same(1) inside(2)]
      password_ways [OF sample_class_syntax] by code_simp
  moreover have "after_last 0x5C (utext ''abc.hpp'') = utext ''abc.hpp''" "utext ''abc.hpp'' \<noteq> []"
    "after_last 0x5C (utext (esc ''c:/a/b/c/d.h'')) = utext ''d.h''" "utext ''d.h'' \<noteq> []"
    by code_simp+
  then have "get_filename lib (bytes ''abc.hpp'') = Inr (bytes ''abc.hpp'')"
    "get_filename lib (bytes (esc ''c:/a/b/c/d.h'')) = Inr (bytes ''d.h'')"
    unfolding sample_bytes calls(2) [OF sample_texts(3)] calls(2) [OF sample_texts(4)]
      match_whole_cong [OF same(2) inside(3)] match_whole_cong [OF same(2) inside(4)]
      filename_match [OF sample_class_syntax] by (simp_all add: captured_def)
  moreover have "extract_greek lib (unistr ''Some where in'' @ greek_letters) = Inr greek_letters"
  proof -
    have "\<exists>x \<in> set (utext ''Some where in'' @ greek_text). is_greek x"
      "greek_block sample_class (utext ''Some where in'' @ greek_text) = greek_text"
      by code_simp+
    then have "extract_greek lib (utf16 (utext ''Some where in'' @ greek_text)) = Inr (utf16 greek_text)"
      unfolding calls(3) [OF greek_encodings(4)] search_from_cong [OF same(3) inside(5)]
        greek_search [OF sample_class_syntax] by simp
    then show ?thesis unfolding greek_encodings(3) unfolding greek_encodings(1) .
  qed
  moreover have "u32_human_readable_card_number lib (unistr ''1234567887654321'') = Inr (unistr ''1234-5678-8765-4321'')"
    unfolding sample_unistr calls(6) [OF sample_texts(6)] replace_matches_cong [OF same(5) inside(7)]
      card_formatted ..
  moreover have "enumerate_currencies lib price_text =
      (bytes ''$100.23'' @ [10, 0xC2, 0xA3] @ bytes ''198.12'' @ [10], None)"
    "enumerate_currencies2 lib price_text = (bytes ''$'' @ [10, 0xC2, 0xA3, 10], None)"
    unfolding price_encodings(1) calls(4,5) [OF price_encodings(2)] all_matches_cong [OF same(4) inside(6)]
    using prices_found by (auto simp: price_encodings(3,4) sample_bytes [symmetric] simp del: utf8_simps)
  ultimately show ?thesis
    by (simp add: sample_checks_def call_then_def assert_then_def print_then_def)
qed

text \<open>
  So the program exits with 0 and the test passes. Without ICU the program still exits with 0,
  but the test fails.
\<close>

theorem icu_programs_end:
  assumes "icu_ok mem lib" and "unicode_facts mem"
  shows "\<exists>out. example_icu_main True NDEBUG lib = Ends out 0 \<and> example_icu_test True NDEBUG lib = Ends out True \<and>
           example_icu_main False NDEBUG lib = Ends icu_note 0 \<and> example_icu_test False NDEBUG lib = Ends icu_note False"
  unfolding example_icu_main_def example_icu_test_def sample_checks_hold [OF assms] by simp

end
