(* ===== verification/Spec2Isabelle.thy ===== *)
theory Spec2Isabelle
  imports Proxy_Spec Queued_Loop Debug_Server Icu_Samples
begin

text \<open>
  A verification of the Boost.Asio MySQL proxy: a program that accepts MySQL clients, forwards
  the bytes of each client to a MySQL server and back, and writes the commands it sees pass
  into a log file. The development models the whole of the program's own code, the files of
  src/, and the sample programs of a library packaged with it (the rest of the repository are
  build scripts).

  The parts of the program and their theories, in the order of their dependence:

  \<^item> Prelude: words, the exceptions the code can throw as the datatype \<open>cxx_fault\<close>, results
    (\<open>Inl\<close> an exception, \<open>Inr\<close> a value), the shifts and the little-endian lengths.
  \<^item> Cxx_String: \<open>std::string\<close> with its capacity, since the code computes reservations from it.
    The standard leaves the capacities to the implementation, so they are those of libstdc++
    in GCC 7, the compiler of the platform in README.md (Ubuntu 18.04): \<open>reserve\<close> at least
    doubles a capacity that it raises.
  \<^item> Command, Response: \<open>MySqlCommand\<close> and \<open>MySqlResponse\<close> (packet.hpp, packet.cpp): the
    enumerations with the bytes that have no enumerator, and their classification.
  \<^item> Packet: \<open>MySqlPacket\<close>, a byte-driven state machine (\<open>collect\<close>) over a virtual function
    table; the derived classes are the two tables \<open>client_vtable\<close> and \<open>server_vtable\<close>.
  \<^item> Wire, Framing: the specification of the protocol's framing (a message is cut into packets
    of at most 2^24-1 bytes, \<open>encode_message\<close>), an abstract receiver \<open>rx_step\<close> and the proof,
    in the locale \<open>packet_class\<close>, that \<open>collect\<close> refines it for every derived class that
    leaves the fields of the base class alone.
  \<^item> Client_Packet, Server_Packet: the derived classes, their interpretations of the locales,
    the decoding of client messages, the end of the connection phase, and the bounds.
  \<^item> Packet_Logger: the log file and \<open>PacketLogger\<close>; the locale \<open>packet_log\<close> is what a
    connection relies on.
  \<^item> Connection: the class \<open>Connection\<close>, each function and each completion handler;
    \<open>conn_feed\<close> is the handling of one received chunk.
  \<^item> Session: runs of one connection over the chunks of both sides.
  \<^item> Connection_Manager: the ordered set of connections (locale \<open>live_set\<close>) and the class.
  \<^item> Server, Server_Properties: the class \<open>Server\<close>, every handler of the program as an event,
    the event loop as the step \<open>server_step\<close>, its runs and its reachable states (\<open>running\<close>).
  \<^item> Queued_Loop: the event loop with its queue: an operation completes in one step and its
    handler runs in a later one (\<open>queued\<close>), when the socket may have been closed meanwhile.
  \<^item> Proxy_Spec: the specification of a proxy (connections and the bytes passed on) and the
    proof that the server refines it.
  \<^item> Server_Log: the log of the whole server, with the lines of each connection.
  \<^item> Main_Program: \<open>main\<close>, the exit codes and the shutdown.
  \<^item> Program_Log: the logger after a handler that throws, the destruction of the server, and
    the log file the program leaves behind.
  \<^item> Cxx_Vector, Ostream: the parts of \<open>std::vector\<close> and of the formatted output of
    \<open>std::cout\<close> (base, fill character, width) that only the debug build uses.
  \<^item> Debug_Packet, Debug_Connection, Debug_Server: the code under \<open>PROXY_PACKET_DEBUG\<close>: packets that keep
    their payload, buffers of 60 bytes, the debug printers, a logger that also prints. A
    debug object is the release object with the further members beside it, and the debug
    functions are written out like the release functions, with the conditional parts. The
    manager, the server, the event loop and \<open>main\<close> follow, over connections of the debug
    build and one \<open>std::cout\<close> for all of them.
  \<^item> Regex_Library, Card_Samples, Unicode, Icu_Samples: the sample programs of Boost.Regex and their
    tests under libs/LibCMaker_Boost/samples, over the documented meaning of the regular
    expressions: an expression is a tree with its Perl syntax and the ways in which it matches.
    What is assumed of the library (\<open>boost_ok\<close>, \<open>icu_ok\<close>) concerns only the expressions of
    the samples, simple replacement formats and correctly encoded texts: a \<open>std::string\<close> of
    the Unicode sample is its bytes, a \<open>UnicodeString\<close> its UTF-16 code units. Whether \<open>NDEBUG\<close>
    removes the assertions is a parameter. The samples are independent of the proxy.

  How state corresponds. A class is a record with the members of the class under their names;
  the base class is a record that the derived one extends. A \<open>std::function\<close> is an argument
  (the logger, type \<open>log_func\<close>) or a result flag (the request to stop). The connection objects live in a heap
  from addresses to records, so that an access to a destroyed object is visible: it is the
  fault \<open>Undefined_behaviour\<close>. A lambda handed to Asio is a constructor of \<open>async_op\<close> or
  \<open>server_op\<close>, in flight until an event completes it. Text written to standard output is a
  string of the state. After an exception leaves the event loop only the logger is tracked
  (\<open>run_log_after\<close>), since the log file is all that outlives the process.

  Boost.Asio and the system are not part of the code, so they are parameters: \<open>asio_calls\<close> for
  the results of the synchronous calls, \<open>os_calls\<close> for those of the construction, the events
  for the results of the asynchronous operations. What the code relies on is named: \<open>asio_ok\<close>
  (only operations in flight complete, a cancelled one with \<open>operation_aborted\<close>, no more bytes
  than the buffer holds, a fresh address from the allocator) and \<open>sends_all\<close> where a property
  needs sends that are not short. That a cancelled operation completes with
  \<open>operation_aborted\<close> is true only of one that had not completed before; Queued_Loop drops this
  part of the promise, for a queue in any order. So that no handler meets undefined behaviour
  (\<open>server_faults\<close>) holds under \<open>asio_ok\<close> only; without that part of it there is one more
  fault, the use of a destroyed connection (\<open>queued_faults\<close>, \<open>queued_use_after_free\<close>). What
  the queue keeps: an operation completes once, and a new connection is not given an address
  that a handler in the queue still holds. The bytes of a read count when its handler runs;
  nothing reads that buffer in between. Theorem \<open>stale_completion_undefined\<close> and theorem
  \<open>short_send_drops\<close> show that neither assumption is idle.

  What the lemmas show. Framing: \<open>is_received\<close> marks exactly the ends of messages. Client and
  server packet: the decoded command and text are the ones sent; no input makes the collector
  fail except with the one deliberate exception and, when more than 40 full packets of a
  statement are collected, with the \<open>length_error\<close> of a reservation, because the reservations
  double with every packet; the phase changes at the server's OK. Session: the
  log gets one line per message when a message ends its chunk, and loses lines otherwise; the
  bytes are forwarded unchanged. Server: the invariant of the reachable states (set of the
  manager, objects, operations, buffers), the faults that can end the loop, the end of a
  connection, shutdown with termination; in the log every connection has the lines it would
  write alone. With the queue the reachable states stay the same, the accept handler copes with
  a closed acceptor, and the only further fault is a handler of a connection that was
  destroyed while its completion waited, which does occur. Program: the file holds these lines however the program ends. Debug build: a
  connection has the same faults, log, sent bytes, phase and packets as in the release build
  over any chunks, and the whole program the same exit code and log file over any schedule (so
  the results of the release build carry over); the kept payload is the payload that was
  sent, and what the printers print. Several properties state what goes wrong: lost log
  lines, a stale flag after a message of a multiple of 2^24-1 bytes, connections that leak
  when their connect or first read fails, lost bytes after a short send, one client that stops
  the proxy of all. Samples: which card numbers are accepted and how they are formatted,
  which password, file name and Greek text is found, and that the assertions hold.

  Bounds. Nothing bounds the number of client bytes of the proxy. A message is decoded up to
  \<open>message_bound\<close>: for a statement 40 full packets and a byte (671088601 bytes), beyond which
  its reservation fails, and for the other commands, whose text is not stored, the maximal
  size of a string. The payload kept by the debug build is a vector, whose reservations are
  exact; the two builds are compared for up to 2^60 received bytes (\<open>payload_bound\<close>), at which
  no capacity can wrap around. There a chunk may even be longer than the 60 bytes of the
  buffer; no read delivers such a chunk. The proxy needs no fuel: every function terminates,
  and the event loop is an inductive relation. In Regex_Library successive matches are looked
  for once per character and once more, which is enough for every expression that does not
  match the empty text (\<open>matches_from_enough\<close>).

  Not modelled: memory exhaustion (\<open>std::bad_alloc\<close>, which a long statement meets before the
  \<open>length_error\<close> on any machine of today, with the same consequences) and the interior of Asio, of Boost.Regex with ICU and of the
  system. The rest of the repository has no behaviour of its own: CMake scripts, and two
  compile tests of the packaged Boost (test_boost_compiled.cpp, test_boost_headers.cpp), whose
  statements are calls of Boost with unused results.
\<close>

end
